(* ===== verification/Prelude.thy ===== *)
theory Prelude
  imports Main "HOL-Library.Word"
begin

unbundle bit_operations_syntax

text \<open>
  Shared types and lemmas of the development. The machine types of the C sources
  are fixed-width words: \<open>uint8_t\<close> is \<open>byte\<close>, \<open>uint16_t\<close>, \<open>uint32_t\<close>/\<open>unsigned\<close> and
  \<open>uint64_t\<close> are \<open>u16\<close>, \<open>u32\<close> and \<open>u64\<close>. A \<open>size_t\<close> is a natural number below
  \<open>size_max + 1\<close> (LP64, the ABI of the arm64 targets of the application); where the
  sources let a \<open>size_t\<close> wrap around, the definitions write \<open>mod size_mod\<close> out.
  The lemmas relate the big-endian byte strings that the codecs read and write to
  the numbers they denote, and bitwise operations on words to arithmetic.
\<close>

type_synonym byte = "8 word"
type_synonym u16 = "16 word"
type_synonym u32 = "32 word"
type_synonym u64 = "64 word"

named_theorems word_nat_simps \<open>bit operations of the sources as arithmetic on naturals\<close>

abbreviation size_mod :: nat where "size_mod \<equiv> 2 ^ 64"

abbreviation size_max :: nat where "size_max \<equiv> 2 ^ 64 - 1"

subsection \<open>Lists\<close>

lemma take_drop_split: "n \<le> length xs \<Longrightarrow> \<exists>ys zs. xs = ys @ zs \<and> length ys = n"
  by (intro exI [of _ "take n xs"] exI [of _ "drop n xs"]) simp

lemma foldl_nth_take:
  "n \<le> length xs \<Longrightarrow> foldl (\<lambda>r i. f r (xs ! i)) a [0..<n] = foldl f a (take n xs)"
proof (induction n)
  case (Suc n)
  then show ?case by (simp add: take_Suc_conv_app_nth)
qed simp

lemma take_take_append: "length xs = n \<Longrightarrow> take n (xs @ ys) = xs"
  by simp

subsection \<open>Big-endian byte strings\<close>

definition be_val :: "byte list \<Rightarrow> nat" where
  "be_val bs = foldl (\<lambda>a b. a * 256 + unat b) 0 bs"

primrec be_bytes :: "nat \<Rightarrow> nat \<Rightarrow> byte list" where
  "be_bytes 0 v = []"
| "be_bytes (Suc n) v = be_bytes n (v div 256) @ [word_of_nat v]"

lemma be_val_Nil [simp]: "be_val [] = 0"
  by (simp add: be_val_def)

lemma be_val_snoc [simp]: "be_val (bs @ [b]) = be_val bs * 256 + unat b"
  by (simp add: be_val_def)

lemma be_val_append: "be_val (as @ bs) = be_val as * 256 ^ length bs + be_val bs"
proof (induction bs rule: rev_induct)
  case (snoc b bs)
  then show ?case by (simp add: append_assoc [symmetric] algebra_simps del: append_assoc)
qed simp

lemma be_val_Cons: "be_val (b # bs) = unat b * 256 ^ length bs + be_val bs"
  using be_val_append [of "[b]" bs] by (simp add: be_val_def)

lemma byte_bound [simp]: "unat (b :: byte) < 256"
  using unsigned_less [of b, where ?'a = nat] by simp

lemma be_val_bound: "be_val bs < 256 ^ length bs"
proof (induction bs rule: rev_induct)
  case (snoc b bs)
  have "unat b < 256" by simp
  with snoc have "be_val bs * 256 + unat b < (be_val bs + 1) * 256" by simp
  also have "\<dots> \<le> 256 ^ length bs * 256" using snoc by (intro mult_le_mono1) simp
  finally show ?case by (simp add: mult.commute)
qed simp

lemma length_be_bytes [simp]: "length (be_bytes n v) = n"
  by (induction n arbitrary: v) simp_all

lemma unat_byte_of_nat: "unat (word_of_nat v :: byte) = v mod 256"
  by (simp add: unat_of_nat)

lemma be_val_be_bytes: "be_val (be_bytes n v) = v mod 256 ^ n"
proof (induction n arbitrary: v)
  case (Suc n)
  have "v mod 256 ^ Suc n = (v div 256) mod 256 ^ n * 256 + v mod 256"
    by (metis mod_mult2_eq power_Suc mult.commute)
  then show ?case by (simp add: Suc unat_byte_of_nat)
qed simp

lemma be_bytes_be_val: "be_bytes (length bs) (be_val bs) = bs"
proof (induction bs rule: rev_induct)
  case (snoc b bs)
  have "unat b < 256" by simp
  then have "(be_val bs * 256 + unat b) div 256 = be_val bs" by simp
  moreover have "(word_of_nat (be_val bs * 256 + unat b) :: byte) = b"
    by (rule unsigned_word_eqI [where ?'a = nat]) (simp only: unat_byte_of_nat, simp)
  ultimately show ?case using snoc by simp
qed simp

lemma be_val_inj: "length as = length bs \<Longrightarrow> be_val as = be_val bs \<Longrightarrow> as = bs"
  by (metis be_bytes_be_val)

subsection \<open>Bit operations as arithmetic\<close>

lemma unat_or_disjoint:
  fixes a b :: "'a::len word"
  assumes "a AND b = 0"
  shows "unat (a OR b) = unat a + unat b"
proof -
  have "unat a AND unat b = 0"
    using assms by (metis unsigned_and_eq unsigned_0)
  then have "unat a + unat b = (unat a OR unat b)" by (rule disjunctive_add_eq_or)
  then show ?thesis by (simp add: unsigned_or_eq)
qed

lemma unat_push_bit:
  fixes r :: "'a::len word"
  assumes "unat r * 2 ^ n < 2 ^ LENGTH('a)"
  shows "unat (push_bit n r) = unat r * 2 ^ n"
proof -
  have "unat (push_bit n r) = take_bit LENGTH('a) (unat r * 2 ^ n)"
    by (metis unsigned_push_bit_eq push_bit_eq_mult)
  then show ?thesis using assms by (simp add: take_bit_nat_eq_self)
qed

lemma unat_ucast_up [simp]:
  fixes x :: "'a::len word"
  assumes "LENGTH('a) \<le> LENGTH('b::len)"
  shows "unat (ucast x :: 'b word) = unat x"
proof -
  have "unat x < 2 ^ LENGTH('a)" by simp
  also have "\<dots> \<le> 2 ^ LENGTH('b)" using assms by (simp add: power_increasing)
  finally show ?thesis by (simp add: unsigned_ucast_eq take_bit_nat_eq_self)
qed

lemma unat_and_mask: "unat ((w :: 'a::len word) AND mask n) = unat w mod 2 ^ n"
proof -
  have "unat (w AND mask n) = take_bit n (unat w)"
    by (simp only: take_bit_eq_mask [symmetric] unsigned_take_bit_eq)
  then show ?thesis by (simp add: take_bit_eq_mod)
qed

lemma and_pow_eq_0_iff:
  fixes w :: "'a::len word"
  assumes "n < LENGTH('a)"
  shows "w AND 2 ^ n = 0 \<longleftrightarrow> even (unat w div 2 ^ n)"
proof -
  have "bit w n \<longleftrightarrow> bit (unat w) n" using assms by (simp add: bit_unsigned_iff)
  then show ?thesis by (simp add: and_exp_eq_0_iff_not_bit bit_iff_odd)
qed

lemma byte_and_7f [word_nat_simps]: "unat ((b :: byte) AND 0x7f) = unat b mod 128"
  using unat_and_mask [of b 7] by (simp add: mask_eq_exp_minus_1)

lemma byte_and_1f [word_nat_simps]: "unat ((b :: byte) AND 0x1f) = unat b mod 32"
  using unat_and_mask [of b 5] by (simp add: mask_eq_exp_minus_1)

lemma byte_and_80 [word_nat_simps]: "(b :: byte) AND 0x80 = 0 \<longleftrightarrow> unat b < 128"
proof -
  have "unat b div 128 < 2" using byte_bound [of b] by (simp add: div_less_iff_less_mult)
  then have "even (unat b div 128) \<longleftrightarrow> unat b div 128 = 0" by (cases "unat b div 128") auto
  then show ?thesis using and_pow_eq_0_iff [of 7 b] by (simp add: div_eq_0_iff)
qed

lemma unat_shl7_or:
  assumes "unat (r :: u64) < 2 ^ 57"
  shows "unat (push_bit 7 r OR ucast ((b :: byte) AND 0x7f)) = unat r * 128 + unat b mod 128"
proof -
  have "b AND 0x7f = take_bit 7 b" by (simp add: take_bit_eq_mask mask_eq_exp_minus_1)
  then have "push_bit 7 r AND ucast (b AND 0x7f) = 0"
    by (auto simp: bit_eq_iff bit_simps)
  moreover have "unat (push_bit 7 r) = unat r * 128"
    using assms by (simp add: unat_push_bit)
  ultimately show ?thesis
    by (simp add: unat_or_disjoint byte_and_7f)
qed

lemma drop_bit_eq_0_iff: "drop_bit n (w :: 'a::len word) = 0 \<longleftrightarrow> unat w < 2 ^ n"
proof -
  have "drop_bit n w = 0 \<longleftrightarrow> drop_bit n (unat w) = 0"
    by (metis unat_drop_bit_eq unsigned_0 unsigned_word_eqI)
  then show ?thesis by (simp add: drop_bit_eq_div div_eq_0_iff)
qed

lemma unat_shl8_or:
  assumes "unat (r :: u64) < 2 ^ 56"
  shows "unat (push_bit 8 r OR ucast (b :: byte)) = unat r * 256 + unat b"
proof -
  have "push_bit 8 r AND ucast b = 0"
    by (auto simp: bit_eq_iff bit_simps dest: bit_imp_le_length)
  moreover have "unat (push_bit 8 r) = unat r * 256"
    using assms by (simp add: unat_push_bit)
  moreover have "unat (ucast b :: u64) = unat b"
    by simp
  ultimately show ?thesis
    by (simp add: unat_or_disjoint)
qed

lemma word_eqI_unat: "unat x = unat y \<Longrightarrow> x = y"
  by (simp add: word_unat_eq_iff)

lemma word_of_nat_eqI: "unat x = n \<Longrightarrow> x = word_of_nat n"
  by auto

lemma unat_fold_be:
  "length bs \<le> 8 \<Longrightarrow> unat (foldl (\<lambda>r b. push_bit 8 r OR ucast b) (0 :: u64) (bs :: byte list)) = be_val bs"
proof (induction bs rule: rev_induct)
  case (snoc b bs)
  have "be_val bs < 256 ^ length bs" by (rule be_val_bound)
  also have "\<dots> \<le> 256 ^ 7" using snoc.prems by (intro power_increasing) simp_all
  finally have "be_val bs < 2 ^ 56" by simp
  with snoc show ?case by (simp add: unat_shl8_or)
qed simp

lemma bit_below: "unat (x :: 'a::len word) < 2 ^ k \<Longrightarrow> bit x n \<Longrightarrow> n < k"
proof -
  assume "unat x < 2 ^ k" "bit x n"
  then have "take_bit k x = x" by (simp add: take_bit_eq_self_iff_drop_bit_eq_0 drop_bit_eq_0_iff)
  then show ?thesis using \<open>bit x n\<close> by (metis bit_take_bit_iff)
qed

text \<open>Two disjoint bit fields put together.\<close>

lemma unat_push_or:
  fixes lo hi :: "'a::len word"
  assumes "unat lo < 2 ^ k" "unat hi * 2 ^ k < 2 ^ LENGTH('a)"
  shows "unat (push_bit k hi OR lo) = unat hi * 2 ^ k + unat lo"
proof -
  have "push_bit k hi AND lo = 0"
    by (rule bit_eqI) (use bit_below [OF assms(1)] in \<open>fastforce simp: bit_simps\<close>)
  then show ?thesis using assms(2) by (simp add: unat_or_disjoint unat_push_bit)
qed

lemma times_8_exact: "8 * a = a * 8 mod M \<and> 8 * a < M" if "a * 8 mod M div 8 = a" "0 < M" for a M :: nat
proof -
  have "a * 8 mod M div 8 * 8 \<le> a * 8 mod M" by (rule div_times_less_eq_dividend)
  then have "a * 8 \<le> a * 8 mod M" unfolding that(1) .
  moreover have "a * 8 mod M < M" using that(2) by simp
  ultimately have "a * 8 < M" by linarith
  then show ?thesis by simp
qed

end
