(* ===== verification/Mem.thy ===== *)
theory Mem
  imports Prelude
begin

unbundle bit_operations_syntax

text \<open>
  The memory and C-string helpers of \<open>crypto/mem.c\<close> that every other component calls.
  A memory region is the list of its bytes; a pointer into it is the list of the bytes
  from the pointer on. The libc allocator is a parameter: for a call number and a
  requested size it returns nothing or the (arbitrary) initial contents of the block,
  so every pattern of allocation failures is an instance. It stands for \<open>malloc\<close>: the weak
  \<open>OPENSSL_memory_alloc\<close> hooks, null unless an application defines them, are not modelled. Lemmas: the constant-time
  comparison decides equality, reallocation keeps the old contents, the bounded string
  copies stay inside their buffer and terminate what they write.
\<close>

type_synonym allocator = "nat \<Rightarrow> nat \<Rightarrow> (nat \<Rightarrow> byte) option"

subsection \<open>Allocation\<close>

definition OPENSSL_MALLOC_PREFIX :: nat where
  "OPENSSL_MALLOC_PREFIX = 8"

definition OPENSSL_malloc :: "allocator \<Rightarrow> nat \<Rightarrow> nat \<Rightarrow> byte list option" where
  "OPENSSL_malloc m k sz =
     (if (sz + OPENSSL_MALLOC_PREFIX) mod size_mod < sz then None
      else (case m k (sz + OPENSSL_MALLOC_PREFIX) of
              None \<Rightarrow> None
            | Some junk \<Rightarrow> Some (map junk [OPENSSL_MALLOC_PREFIX..<sz + OPENSSL_MALLOC_PREFIX])))"

definition OPENSSL_realloc :: "allocator \<Rightarrow> nat \<Rightarrow> byte list option \<Rightarrow> nat \<Rightarrow> byte list option" where
  "OPENSSL_realloc m k orig new_size =
     (case orig of
        None \<Rightarrow> OPENSSL_malloc m k new_size
      | Some old \<Rightarrow>
          (case OPENSSL_malloc m k new_size of
             None \<Rightarrow> None
           | Some ret \<Rightarrow>
               (let to_copy = (if length old < new_size then length old else new_size)
                in Some (take to_copy old @ drop to_copy ret))))"

definition OPENSSL_memdup :: "allocator \<Rightarrow> nat \<Rightarrow> byte list \<Rightarrow> nat \<Rightarrow> byte list option" where
  "OPENSSL_memdup m k p sz =
     (if sz = 0 then None
      else (case OPENSSL_malloc m k sz of
              None \<Rightarrow> None
            | Some ret \<Rightarrow> Some (take sz p @ drop sz ret)))"

text \<open>
  \<open>memcpy\<close> of the cells \<open>bs\<close> to offset \<open>pos\<close> of a region, and \<open>memmove\<close> inside a region; the
  cells are bytes or, for an array of pointers, pointers.
\<close>

definition mem_write :: "nat \<Rightarrow> 'a list \<Rightarrow> 'a list \<Rightarrow> 'a list" where
  "mem_write pos bs buf = take pos buf @ bs @ drop (pos + length bs) buf"

definition mem_move :: "nat \<Rightarrow> nat \<Rightarrow> nat \<Rightarrow> 'a list \<Rightarrow> 'a list" where
  "mem_move dst src n buf = mem_write dst (take n (drop src buf)) buf"

subsection \<open>Comparison, search and hashing\<close>

definition CRYPTO_memcmp :: "byte list \<Rightarrow> byte list \<Rightarrow> nat \<Rightarrow> byte" where
  "CRYPTO_memcmp a b n = foldl (\<lambda>x i. x OR (a ! i XOR b ! i)) 0 [0..<n]"

definition OPENSSL_memchr :: "byte list \<Rightarrow> byte \<Rightarrow> nat \<Rightarrow> nat option" where
  "OPENSSL_memchr s c n = find (\<lambda>i. s ! i = c) [0..<n]"

definition OPENSSL_hash32 :: "byte list \<Rightarrow> nat \<Rightarrow> u32" where
  "OPENSSL_hash32 p n =
     foldl (\<lambda>h i. (h XOR ucast (p ! i)) * 16777619) 2166136261 [0..<n]"

definition strlen :: "byte list \<Rightarrow> nat" where
  "strlen s = length (takeWhile (\<lambda>c. c \<noteq> 0) s)"

definition OPENSSL_strhash :: "byte list \<Rightarrow> u32" where
  "OPENSSL_strhash s = OPENSSL_hash32 s (strlen s)"

subsection \<open>C strings\<close>

definition OPENSSL_strnlen :: "byte list \<Rightarrow> nat \<Rightarrow> nat" where
  "OPENSSL_strnlen s n = (case OPENSSL_memchr s 0 n of Some i \<Rightarrow> i | None \<Rightarrow> n)"

definition OPENSSL_strdup :: "allocator \<Rightarrow> byte list option \<Rightarrow> byte list option" where
  "OPENSSL_strdup m s =
     (case s of
        None \<Rightarrow> None
      | Some str \<Rightarrow>
          (let n = strlen str + 1
           in case OPENSSL_malloc m 0 n of
                None \<Rightarrow> None
              | Some ret \<Rightarrow> Some (take n str @ drop n ret)))"

definition OPENSSL_strndup :: "allocator \<Rightarrow> byte list \<Rightarrow> nat \<Rightarrow> byte list option" where
  "OPENSSL_strndup m str size0 =
     (let sz = OPENSSL_strnlen str size0; alloc_size = (sz + 1) mod size_mod
      in if alloc_size < sz then None
         else (case OPENSSL_malloc m 0 alloc_size of
                 None \<Rightarrow> None
               | Some ret \<Rightarrow> Some ((take sz str @ drop sz ret)[sz := 0])))"

text \<open>\<open>char\<close> is signed on the modelled ABI, so a character is read with \<open>sint\<close>.\<close>

definition OPENSSL_tolower :: "int \<Rightarrow> int" where
  "OPENSSL_tolower c = (if 65 \<le> c \<and> c \<le> 90 then c + (97 - 65) else c)"

text \<open>\<open>None\<close>: the loop would read past the end of a region that holds no terminator.\<close>

fun OPENSSL_strcasecmp :: "byte list \<Rightarrow> byte list \<Rightarrow> int option" where
  "OPENSSL_strcasecmp (a # as) (b # bs) =
     (let aa = OPENSSL_tolower (sint a); bb = OPENSSL_tolower (sint b)
      in if aa < bb then Some (- 1)
         else if bb < aa then Some 1
         else if aa = 0 then Some 0
         else OPENSSL_strcasecmp as bs)"
| "OPENSSL_strcasecmp _ _ = None"

fun OPENSSL_strncasecmp :: "byte list \<Rightarrow> byte list \<Rightarrow> nat \<Rightarrow> int option" where
  "OPENSSL_strncasecmp as bs 0 = Some 0"
| "OPENSSL_strncasecmp (a # as) (b # bs) (Suc n) =
     (let aa = OPENSSL_tolower (sint a); bb = OPENSSL_tolower (sint b)
      in if aa < bb then Some (- 1)
         else if bb < aa then Some 1
         else if aa = 0 then Some 0
         else OPENSSL_strncasecmp as bs n)"
| "OPENSSL_strncasecmp _ _ (Suc n) = None"

text \<open>The copy loop: destination region, write position, source, room left, bytes copied.\<close>

fun strlcpy_loop ::
    "byte list \<Rightarrow> nat \<Rightarrow> byte list \<Rightarrow> nat \<Rightarrow> nat \<Rightarrow> byte list \<times> nat \<times> byte list \<times> nat \<times> nat" where
  "strlcpy_loop dst i (c # src) dst_size l =
     (if dst_size > 1 \<and> c \<noteq> 0
      then strlcpy_loop (dst[i := c]) (Suc i) src (dst_size - 1) (Suc l)
      else (dst, i, c # src, dst_size, l))"
| "strlcpy_loop dst i [] dst_size l = (dst, i, [], dst_size, l)"

definition OPENSSL_strlcpy_at ::
    "byte list \<Rightarrow> nat \<Rightarrow> byte list \<Rightarrow> nat \<Rightarrow> byte list \<times> nat" where
  "OPENSSL_strlcpy_at dst pos src dst_size =
     (let (dst', i, src', sz', l) = strlcpy_loop dst pos src dst_size 0
      in (if sz' \<noteq> 0 then dst'[i := 0] else dst', l + strlen src'))"

definition OPENSSL_strlcpy :: "byte list \<Rightarrow> byte list \<Rightarrow> nat \<Rightarrow> byte list \<times> nat" where
  "OPENSSL_strlcpy dst src dst_size = OPENSSL_strlcpy_at dst 0 src dst_size"

fun strlcat_skip :: "byte list \<Rightarrow> nat \<Rightarrow> nat \<Rightarrow> nat \<times> nat" where
  "strlcat_skip (d # dst) dst_size l =
     (if dst_size > 0 \<and> d \<noteq> 0 then strlcat_skip dst (dst_size - 1) (Suc l) else (dst_size, l))"
| "strlcat_skip [] dst_size l = (dst_size, l)"

definition OPENSSL_strlcat :: "byte list \<Rightarrow> byte list \<Rightarrow> nat \<Rightarrow> byte list \<times> nat" where
  "OPENSSL_strlcat dst src dst_size =
     (let (sz', l) = strlcat_skip dst dst_size 0;
          (dst', n) = OPENSSL_strlcpy_at dst l src sz'
      in (dst', l + n))"

subsection \<open>Lemmas\<close>

lemma length_mem_write: "pos + length bs \<le> length buf \<Longrightarrow> length (mem_write pos bs buf) = length buf"
  by (simp add: mem_write_def)

lemma OPENSSL_malloc_length: "OPENSSL_malloc m k n = Some b \<Longrightarrow> length b = n"
  by (auto simp: OPENSSL_malloc_def split: if_splits option.splits)

lemma OPENSSL_realloc_length: "OPENSSL_realloc m k orig n = Some b \<Longrightarrow> length b = n"
  by (auto simp: OPENSSL_realloc_def Let_def split: if_splits option.splits
      dest: OPENSSL_malloc_length)

lemma malloc_generous: "\<forall>k n. m k n \<noteq> None \<Longrightarrow> n < 2 ^ 63 \<Longrightarrow> \<exists>b. OPENSSL_malloc m k n = Some b"
  by (auto simp: OPENSSL_malloc_def OPENSSL_MALLOC_PREFIX_def split: option.splits)

lemma realloc_generous: "\<forall>k n. m k n \<noteq> None \<Longrightarrow> n < 2 ^ 63 \<Longrightarrow> \<exists>b. OPENSSL_realloc m k p n = Some b"
proof -
  assume "\<forall>k n. m k n \<noteq> None" "n < 2 ^ 63"
  then obtain b where "OPENSSL_malloc m k n = Some b" using malloc_generous by blast
  then show ?thesis by (cases p) (simp_all add: OPENSSL_realloc_def Let_def)
qed

text \<open>An allocator that never fails.\<close>

definition zero_alloc :: allocator where
  "zero_alloc k n = Some (\<lambda>_. 0)"

lemma zero_alloc_ok: "\<forall>k n. zero_alloc k n \<noteq> None"
  by (simp add: zero_alloc_def)

lemma OPENSSL_realloc_prefix:
  "OPENSSL_realloc m k (Some old) n = Some b \<Longrightarrow> i \<le> length old \<Longrightarrow> i \<le> n \<Longrightarrow> take i b = take i old"
  by (auto simp: OPENSSL_realloc_def Let_def min_def split: if_splits option.splits)

lemma OPENSSL_memdup_Some:
  "OPENSSL_memdup m k p n = Some b \<Longrightarrow> n \<le> length p \<Longrightarrow> b = take n p"
  by (auto simp: OPENSSL_memdup_def split: if_splits option.splits dest: OPENSSL_malloc_length)

lemma or_xor_zero_iff: "(x :: byte) OR (a XOR b) = 0 \<longleftrightarrow> x = 0 \<and> a = b"
proof -
  have "x OR (a XOR b) = 0 \<longleftrightarrow> x = 0 \<and> a XOR b = 0" by (rule or_eq_0_iff)
  then show ?thesis by (simp add: xor_self_eq) (metis xor.assoc xor_self_eq xor.left_neutral xor.right_neutral)
qed

lemma memcmp_fold_zero:
  "foldl (\<lambda>x i. x OR (a ! i XOR b ! i)) x is = (0 :: byte) \<longleftrightarrow> x = 0 \<and> (\<forall>i \<in> set is. a ! i = b ! i)"
proof (induction "is" rule: rev_induct)
  case (snoc i "is")
  then show ?case by (auto simp: or_xor_zero_iff)
qed simp

lemma CRYPTO_memcmp_eq_0:
  assumes "n \<le> length a" "n \<le> length b"
  shows "CRYPTO_memcmp a b n = 0 \<longleftrightarrow> take n a = take n b"
proof -
  have "CRYPTO_memcmp a b n = 0 \<longleftrightarrow> (\<forall>i < n. a ! i = b ! i)"
    by (auto simp: CRYPTO_memcmp_def memcmp_fold_zero)
  also have "\<dots> \<longleftrightarrow> take n a = take n b"
    using assms by (auto simp: list_eq_iff_nth_eq)
  finally show ?thesis .
qed

lemma OPENSSL_memchr_None: "OPENSSL_memchr s c n = None \<longleftrightarrow> (\<forall>i < n. s ! i \<noteq> c)"
  by (auto simp: OPENSSL_memchr_def find_None_iff)

lemma OPENSSL_memchr_Some:
  "OPENSSL_memchr s c n = Some i \<longleftrightarrow> i < n \<and> s ! i = c \<and> (\<forall>j < i. s ! j \<noteq> c)"
  by (auto simp: OPENSSL_memchr_def find_Some_iff)

lemma OPENSSL_strnlen_le: "OPENSSL_strnlen s n \<le> n"
  by (auto simp: OPENSSL_strnlen_def OPENSSL_memchr_Some split: option.splits)

lemma OPENSSL_strnlen_takeWhile:
  assumes "n \<le> length s"
  shows "take (OPENSSL_strnlen s n) s = takeWhile (\<lambda>c. c \<noteq> 0) (take n s)"
proof (cases "OPENSSL_memchr s 0 n")
  case None
  then have "\<forall>c \<in> set (take n s). c \<noteq> 0"
    using assms by (auto simp: OPENSSL_memchr_None in_set_conv_nth)
  then show ?thesis using None by (simp add: OPENSSL_strnlen_def takeWhile_eq_all_conv [THEN iffD2])
next
  case (Some i)
  then have i: "i < n" "s ! i = 0" "\<forall>j < i. s ! j \<noteq> 0" by (auto simp: OPENSSL_memchr_Some)
  have "takeWhile (\<lambda>c. c \<noteq> 0) (take n s) = take i (take n s)"
    using i assms by (intro takeWhile_eq_take_P_nth) auto
  then show ?thesis using Some i by (simp add: OPENSSL_strnlen_def min_def)
qed

lemma strlen_terminated [simp]: "0 \<notin> set s \<Longrightarrow> strlen (s @ 0 # t) = length s"
  by (simp add: strlen_def takeWhile_append)

lemma strlcpy_loop_terminated:
  assumes "0 \<notin> set s" "i + sz \<le> length dst"
  shows "strlcpy_loop dst i (s @ 0 # t) sz l =
    (let k = min (length s) (sz - 1)
     in (take i dst @ take k s @ drop (i + k) dst, i + k, drop k s @ 0 # t, sz - k, l + k))"
  using assms
proof (induction s arbitrary: dst i sz l)
  case (Cons c s)
  show ?case
  proof (cases "sz > 1")
    case True
    with Cons.prems have "i < length dst" by simp
    then have "take (Suc i) (dst[i := c]) = take i dst @ [c]"
      by (simp add: take_Suc_conv_app_nth)
    moreover have "drop (Suc i + k) (dst[i := c]) = drop (Suc i + k) dst" for k by simp
    moreover have "min (length (c # s)) (sz - 1) = Suc (min (length s) (sz - 1 - 1))"
      using True by simp
    ultimately show ?thesis
      using Cons.IH [of "Suc i" "sz - 1" "dst[i := c]" "Suc l"] Cons.prems True
      by (simp add: Let_def)
  qed auto
qed simp

theorem OPENSSL_strlcpy_at_terminated:
  assumes "0 \<notin> set s" "pos + sz \<le> length dst"
  shows "OPENSSL_strlcpy_at dst pos (s @ 0 # t) sz =
    (let k = min (length s) (sz - 1)
     in (if sz = 0 then dst else take pos dst @ take k s @ [0] @ drop (pos + k + 1) dst, length s))"
proof -
  let ?k = "min (length s) (sz - 1)"
  have "strlen (drop ?k s @ 0 # t) = length s - ?k"
    using assms(1) by (subst strlen_terminated) (auto dest: in_set_dropD)
  moreover have "(take pos dst @ take ?k s @ drop (pos + ?k) dst)[pos + ?k := 0] =
      take pos dst @ take ?k s @ [0] @ drop (pos + ?k + 1) dst" if "sz \<noteq> 0"
  proof -
    have "pos + ?k < length dst" using that assms(2) by simp
    then have "drop (pos + ?k) dst = dst ! (pos + ?k) # drop (pos + ?k + 1) dst"
      by (simp add: Cons_nth_drop_Suc)
    then show ?thesis using that assms(2) by (simp add: list_update_append)
  qed
  ultimately show ?thesis
    using assms by (auto simp: OPENSSL_strlcpy_at_def strlcpy_loop_terminated Let_def)
qed

end
