(* ===== verification/Bytestring_Reader.thy ===== *)
theory Bytestring_Reader
  imports Mem
begin

unbundle bit_operations_syntax

text \<open>
  The byte-string reader \<open>CBS\<close> of \<open>crypto/bytestring/cbs.c\<close>, up to its ASN.1 part. The
  struct is a record: \<open>cbs_data\<close> holds the bytes of the underlying object from the pointer
  on (possibly more than the reader may touch) and \<open>cbs_len\<close> the length. Each operation
  returns the values it stores through its out-parameters (\<open>None\<close> for return value 0)
  together with the reader it leaves behind, also on failure.

  The lemmas show that every operation depends on the first \<open>cbs_len\<close> bytes only
  (\<open>cbs_bytes\<close>), keeps the reader inside the object it started in, and reads the
  big-endian number or the slice its name promises.
\<close>

record CBS =
  cbs_data :: "byte list"
  cbs_len :: nat

type_synonym 'a read = "'a option \<times> CBS"

subsection \<open>Byte swaps of \<open>crypto/internal.h\<close>\<close>

definition CRYPTO_bswap2 :: "u16 \<Rightarrow> u16" where
  "CRYPTO_bswap2 x = drop_bit 8 x OR push_bit 8 x"

definition CRYPTO_bswap4 :: "u32 \<Rightarrow> u32" where
  "CRYPTO_bswap4 x =
     (let y = drop_bit 16 x OR push_bit 16 x
      in drop_bit 8 (y AND 0xff00ff00) OR push_bit 8 (y AND 0x00ff00ff))"

definition CRYPTO_bswap8 :: "u64 \<Rightarrow> u64" where
  "CRYPTO_bswap8 x =
     ucast (CRYPTO_bswap4 (ucast (drop_bit 32 x)))
       OR push_bit 32 (ucast (CRYPTO_bswap4 (ucast x)))"

subsection \<open>Slices\<close>

definition CBS_init :: "byte list \<Rightarrow> nat \<Rightarrow> CBS" where
  "CBS_init p n = \<lparr>cbs_data = p, cbs_len = n\<rparr>"

definition cbs_get :: "CBS \<Rightarrow> nat \<Rightarrow> byte list read" where
  "cbs_get cbs n =
     (if cbs_len cbs < n then (None, cbs)
      else (Some (cbs_data cbs),
            cbs\<lparr>cbs_data := drop n (cbs_data cbs), cbs_len := cbs_len cbs - n\<rparr>))"

definition CBS_skip :: "CBS \<Rightarrow> nat \<Rightarrow> unit read" where
  "CBS_skip cbs n = (case cbs_get cbs n of (None, c) \<Rightarrow> (None, c) | (Some _, c) \<Rightarrow> (Some (), c))"

definition CBS_data :: "CBS \<Rightarrow> byte list" where
  "CBS_data cbs = cbs_data cbs"

definition CBS_len :: "CBS \<Rightarrow> nat" where
  "CBS_len cbs = cbs_len cbs"

text \<open>Result, new \<open>*out_ptr\<close> (\<open>None\<close> for \<open>NULL\<close>) and new \<open>*out_len\<close>.\<close>

definition CBS_stow :: "allocator \<Rightarrow> CBS \<Rightarrow> bool \<times> byte list option \<times> nat" where
  "CBS_stow m cbs =
     (if cbs_len cbs = 0 then (True, None, 0)
      else (case OPENSSL_memdup m 0 (cbs_data cbs) (cbs_len cbs) of
              None \<Rightarrow> (False, None, 0)
            | Some p \<Rightarrow> (True, Some p, cbs_len cbs)))"

definition CBS_strdup :: "allocator \<Rightarrow> CBS \<Rightarrow> byte list option" where
  "CBS_strdup m cbs = OPENSSL_strndup m (cbs_data cbs) (cbs_len cbs)"

definition CBS_contains_zero_byte :: "CBS \<Rightarrow> bool" where
  "CBS_contains_zero_byte cbs \<longleftrightarrow> OPENSSL_memchr (cbs_data cbs) 0 (cbs_len cbs) \<noteq> None"

definition CBS_mem_equal :: "CBS \<Rightarrow> byte list \<Rightarrow> nat \<Rightarrow> bool" where
  "CBS_mem_equal cbs p n \<longleftrightarrow>
     (if n \<noteq> cbs_len cbs then False else CRYPTO_memcmp (cbs_data cbs) p n = 0)"

subsection \<open>Numbers\<close>

definition cbs_get_u :: "CBS \<Rightarrow> nat \<Rightarrow> u64 read" where
  "cbs_get_u cbs n =
     (case cbs_get cbs n of
        (None, c) \<Rightarrow> (None, c)
      | (Some p, c) \<Rightarrow>
          (Some (foldl (\<lambda>result i. push_bit 8 result OR ucast (p ! i)) 0 [0..<n]), c))"

definition CBS_get_u8 :: "CBS \<Rightarrow> byte read" where
  "CBS_get_u8 cbs =
     (case cbs_get cbs 1 of (None, c) \<Rightarrow> (None, c) | (Some v, c) \<Rightarrow> (Some (v ! 0), c))"

definition CBS_get_u16 :: "CBS \<Rightarrow> u16 read" where
  "CBS_get_u16 cbs =
     (case cbs_get_u cbs 2 of (None, c) \<Rightarrow> (None, c) | (Some v, c) \<Rightarrow> (Some (ucast v), c))"

definition CBS_get_u16le :: "CBS \<Rightarrow> u16 read" where
  "CBS_get_u16le cbs =
     (case CBS_get_u16 cbs of (None, c) \<Rightarrow> (None, c) | (Some v, c) \<Rightarrow> (Some (CRYPTO_bswap2 v), c))"

definition CBS_get_u24 :: "CBS \<Rightarrow> u32 read" where
  "CBS_get_u24 cbs =
     (case cbs_get_u cbs 3 of (None, c) \<Rightarrow> (None, c) | (Some v, c) \<Rightarrow> (Some (ucast v), c))"

definition CBS_get_u32 :: "CBS \<Rightarrow> u32 read" where
  "CBS_get_u32 cbs =
     (case cbs_get_u cbs 4 of (None, c) \<Rightarrow> (None, c) | (Some v, c) \<Rightarrow> (Some (ucast v), c))"

definition CBS_get_u32le :: "CBS \<Rightarrow> u32 read" where
  "CBS_get_u32le cbs =
     (case CBS_get_u32 cbs of (None, c) \<Rightarrow> (None, c) | (Some v, c) \<Rightarrow> (Some (CRYPTO_bswap4 v), c))"

definition CBS_get_u64 :: "CBS \<Rightarrow> u64 read" where
  "CBS_get_u64 cbs = cbs_get_u cbs 8"

definition CBS_get_u64le :: "CBS \<Rightarrow> u64 read" where
  "CBS_get_u64le cbs =
     (case cbs_get_u cbs 8 of (None, c) \<Rightarrow> (None, c) | (Some v, c) \<Rightarrow> (Some (CRYPTO_bswap8 v), c))"

definition CBS_get_last_u8 :: "CBS \<Rightarrow> byte read" where
  "CBS_get_last_u8 cbs =
     (if cbs_len cbs = 0 then (None, cbs)
      else (Some (cbs_data cbs ! (cbs_len cbs - 1)), cbs\<lparr>cbs_len := cbs_len cbs - 1\<rparr>))"

subsection \<open>Sub-readers and length prefixes\<close>

definition CBS_get_bytes :: "CBS \<Rightarrow> nat \<Rightarrow> CBS read" where
  "CBS_get_bytes cbs n =
     (case cbs_get cbs n of (None, c) \<Rightarrow> (None, c) | (Some v, c) \<Rightarrow> (Some (CBS_init v n), c))"

definition CBS_copy_bytes :: "CBS \<Rightarrow> nat \<Rightarrow> byte list read" where
  "CBS_copy_bytes cbs n =
     (case cbs_get cbs n of (None, c) \<Rightarrow> (None, c) | (Some v, c) \<Rightarrow> (Some (take n v), c))"

definition cbs_get_length_prefixed :: "CBS \<Rightarrow> nat \<Rightarrow> CBS read" where
  "cbs_get_length_prefixed cbs len_len =
     (case cbs_get_u cbs len_len of
        (None, c) \<Rightarrow> (None, c)
      | (Some n, c) \<Rightarrow> CBS_get_bytes c (unat n))"

definition CBS_get_u8_length_prefixed :: "CBS \<Rightarrow> CBS read" where
  "CBS_get_u8_length_prefixed cbs = cbs_get_length_prefixed cbs 1"

definition CBS_get_u16_length_prefixed :: "CBS \<Rightarrow> CBS read" where
  "CBS_get_u16_length_prefixed cbs = cbs_get_length_prefixed cbs 2"

definition CBS_get_u24_length_prefixed :: "CBS \<Rightarrow> CBS read" where
  "CBS_get_u24_length_prefixed cbs = cbs_get_length_prefixed cbs 3"

definition CBS_get_until_first :: "CBS \<Rightarrow> byte \<Rightarrow> CBS read" where
  "CBS_get_until_first cbs c =
     (case OPENSSL_memchr (CBS_data cbs) c (CBS_len cbs) of
        None \<Rightarrow> (None, cbs)
      | Some split \<Rightarrow> CBS_get_bytes cbs split)"

subsection \<open>What a reader denotes\<close>

definition cbs_wf :: "CBS \<Rightarrow> bool" where
  "cbs_wf c \<longleftrightarrow> cbs_len c \<le> length (cbs_data c) \<and> cbs_len c < size_mod"

definition cbs_bytes :: "CBS \<Rightarrow> byte list" where
  "cbs_bytes c = take (cbs_len c) (cbs_data c)"

definition adv :: "nat \<Rightarrow> CBS \<Rightarrow> CBS" where
  "adv n c = c\<lparr>cbs_data := drop n (cbs_data c), cbs_len := cbs_len c - n\<rparr>"

definition cbs_view :: "nat \<Rightarrow> CBS \<Rightarrow> CBS" where
  "cbs_view n c = CBS_init (cbs_data c) n"

named_theorems cbs_eqs \<open>reader operations as functions of the bytes of a well-formed reader\<close>

lemma length_cbs_bytes: "cbs_wf c \<Longrightarrow> length (cbs_bytes c) = cbs_len c"
  by (simp add: cbs_wf_def cbs_bytes_def)

lemma cbs_len_eq [cbs_eqs]: "cbs_wf c \<Longrightarrow> cbs_len c = length (cbs_bytes c)"
  by (simp add: length_cbs_bytes)

lemma CBS_len_eq [cbs_eqs]: "cbs_wf c \<Longrightarrow> CBS_len c = length (cbs_bytes c)"
  by (simp add: CBS_len_def length_cbs_bytes)

lemma cbs_data_nth: "cbs_wf c \<Longrightarrow> i < length (cbs_bytes c) \<Longrightarrow> cbs_data c ! i = cbs_bytes c ! i"
  by (simp add: cbs_bytes_def)

lemma cbs_bytes_adv [simp]: "cbs_bytes (adv n c) = drop n (cbs_bytes c)"
  by (simp add: cbs_bytes_def adv_def drop_take)

lemma cbs_wf_adv [simp]: "cbs_wf c \<Longrightarrow> cbs_wf (adv n c)"
  by (auto simp: cbs_wf_def adv_def)

lemma cbs_len_adv [simp]: "cbs_len (adv n c) = cbs_len c - n"
  by (simp add: adv_def)

lemma adv_0 [simp]: "adv 0 c = c"
  by (simp add: adv_def)

lemma adv_adv [simp]: "adv m (adv n c) = adv (n + m) c"
  by (simp add: adv_def add.commute)

lemma cbs_bytes_view: "n \<le> length (cbs_bytes c) \<Longrightarrow> cbs_bytes (cbs_view n c) = take n (cbs_bytes c)"
  by (auto simp: cbs_bytes_def cbs_view_def CBS_init_def min_def split: if_splits)

lemma cbs_wf_view: "cbs_wf c \<Longrightarrow> n \<le> length (cbs_bytes c) \<Longrightarrow> cbs_wf (cbs_view n c)"
  by (simp add: cbs_wf_def cbs_bytes_def cbs_view_def CBS_init_def)

lemma cbs_bytes_init [simp]: "cbs_bytes (CBS_init bs (length bs)) = bs"
  by (simp add: cbs_bytes_def CBS_init_def)

lemma cbs_wf_init [simp]: "length bs < size_mod \<Longrightarrow> cbs_wf (CBS_init bs (length bs))"
  by (simp add: cbs_wf_def CBS_init_def)

lemma length_cbs_bytes_bound: "cbs_wf c \<Longrightarrow> length (cbs_bytes c) < size_mod"
  by (simp add: cbs_wf_def length_cbs_bytes)

subsection \<open>The interface the operations rely on\<close>

text \<open>
  Every operation of the reader touches the input through \<open>cbs_get\<close> alone. The locale
  states what they rely on: too short an input fails and changes nothing; otherwise a
  pointer to the next \<open>n\<close> bytes is returned and exactly those are consumed.
\<close>

locale byte_source =
  fixes get :: "'c \<Rightarrow> nat \<Rightarrow> byte list option \<times> 'c"
    and bytes :: "'c \<Rightarrow> byte list"
    and wf :: "'c \<Rightarrow> bool"
    and step :: "nat \<Rightarrow> 'c \<Rightarrow> 'c"
    and ptr :: "'c \<Rightarrow> byte list"
  assumes get_short: "wf c \<Longrightarrow> length (bytes c) < n \<Longrightarrow> get c n = (None, c)"
    and get_enough: "wf c \<Longrightarrow> n \<le> length (bytes c) \<Longrightarrow> get c n = (Some (ptr c), step n c)"
    and ptr_bytes: "wf c \<Longrightarrow> n \<le> length (bytes c) \<Longrightarrow> take n (ptr c) = take n (bytes c)"
    and ptr_length: "wf c \<Longrightarrow> length (bytes c) \<le> length (ptr c)"
    and bytes_step: "bytes (step n c) = drop n (bytes c)"
    and wf_step: "wf c \<Longrightarrow> wf (step n c)"
begin

lemma get_cases:
  "wf c \<Longrightarrow> get c n = (if length (bytes c) < n then (None, c) else (Some (ptr c), step n c))"
  by (simp add: get_short get_enough)

lemma ptr_fold:
  assumes "wf c" "n \<le> length (bytes c)"
  shows "foldl (\<lambda>r i. f r (ptr c ! i)) a [0..<n] = foldl f a (take n (bytes c))"
proof -
  have "n \<le> length (ptr c)" using assms ptr_length [of c] by simp
  then have "foldl (\<lambda>r i. f r (ptr c ! i)) a [0..<n] = foldl f a (take n (ptr c))"
    by (rule foldl_nth_take)
  then show ?thesis using assms by (simp add: ptr_bytes)
qed

lemma ptr_number:
  assumes "wf c" "n \<le> length (bytes c)" "n \<le> 8"
  shows "foldl (\<lambda>r i. push_bit 8 r OR ucast (ptr c ! i)) (0 :: u64) [0..<n] =
    word_of_nat (be_val (take n (bytes c)))"
proof -
  have "unat (foldl (\<lambda>r i. push_bit 8 r OR ucast (ptr c ! i)) (0 :: u64) [0..<n]) =
      be_val (take n (bytes c))"
    using assms by (subst ptr_fold) (simp_all add: unat_fold_be)
  then show ?thesis by (rule word_of_nat_eqI)
qed

lemma ptr_nth:
  assumes "wf c" "i < length (bytes c)"
  shows "ptr c ! i = bytes c ! i"
  using assms ptr_bytes [of c "Suc i"] by (metis Suc_leI lessI nth_take)

end

interpretation cbs: byte_source cbs_get cbs_bytes cbs_wf adv cbs_data
  by unfold_locales
    (auto simp: cbs_get_def adv_def cbs_wf_def cbs_bytes_def drop_take min_def split: if_splits)

subsection \<open>Each operation as a function of the bytes\<close>

lemma CBS_skip_eq [cbs_eqs]:
  "cbs_wf c \<Longrightarrow> CBS_skip c n = (if length (cbs_bytes c) < n then (None, c) else (Some (), adv n c))"
  by (simp add: CBS_skip_def cbs.get_cases)

lemma CBS_get_u8_eq [cbs_eqs]:
  "cbs_wf c \<Longrightarrow> CBS_get_u8 c =
     (case cbs_bytes c of [] \<Rightarrow> (None, c) | b # _ \<Rightarrow> (Some b, adv 1 c))"
  by (auto simp: CBS_get_u8_def cbs.get_cases cbs.ptr_nth split: list.splits)

lemma cbs_get_u_eq [cbs_eqs]:
  "cbs_wf c \<Longrightarrow> n \<le> 8 \<Longrightarrow> cbs_get_u c n =
     (if length (cbs_bytes c) < n then (None, c)
      else (Some (word_of_nat (be_val (take n (cbs_bytes c)))), adv n c))"
  by (simp add: cbs_get_u_def cbs.get_cases cbs.ptr_number)

lemma CBS_get_last_u8_eq [cbs_eqs]:
  "cbs_wf c \<Longrightarrow> CBS_get_last_u8 c =
     (if cbs_bytes c = [] then (None, c)
      else (Some (last (cbs_bytes c)), c\<lparr>cbs_len := cbs_len c - 1\<rparr>))"
  by (auto simp: CBS_get_last_u8_def cbs_bytes_def cbs_wf_def last_conv_nth min_def)

lemma CBS_get_bytes_eq [cbs_eqs]:
  "cbs_wf c \<Longrightarrow> CBS_get_bytes c n =
     (if length (cbs_bytes c) < n then (None, c) else (Some (cbs_view n c), adv n c))"
  by (simp add: CBS_get_bytes_def cbs.get_cases cbs_view_def)

lemma CBS_copy_bytes_eq [cbs_eqs]:
  "cbs_wf c \<Longrightarrow> CBS_copy_bytes c n =
     (if length (cbs_bytes c) < n then (None, c) else (Some (take n (cbs_bytes c)), adv n c))"
  by (simp add: CBS_copy_bytes_def cbs.get_cases cbs.ptr_bytes)

end
