(* ===== verification/Asn1_Reader.thy ===== *)
theory Asn1_Reader
  imports Bytestring_Reader
begin

unbundle bit_operations_syntax

text \<open>
  The ASN.1 half of the reader, \<open>crypto/bytestring/cbs.c\<close> from \<open>parse_base128_integer\<close>
  on: identifier octets in low and high tag number form, short, long and (BER only)
  indefinite lengths, whole elements, INTEGER, BOOLEAN, BIT STRING contents and the
  optional explicitly tagged fields.

  \<open>tag_bytes\<close>, \<open>len_bytes\<close> and \<open>der\<close> write the distinguished encoding down once; the lemmas
  show that in DER mode the parser accepts exactly those encodings and returns their
  parts.
\<close>

abbreviation CBS_ASN1_CONSTRUCTED :: u32 where "CBS_ASN1_CONSTRUCTED \<equiv> 0x20000000"
abbreviation CBS_ASN1_TAG_NUMBER_MASK :: u32 where "CBS_ASN1_TAG_NUMBER_MASK \<equiv> 0x1fffffff"
abbreviation CBS_ASN1_BOOLEAN :: u32 where "CBS_ASN1_BOOLEAN \<equiv> 1"
abbreviation CBS_ASN1_INTEGER :: u32 where "CBS_ASN1_INTEGER \<equiv> 2"
abbreviation CBS_ASN1_OCTETSTRING :: u32 where "CBS_ASN1_OCTETSTRING \<equiv> 4"

subsection \<open>Base-128 integers and identifier octets\<close>

lemma CBS_get_u8_len_decreases: "CBS_get_u8 c = (Some b, c') \<Longrightarrow> cbs_len c' < cbs_len c"
  by (auto simp: CBS_get_u8_def cbs_get_def split: if_splits)

function parse_base128_loop :: "CBS \<Rightarrow> u64 \<Rightarrow> u64 read" where
  "parse_base128_loop cbs v =
     (case CBS_get_u8 cbs of
        (None, c) \<Rightarrow> (None, c)
      | (Some b, c) \<Rightarrow>
          if drop_bit (64 - 7) v \<noteq> 0 then (None, c)
          else if v = 0 \<and> b = 0x80 then (None, c)
          else (let v' = push_bit 7 v OR ucast (b AND 0x7f)
                in if b AND 0x80 \<noteq> 0 then parse_base128_loop c v' else (Some v', c)))"
  by pat_completeness auto
termination
  by (relation "measure (\<lambda>(c, v). cbs_len c)") (auto dest: CBS_get_u8_len_decreases [OF sym])

declare parse_base128_loop.simps [simp del]

definition parse_base128_integer :: "CBS \<Rightarrow> u64 read" where
  "parse_base128_integer cbs = parse_base128_loop cbs 0"

definition parse_asn1_tag :: "CBS \<Rightarrow> u32 read" where
  "parse_asn1_tag cbs =
     (case CBS_get_u8 cbs of
        (None, c) \<Rightarrow> (None, c)
      | (Some tag_byte, c) \<Rightarrow>
          (let tag = push_bit 24 (ucast tag_byte AND 0xe0) :: u32;
               tag_number = ucast (tag_byte AND 0x1f) :: u32
           in if tag_number = 0x1f
              then (case parse_base128_integer c of
                      (None, c') \<Rightarrow> (None, c')
                    | (Some v, c') \<Rightarrow>
                        if v > ucast CBS_ASN1_TAG_NUMBER_MASK \<or> v < 0x1f then (None, c')
                        else (Some (tag OR ucast v), c'))
              else (Some (tag OR tag_number), c)))"

subsection \<open>Elements\<close>

text \<open>
  The out-parameters in order: the element, its tag, the length of its header and, in BER
  mode, whether a deviation from DER was seen. The header is parsed from a copy, so a
  failure leaves the reader where it was.
\<close>

definition cbs_get_any_asn1_element :: "CBS \<Rightarrow> bool \<Rightarrow> (CBS \<times> u32 \<times> nat \<times> bool) read" where
  "cbs_get_any_asn1_element cbs ber_ok =
     (case parse_asn1_tag cbs of
        (None, _) \<Rightarrow> (None, cbs)
      | (Some tag, header) \<Rightarrow>
     (case CBS_get_u8 header of
        (None, _) \<Rightarrow> (None, cbs)
      | (Some length_byte, header) \<Rightarrow>
     (let header_len = CBS_len cbs - CBS_len header;
          get = (\<lambda>n hl ber. case CBS_get_bytes cbs n of
                   (None, c) \<Rightarrow> (None, c) | (Some out, c) \<Rightarrow> (Some (out, tag, hl, ber), c))
      in
      if length_byte AND 0x80 = 0 then get (unat length_byte + header_len) header_len False
      else
        (let num_bytes = unat (length_byte AND 0x7f)
         in
         if ber_ok \<and> tag AND CBS_ASN1_CONSTRUCTED \<noteq> 0 \<and> num_bytes = 0
         then get header_len header_len True
         else if num_bytes = 0 \<or> num_bytes > 4 then (None, cbs)
         else
           (case cbs_get_u header num_bytes of
              (None, _) \<Rightarrow> (None, cbs)
            | (Some len64, _) \<Rightarrow>
           (let short = len64 < 128;
                padded = drop_bit ((num_bytes - 1) * 8) len64 = 0
            in
            if (short \<or> padded) \<and> \<not> ber_ok then (None, cbs)
            else if (unat len64 + header_len + num_bytes) mod size_mod < unat len64 then (None, cbs)
            else get ((unat len64 + header_len + num_bytes) mod size_mod)
                   (header_len + num_bytes) (short \<or> padded)))))))"

definition CBS_get_any_asn1_element :: "CBS \<Rightarrow> (CBS \<times> u32 \<times> nat) read" where
  "CBS_get_any_asn1_element cbs =
     (case cbs_get_any_asn1_element cbs False of
        (None, c) \<Rightarrow> (None, c)
      | (Some (out, tag, hl, _), c) \<Rightarrow> (Some (out, tag, hl), c))"

definition CBS_get_any_ber_asn1_element :: "CBS \<Rightarrow> (CBS \<times> u32 \<times> nat \<times> bool) read" where
  "CBS_get_any_ber_asn1_element cbs = cbs_get_any_asn1_element cbs True"

definition CBS_get_any_asn1 :: "CBS \<Rightarrow> (CBS \<times> u32) read" where
  "CBS_get_any_asn1 cbs =
     (case CBS_get_any_asn1_element cbs of
        (None, c) \<Rightarrow> (None, c)
      | (Some (out, tag, header_len), c) \<Rightarrow>
          (case CBS_skip out header_len of
             (None, _) \<Rightarrow> (None, c)
           | (Some _, out') \<Rightarrow> (Some (out', tag), c)))"

definition cbs_get_asn1 :: "CBS \<Rightarrow> u32 \<Rightarrow> bool \<Rightarrow> CBS read" where
  "cbs_get_asn1 cbs tag_value skip_header =
     (case CBS_get_any_asn1_element cbs of
        (None, c) \<Rightarrow> (None, c)
      | (Some (out, tag, header_len), c) \<Rightarrow>
          if tag \<noteq> tag_value then (None, c)
          else if skip_header
          then (case CBS_skip out header_len of
                  (None, _) \<Rightarrow> (None, c)
                | (Some _, out') \<Rightarrow> (Some out', c))
          else (Some out, c))"

definition CBS_get_asn1 :: "CBS \<Rightarrow> u32 \<Rightarrow> CBS read" where
  "CBS_get_asn1 cbs tag_value = cbs_get_asn1 cbs tag_value True"

definition CBS_get_asn1_element :: "CBS \<Rightarrow> u32 \<Rightarrow> CBS read" where
  "CBS_get_asn1_element cbs tag_value = cbs_get_asn1 cbs tag_value False"

definition CBS_peek_asn1_tag :: "CBS \<Rightarrow> u32 \<Rightarrow> bool" where
  "CBS_peek_asn1_tag cbs tag_value \<longleftrightarrow>
     (if CBS_len cbs < 1 then False
      else (case fst (parse_asn1_tag cbs) of
              None \<Rightarrow> False
            | Some actual_tag \<Rightarrow> tag_value = actual_tag))"

subsection \<open>INTEGER, BOOLEAN and BIT STRING contents\<close>

text \<open>\<open>None\<close>: not a valid INTEGER; \<open>Some n\<close>: valid, negative iff \<open>n\<close>.\<close>

definition CBS_is_valid_asn1_integer :: "CBS \<Rightarrow> bool option" where
  "CBS_is_valid_asn1_integer cbs =
     (case CBS_get_u8 cbs of
        (None, _) \<Rightarrow> None
      | (Some first_byte, copy) \<Rightarrow>
          (let is_negative = (first_byte AND 0x80 \<noteq> 0)
           in case CBS_get_u8 copy of
                (None, _) \<Rightarrow> Some is_negative
              | (Some second_byte, _) \<Rightarrow>
                  if first_byte = 0x00 \<and> second_byte AND 0x80 = 0 \<or>
                     first_byte = 0xff \<and> second_byte AND 0x80 \<noteq> 0
                  then None else Some is_negative))"

definition CBS_is_unsigned_asn1_integer :: "CBS \<Rightarrow> bool" where
  "CBS_is_unsigned_asn1_integer cbs \<longleftrightarrow> CBS_is_valid_asn1_integer cbs = Some False"

text \<open>The accumulation loop of \<open>CBS_get_asn1_uint64\<close>: position, length, \<open>*out\<close>.\<close>

fun asn1_uint64_loop :: "byte list \<Rightarrow> nat list \<Rightarrow> u64 \<Rightarrow> u64 option" where
  "asn1_uint64_loop p [] out = Some out"
| "asn1_uint64_loop p (i # is) out =
     (if drop_bit 56 out \<noteq> 0 then None
      else asn1_uint64_loop p is (push_bit 8 out OR ucast (p ! i)))"

definition CBS_get_asn1_uint64 :: "CBS \<Rightarrow> u64 read" where
  "CBS_get_asn1_uint64 cbs =
     (case CBS_get_asn1 cbs CBS_ASN1_INTEGER of
        (None, c) \<Rightarrow> (None, c)
      | (Some bytes, c) \<Rightarrow>
          if \<not> CBS_is_unsigned_asn1_integer bytes then (None, c)
          else (asn1_uint64_loop (CBS_data bytes) [0..<CBS_len bytes] 0, c))"

text \<open>The union of \<open>CBS_get_asn1_int64\<close>, read as a little-endian \<open>int64_t\<close>.\<close>

definition le_word64 :: "byte list \<Rightarrow> u64" where
  "le_word64 bs = word_of_nat (be_val (rev bs))"

definition CBS_get_asn1_int64 :: "CBS \<Rightarrow> u64 read" where
  "CBS_get_asn1_int64 cbs =
     (case CBS_get_asn1 cbs CBS_ASN1_INTEGER of
        (None, c) \<Rightarrow> (None, c)
      | (Some bytes, c) \<Rightarrow>
          (case CBS_is_valid_asn1_integer bytes of
             None \<Rightarrow> (None, c)
           | Some is_negative \<Rightarrow>
               (let p = CBS_data bytes; n = CBS_len bytes
                in if n > 8 then (None, c)
                   else (Some (le_word64
                           (foldl (\<lambda>u i. u[i := p ! (n - i - 1)])
                              (replicate 8 (if is_negative then 0xff else 0)) [0..<n])), c))))"

definition CBS_get_asn1_bool :: "CBS \<Rightarrow> bool read" where
  "CBS_get_asn1_bool cbs =
     (case CBS_get_asn1 cbs CBS_ASN1_BOOLEAN of
        (None, c) \<Rightarrow> (None, c)
      | (Some bytes, c) \<Rightarrow>
          if CBS_len bytes \<noteq> 1 then (None, c)
          else (let v = CBS_data bytes ! 0
                in if v \<noteq> 0 \<and> v \<noteq> 0xff then (None, c) else (Some (v \<noteq> 0), c)))"

definition CBS_is_valid_asn1_bitstring :: "CBS \<Rightarrow> bool" where
  "CBS_is_valid_asn1_bitstring cbs \<longleftrightarrow>
     (case CBS_get_u8 cbs of
        (None, _) \<Rightarrow> False
      | (Some num_unused_bits, inp) \<Rightarrow>
          if num_unused_bits > 7 then False
          else if num_unused_bits = 0 then True
          else (case CBS_get_last_u8 inp of
                  (None, _) \<Rightarrow> False
                | (Some l, _) \<Rightarrow> l AND (push_bit (unat num_unused_bits) 1 - 1) = 0))"

definition CBS_asn1_bitstring_has_bit :: "CBS \<Rightarrow> u32 \<Rightarrow> bool" where
  "CBS_asn1_bitstring_has_bit cbs bitno \<longleftrightarrow>
     (if \<not> CBS_is_valid_asn1_bitstring cbs then False
      else (let byte_num = unat (drop_bit 3 bitno) + 1; bit_num = 7 - unat (bitno AND 7)
            in byte_num < CBS_len cbs \<and>
               CBS_data cbs ! byte_num AND push_bit bit_num 1 \<noteq> 0))"

subsection \<open>Optional explicitly tagged fields\<close>

text \<open>\<open>Some None\<close>: success, not present.\<close>

definition CBS_get_optional_asn1 :: "CBS \<Rightarrow> u32 \<Rightarrow> CBS option read" where
  "CBS_get_optional_asn1 cbs tag =
     (if CBS_peek_asn1_tag cbs tag
      then (case CBS_get_asn1 cbs tag of
              (None, c) \<Rightarrow> (None, c)
            | (Some out, c) \<Rightarrow> (Some (Some out), c))
      else (Some None, cbs))"

definition CBS_get_optional_asn1_octet_string :: "CBS \<Rightarrow> u32 \<Rightarrow> (CBS \<times> bool) read" where
  "CBS_get_optional_asn1_octet_string cbs tag =
     (case CBS_get_optional_asn1 cbs tag of
        (None, c) \<Rightarrow> (None, c)
      | (Some None, c) \<Rightarrow> (Some (CBS_init [] 0, False), c)
      | (Some (Some child), c) \<Rightarrow>
          (case CBS_get_asn1 child CBS_ASN1_OCTETSTRING of
             (None, _) \<Rightarrow> (None, c)
           | (Some out, child') \<Rightarrow>
               if CBS_len child' \<noteq> 0 then (None, c) else (Some (out, True), c)))"

definition CBS_get_optional_asn1_uint64 :: "CBS \<Rightarrow> u32 \<Rightarrow> u64 \<Rightarrow> u64 read" where
  "CBS_get_optional_asn1_uint64 cbs tag default_value =
     (case CBS_get_optional_asn1 cbs tag of
        (None, c) \<Rightarrow> (None, c)
      | (Some None, c) \<Rightarrow> (Some default_value, c)
      | (Some (Some child), c) \<Rightarrow>
          (case CBS_get_asn1_uint64 child of
             (None, _) \<Rightarrow> (None, c)
           | (Some out, child') \<Rightarrow>
               if CBS_len child' \<noteq> 0 then (None, c) else (Some out, c)))"

definition CBS_get_optional_asn1_bool :: "CBS \<Rightarrow> u32 \<Rightarrow> int \<Rightarrow> int read" where
  "CBS_get_optional_asn1_bool cbs tag default_value =
     (case CBS_get_optional_asn1 cbs tag of
        (None, c) \<Rightarrow> (None, c)
      | (Some None, c) \<Rightarrow> (Some default_value, c)
      | (Some (Some child), c) \<Rightarrow>
          (case CBS_get_asn1 child CBS_ASN1_BOOLEAN of
             (None, _) \<Rightarrow> (None, c)
           | (Some child2, child') \<Rightarrow>
               if CBS_len child2 \<noteq> 1 \<or> CBS_len child' \<noteq> 0 then (None, c)
               else (let boolean = CBS_data child2 ! 0
                     in if boolean = 0 then (Some 0, c)
                        else if boolean = 0xff then (Some 1, c)
                        else (None, c))))"

subsection \<open>The encodings\<close>

fun base128_hi :: "nat \<Rightarrow> byte list" where
  "base128_hi v = (if v = 0 then [] else base128_hi (v div 128) @ [word_of_nat (128 + v mod 128)])"

declare base128_hi.simps [simp del]

definition base128 :: "nat \<Rightarrow> byte list" where
  "base128 v = base128_hi (v div 128) @ [word_of_nat (v mod 128)]"

definition tag_bytes :: "nat \<Rightarrow> byte list" where
  "tag_bytes t =
     (let cls = t div 2 ^ 29; number = t mod 2 ^ 29
      in if number < 31 then [word_of_nat (cls * 32 + number)]
         else word_of_nat (cls * 32 + 31) # base128 number)"

fun nbytes :: "nat \<Rightarrow> nat" where
  "nbytes n = (if n = 0 then 0 else Suc (nbytes (n div 256)))"

declare nbytes.simps [simp del]

definition len_bytes :: "nat \<Rightarrow> byte list" where
  "len_bytes n =
     (if n < 128 then [word_of_nat n] else word_of_nat (128 + nbytes n) # be_bytes (nbytes n) n)"

definition der_header :: "nat \<Rightarrow> nat \<Rightarrow> byte list" where
  "der_header t n = tag_bytes t @ len_bytes n"

definition der :: "nat \<Rightarrow> byte list \<Rightarrow> byte list" where
  "der t body = der_header t (length body) @ body"

subsection \<open>Base-128 integers: the parser inverts the encoding\<close>

lemma base128_hi_0 [simp]: "base128_hi 0 = []"
  by (simp add: base128_hi.simps)

lemma base128_hi_step: "0 < v * 128 + d \<Longrightarrow> d < 128 \<Longrightarrow>
    base128_hi (v * 128 + d) = base128_hi v @ [word_of_nat (128 + d)]"
  by (subst base128_hi.simps) simp

lemma base128_step: "d < 128 \<Longrightarrow> base128 (v * 128 + d) = base128_hi v @ [word_of_nat d]"
  by (simp add: base128_def)

abbreviation b128_acc :: "u64 \<Rightarrow> byte \<Rightarrow> u64" where
  "b128_acc v b \<equiv> push_bit 7 v OR ucast (b AND 0x7f)"

lemma byte_excess: "\<not> unat (b :: byte) < 128 \<Longrightarrow> unat b mod 128 = unat b - 128"
proof -
  assume "\<not> unat b < 128"
  moreover have "unat b - 128 < 128" using byte_bound [of b] by linarith
  ultimately show ?thesis by (simp add: le_mod_geq)
qed

lemma unat_b128_acc:
  assumes "unat v < 2 ^ 57"
  shows "unat (b128_acc v b) = unat v * 128 + (if unat b < 128 then unat b else unat b - 128)"
proof -
  have "unat b mod 128 = (if unat b < 128 then unat b else unat b - 128)"
    using byte_bound [of b] by (cases "unat b < 128") (simp, metis byte_excess)
  then show ?thesis using assms by (simp add: unat_shl7_or)
qed

lemma parse_base128_step:
  assumes "cbs_wf c" "cbs_bytes c = b # bs"
  shows "parse_base128_loop c v =
    (if \<not> unat v < 2 ^ 57 \<or> v = 0 \<and> b = 0x80 then (None, adv 1 c)
     else if unat b < 128 then (Some (b128_acc v b), adv 1 c)
     else parse_base128_loop (adv 1 c) (b128_acc v b))"
  using assms drop_bit_eq_0_iff [of 57 v] byte_and_80 [of b]
  by (subst parse_base128_loop.simps) (auto simp: CBS_get_u8_eq Let_def)

lemma base128_hi_acc:
  assumes "unat v < 2 ^ 57" "\<not> (v = 0 \<and> b = 0x80)" "\<not> unat b < 128"
  shows "base128_hi (unat (b128_acc v b)) = base128_hi (unat v) @ [b]"
proof -
  have "unat v * 128 + (unat b - 128) > 0"
  proof (rule ccontr)
    assume "\<not> ?thesis"
    then have "unat v = 0" "unat b = 128" using assms(3) by auto
    then have "v = 0" "b = 0x80" by (auto intro: word_eqI_unat)
    with assms(2) show False by simp
  qed
  moreover have "unat b - 128 < 128" using byte_bound [of b] by linarith
  ultimately have "base128_hi (unat v * 128 + (unat b - 128)) = base128_hi (unat v) @ [word_of_nat (128 + (unat b - 128))]"
    by (rule base128_hi_step)
  then show ?thesis using assms(3) unat_b128_acc [OF assms(1), of b] by simp
qed

lemma base128_acc:
  assumes "unat v < 2 ^ 57" "unat b < 128"
  shows "base128 (unat (b128_acc v b)) = base128_hi (unat v) @ [b]"
  using assms base128_step [of "unat b" "unat v"] by (simp add: unat_b128_acc)

lemma parse_base128_sound:
  assumes "parse_base128_loop c v = (Some w, c')" "cbs_wf c"
  shows "base128_hi (unat v) @ cbs_bytes c = base128 (unat w) @ cbs_bytes c' \<and>
    (\<exists>n \<le> length (cbs_bytes c). c' = adv n c)"
  using assms
proof (induction "length (cbs_bytes c)" arbitrary: c v)
  case 0
  then have "fst (parse_base128_loop c v) = None"
    by (subst parse_base128_loop.simps) (simp add: CBS_get_u8_eq)
  then show ?case using "0.prems" by simp
next
  case (Suc n)
  then obtain b bs where Cons: "cbs_bytes c = b # bs" by (cases "cbs_bytes c") auto
  note step = parse_base128_step [OF Suc.prems(2) Cons, of v]
  have v: "unat v < 2 ^ 57" and nz: "\<not> (v = 0 \<and> b = 0x80)"
    using Suc.prems(1) unfolding step by (auto split: if_splits)
  show ?case
  proof (cases "unat b < 128")
    case True
    then have "w = b128_acc v b" "c' = adv 1 c"
      using Suc.prems(1) v nz unfolding step by (auto split: if_splits)
    then show ?thesis using Cons base128_acc [OF v True] by (auto intro: exI [of _ 1])
  next
    case False
    then have "parse_base128_loop (adv 1 c) (b128_acc v b) = (Some w, c')"
      using Suc.prems(1) v nz unfolding step by (auto split: if_splits)
    then have "base128_hi (unat (b128_acc v b)) @ cbs_bytes (adv 1 c) = base128 (unat w) @ cbs_bytes c'
        \<and> (\<exists>n \<le> length (cbs_bytes (adv 1 c)). c' = adv n (adv 1 c))"
      using Suc.hyps(2) Suc.prems(2) by (intro Suc.hyps(1)) simp_all
    then obtain n where "base128_hi (unat (b128_acc v b)) @ bs = base128 (unat w) @ cbs_bytes c'"
      "n \<le> length bs" "c' = adv (Suc n) c" using Cons by auto
    then show ?thesis
      using base128_hi_acc [OF v nz False] Cons by (intro conjI exI [of _ "Suc n"]) simp_all
  qed
qed

lemma parse_base128_hi:
  assumes "k < 2 ^ 57" "cbs_bytes c = base128_hi k @ xs" "cbs_wf c"
  shows "\<exists>v. unat v = k \<and> parse_base128_loop c 0 = parse_base128_loop (adv (length (base128_hi k)) c) v"
  using assms
proof (induction k arbitrary: xs rule: base128_hi.induct)
  case (1 k)
  show ?case
  proof (cases "k = 0")
    case False
    let ?l = "base128_hi (k div 128)" and ?b = "word_of_nat (128 + k mod 128) :: byte"
    have hi: "base128_hi k = ?l @ [?b]" using False by (subst base128_hi.simps) simp
    have "\<exists>v. unat v = k div 128 \<and>
        parse_base128_loop c 0 = parse_base128_loop (adv (length ?l) c) v"
      using "1.prems" hi False by (intro "1.IH" [where xs = "?b # xs"]) auto
    then obtain v where v: "unat v = k div 128"
      and IH: "parse_base128_loop c 0 = parse_base128_loop (adv (length ?l) c) v" by blast
    have b: "unat ?b = 128 + k mod 128" by (simp only: unat_byte_of_nat) simp
    have small: "unat v < 2 ^ 57" using v "1.prems"(1) by simp
    have nz: "\<not> (v = 0 \<and> ?b = 0x80)"
    proof
      assume "v = 0 \<and> ?b = 0x80"
      then have "k div 128 = 0" "128 + k mod 128 = 128" using v b by auto
      with False show False by simp
    qed
    have "cbs_bytes (adv (length ?l) c) = ?b # xs" using "1.prems"(2) hi by simp
    from parse_base128_step [OF cbs_wf_adv [OF "1.prems"(3)] this, of v]
    have "parse_base128_loop (adv (length ?l) c) v = parse_base128_loop (adv (length ?l + 1) c) (b128_acc v ?b)"
      using small nz b by (auto simp del: of_nat_add)
    moreover have "unat (b128_acc v ?b) = k" using unat_b128_acc [OF small, of ?b] v b by simp
    ultimately show ?thesis using IH hi by auto
  qed (auto intro: exI [of _ 0])
qed

lemma parse_base128_complete:
  assumes "n < 2 ^ 64" "cbs_bytes c = base128 n @ xs" "cbs_wf c"
  shows "parse_base128_integer c = (Some (word_of_nat n), adv (length (base128 n)) c)"
proof -
  let ?l = "base128_hi (n div 128)" and ?b = "word_of_nat (n mod 128) :: byte"
  have b: "unat ?b = n mod 128" by (simp add: unat_byte_of_nat)
  have "\<exists>v. unat v = n div 128 \<and>
      parse_base128_loop c 0 = parse_base128_loop (adv (length ?l) c) v"
    using assms by (intro parse_base128_hi [where xs = "?b # xs"]) (auto simp: base128_def)
  then obtain v where v: "unat v = n div 128"
    and hi: "parse_base128_loop c 0 = parse_base128_loop (adv (length ?l) c) v" by blast
  have small: "unat v < 2 ^ 57" using v assms(1) by simp
  have "?b \<noteq> 0x80"
  proof
    assume "?b = 0x80"
    then have "n mod 128 = 128" using b by simp
    then show False by simp
  qed
  moreover have "cbs_bytes (adv (length ?l) c) = ?b # xs" using assms(2) by (simp add: base128_def)
  note parse_base128_step [OF cbs_wf_adv [OF assms(3)] this, of v]
  moreover have "unat (b128_acc v ?b) = n" using unat_b128_acc [OF small, of ?b] v b by simp
  then have "b128_acc v ?b = word_of_nat n" by (rule word_of_nat_eqI)
  ultimately show ?thesis
    using small b hi by (simp add: parse_base128_integer_def base128_def)
qed

subsection \<open>Identifier octets: the parser inverts the encoding\<close>

lemma tag_class_shift:
  "push_bit 24 (ucast (b :: byte) AND 0xe0) = push_bit 29 (ucast (drop_bit 5 b) :: u32)"
proof -
  have "(0xe0 :: u32) = push_bit 5 (mask 3)" by (simp add: mask_eq_exp_minus_1)
  then have "ucast b AND (0xe0 :: u32) = push_bit 5 (ucast (drop_bit 5 b))"
    by (auto simp: bit_eq_iff bit_simps dest: bit_imp_le_length)
  then show ?thesis by (simp add: push_bit_push_bit)
qed

lemma unat_class_bits: "unat (drop_bit 5 (b :: byte)) = unat b div 32"
  by (simp only: unat_drop_bit_eq) (simp add: drop_bit_eq_div)

lemma push_bit_take_bit_disjoint: "push_bit n (a :: 'a::len word) AND take_bit n b = 0"
  by (auto simp: bit_eq_iff bit_simps)

lemma unat_tag:
  assumes "unat w < 2 ^ 29"
  shows "unat (push_bit 24 (ucast (b :: byte) AND 0xe0) OR (w :: u32)) = unat b div 32 * 2 ^ 29 + unat w"
proof -
  let ?cls = "ucast (drop_bit 5 b) :: u32"
  have cls: "unat ?cls = unat b div 32" by (simp add: unat_class_bits)
  moreover have "unat b div 32 < 8" using byte_bound [of b] by (simp add: div_less_iff_less_mult)
  ultimately have "unat ?cls * 2 ^ 29 < 2 ^ LENGTH(32)" by simp
  then have "unat (push_bit 29 ?cls) = unat b div 32 * 2 ^ 29"
    by (metis unat_push_bit cls)
  moreover have "w = take_bit 29 w"
    using assms by (intro word_eqI_unat) (simp only: unsigned_take_bit_eq take_bit_nat_eq_self)
  then have "push_bit 29 ?cls AND w = 0"
    by (metis push_bit_take_bit_disjoint)
  ultimately show ?thesis by (simp only: tag_class_shift unat_or_disjoint)
qed

lemma tag_number_low_iff: "ucast ((b :: byte) AND 0x1f) = (0x1f :: u32) \<longleftrightarrow> unat b mod 32 = 31"
proof -
  have "ucast (b AND 0x1f) = (0x1f :: u32) \<longleftrightarrow> unat (ucast (b AND 0x1f) :: u32) = unat (0x1f :: u32)"
    by (rule word_unat_eq_iff)
  then show ?thesis by (simp add: byte_and_1f)
qed

lemma adv_prefix_length:
  "cbs_bytes c = xs @ cbs_bytes (adv n c) \<Longrightarrow> n \<le> length (cbs_bytes c) \<Longrightarrow> n = length xs"
  by (metis append_take_drop_id append_same_eq cbs_bytes_adv length_take min.absorb2)

lemma parse_asn1_tag_sound:
  assumes "parse_asn1_tag c = (Some t, c')" "cbs_wf c"
  shows "cbs_bytes c = tag_bytes (unat t) @ cbs_bytes c' \<and> c' = adv (length (tag_bytes (unat t))) c"
proof -
  obtain b bs where c: "cbs_bytes c = b # bs"
    using assms by (cases "cbs_bytes c") (auto simp: parse_asn1_tag_def CBS_get_u8_eq)
  have b: "word_of_nat (unat b div 32 * 32 + unat b mod 32) = b"
    by (simp only: div_mult_mod_eq) simp
  have low: "unat (ucast (b AND 0x1f) :: u32) = unat b mod 32" by (simp add: byte_and_1f)
  have hi: "ucast (b AND 0x1f) = (0x1f :: u32) \<longleftrightarrow> unat b mod 32 = 31"
    by (rule tag_number_low_iff)
  show ?thesis
  proof (cases "unat b mod 32 = 31")
    case False
    then have "t = push_bit 24 (ucast b AND 0xe0) OR ucast (b AND 0x1f)" and c': "c' = adv 1 c"
      using assms c hi by (auto simp: parse_asn1_tag_def CBS_get_u8_eq Let_def)
    then have t: "unat t = unat b div 32 * 2 ^ 29 + unat b mod 32"
      using unat_tag [of "ucast (b AND 0x1f)" b] low by simp
    have "unat b mod 32 < 31" using False mod_less_divisor [of 32 "unat b"] by linarith
    then have "tag_bytes (unat t) = [b]"
      using t b by (simp add: tag_bytes_def del: of_nat_add of_nat_mult)
    then show ?thesis using c c' by auto
  next
    case True
    then obtain v where v: "parse_base128_integer (adv 1 c) = (Some v, c')"
      and bounds: "\<not> v > ucast CBS_ASN1_TAG_NUMBER_MASK" "\<not> v < 0x1f"
      and t: "t = push_bit 24 (ucast b AND 0xe0) OR ucast v"
      using assms c hi
      by (auto simp: parse_asn1_tag_def CBS_get_u8_eq Let_def split: option.splits prod.splits if_splits)
    have v_lo: "31 \<le> unat v" and v_hi: "unat v < 2 ^ 29"
      using bounds by (auto simp: word_less_nat_alt)
    have "unat (ucast v :: u32) = unat v"
      using v_hi by (simp add: unsigned_ucast_eq take_bit_nat_eq_self)
    then have "unat t = unat b div 32 * 2 ^ 29 + unat v"
      using unat_tag [of "ucast v" b] v_hi t by simp
    then have "tag_bytes (unat t) = b # base128 (unat v)"
      using v_lo v_hi True b by (simp add: tag_bytes_def del: of_nat_add of_nat_mult)
    moreover obtain n where "cbs_bytes (adv 1 c) = base128 (unat v) @ cbs_bytes c'"
      "n \<le> length (cbs_bytes (adv 1 c))" "c' = adv n (adv 1 c)"
      using parse_base128_sound [OF v [unfolded parse_base128_integer_def]] assms(2)
      by (metis append_Nil base128_hi_0 cbs_wf_adv unsigned_0)
    ultimately show ?thesis using c adv_prefix_length [of "adv 1 c" "base128 (unat v)" n] by auto
  qed
qed

lemma parse_asn1_tag_complete:
  assumes "t < 2 ^ 32" "cbs_bytes c = tag_bytes t @ xs" "cbs_wf c"
  shows "parse_asn1_tag c = (Some (word_of_nat t), adv (length (tag_bytes t)) c)"
proof -
  define cls number where "cls = t div 2 ^ 29" and "number = t mod 2 ^ 29"
  have t: "t = cls * 2 ^ 29 + number" and cls: "cls < 8" and number: "number < 2 ^ 29"
    using assms(1) by (simp_all add: cls_def number_def div_less_iff_less_mult)
  have unat_t: "unat w = t \<Longrightarrow> w = word_of_nat t" for w :: u32 by (rule word_of_nat_eqI)
  show ?thesis
  proof (cases "number < 31")
    case True
    let ?b = "word_of_nat (cls * 32 + number) :: byte"
    have "unat ?b = cls * 32 + number" using cls True by (simp only: unat_byte_of_nat) simp
    then have b: "unat ?b div 32 = cls" "unat ?b mod 32 = number" using True by auto
    have low: "unat (ucast (?b AND 0x1f) :: u32) = number" using b by (simp add: byte_and_1f)
    have "ucast (?b AND 0x1f) \<noteq> (0x1f :: u32)" using True b by (simp only: tag_number_low_iff)
    moreover have "push_bit 24 (ucast ?b AND 0xe0) OR ucast (?b AND 0x1f) = (word_of_nat t :: u32)"
      using unat_tag [of "ucast (?b AND 0x1f)" ?b] low number b t by (intro unat_t) simp
    moreover have "tag_bytes t = [?b]" using True by (simp add: tag_bytes_def cls_def number_def)
    ultimately show ?thesis
      using assms(2,3) by (simp add: parse_asn1_tag_def CBS_get_u8_eq Let_def del: of_nat_add)
  next
    case False
    let ?b = "word_of_nat (cls * 32 + 31) :: byte"
    have "unat ?b = cls * 32 + 31" using cls by (simp only: unat_byte_of_nat) simp
    then have b: "unat ?b div 32 = cls" "unat ?b mod 32 = 31" by auto
    have low: "ucast (?b AND 0x1f) = (0x1f :: u32)"
      using b by (intro word_eqI_unat) (simp add: byte_and_1f)
    let ?v = "word_of_nat number :: u64"
    have v: "unat ?v = number" using number by (simp add: unat_of_nat)
    have tb: "tag_bytes t = ?b # base128 number" using False by (simp add: tag_bytes_def cls_def number_def)
    then have "cbs_bytes (adv 1 c) = base128 number @ xs" using assms(2) by simp
    then have "parse_base128_integer (adv 1 c) = (Some ?v, adv (length (base128 number)) (adv 1 c))"
      using number assms(3) by (intro parse_base128_complete) simp_all
    moreover have "\<not> ?v > ucast CBS_ASN1_TAG_NUMBER_MASK" "\<not> ?v < 0x1f"
      using v number False by (auto simp: word_less_nat_alt)
    moreover have "unat (ucast ?v :: u32) = number"
      using v number by (simp add: unsigned_ucast_eq take_bit_nat_eq_self)
    then have "push_bit 24 (ucast ?b AND 0xe0) OR ucast ?v = (word_of_nat t :: u32)"
      using unat_tag [of "ucast ?v" ?b] number b t by (intro unat_t) simp
    ultimately show ?thesis
      using assms(2,3) low tb by (simp add: parse_asn1_tag_def CBS_get_u8_eq Let_def del: of_nat_add)
  qed
qed

subsection \<open>Elements: DER mode accepts exactly the distinguished encodings\<close>

lemma nbytes_le: "n < 256 ^ k \<Longrightarrow> nbytes n \<le> k"
proof (induction n arbitrary: k rule: nbytes.induct)
  case (1 n)
  show ?case
  proof (cases "n = 0")
    case False
    with "1.prems" obtain j where k: "k = Suc j" by (cases k) auto
    then have "n div 256 < 256 ^ j" using "1.prems" by (simp add: div_less_iff_less_mult mult.commute)
    then show ?thesis using "1.IH" [OF False, of j] False k by (simp add: nbytes.simps [of n])
  qed (simp add: nbytes.simps)
qed

lemma nbytes_bound: "n < 256 ^ nbytes n"
proof (induction n rule: nbytes.induct)
  case (1 n)
  then show ?case
    by (cases "n = 0") (simp_all add: nbytes.simps [of n] div_less_iff_less_mult mult.commute)
qed

lemma nbytes_eqI: "256 ^ (k - 1) \<le> n \<Longrightarrow> n < 256 ^ k \<Longrightarrow> 0 < k \<Longrightarrow> nbytes n = k"
proof (rule ccontr)
  assume le: "256 ^ (k - 1) \<le> n" and lt: "n < 256 ^ k" and k: "0 < k" and "nbytes n \<noteq> k"
  then have "nbytes n \<le> k - 1" using nbytes_le [OF lt] by simp
  then have "(256 :: nat) ^ nbytes n \<le> 256 ^ (k - 1)" by (intro power_increasing) simp_all
  then show False using le nbytes_bound [of n] by linarith
qed

lemma nbytes_pos: "0 < n \<Longrightarrow> 0 < nbytes n"
  by (simp add: nbytes.simps [of n])

lemma nbytes_lower: "0 < n \<Longrightarrow> 256 ^ (nbytes n - 1) \<le> n"
proof (rule ccontr)
  assume "0 < n" "\<not> 256 ^ (nbytes n - 1) \<le> n"
  then have "nbytes n \<le> nbytes n - 1" by (intro nbytes_le) simp
  then show False using nbytes_pos [OF \<open>0 < n\<close>] by simp
qed

lemma len_bytes_nonempty [simp]: "len_bytes n \<noteq> []"
  by (simp add: len_bytes_def)

lemma base128_nonempty [simp]: "base128 n \<noteq> []"
  by (simp add: base128_def)

lemma tag_bytes_nonempty [simp]: "tag_bytes t \<noteq> []"
  by (simp add: tag_bytes_def Let_def)

lemma word_padded_iff: "drop_bit ((k - 1) * 8) (w :: u64) = 0 \<longleftrightarrow> unat w < 256 ^ (k - 1)"
proof -
  have "(256 :: nat) ^ (k - 1) = 2 ^ ((k - 1) * 8)"
    by (simp add: mult.commute [of _ 8] power_mult)
  then show ?thesis by (simp only: drop_bit_eq_0_iff)
qed

text \<open>
  The length octets, once the identifier octets have been read: header length and content
  length, for the DER reader.
\<close>

lemma len_bytes_parse:
  assumes "n < 2 ^ 32" "cbs_bytes h = len_bytes n @ xs" "cbs_wf h"
  obtains (short) b where "n < 128" "cbs_bytes h = b # xs" "unat b = n"
  | (long) b k where "128 \<le> n" "0 < k" "k \<le> 4" "k = nbytes n" "256 ^ (k - 1) \<le> n"
      "cbs_bytes h = b # be_bytes k n @ xs" "unat b = 128 + k"
proof (cases "n < 128")
  case True
  then have "unat (word_of_nat n :: byte) = n" by (simp add: unat_byte_of_nat)
  then show ?thesis using True assms(2) by (intro short) (auto simp: len_bytes_def)
next
  case False
  have "nbytes n \<le> 4" using assms(1) by (intro nbytes_le) simp
  then have "unat (word_of_nat (128 + nbytes n) :: byte) = 128 + nbytes n"
    by (simp only: unat_byte_of_nat) simp
  then show ?thesis
    using False assms(2) nbytes_pos [of n] nbytes_lower [of n] \<open>nbytes n \<le> 4\<close>
    by (intro long [of "nbytes n" "word_of_nat (128 + nbytes n)"]) (auto simp: len_bytes_def simp del: of_nat_add)
qed

lemma length_len_bytes: "length (len_bytes n) = (if n < 128 then 1 else Suc (nbytes n))"
  by (simp add: len_bytes_def)

text \<open>The length octets and the element, as a function of the bytes after the identifier.\<close>

definition element_result ::
    "CBS \<Rightarrow> u32 \<Rightarrow> nat \<Rightarrow> nat \<Rightarrow> bool \<Rightarrow> (CBS \<times> u32 \<times> nat \<times> bool) read" where
  "element_result c tag hl l ber_found =
     (if length (cbs_bytes c) < hl + l then (None, c)
      else (Some (cbs_view (hl + l) c, tag, hl, ber_found), adv (hl + l) c))"

lemma length_base128_hi: "v < 128 ^ j \<Longrightarrow> length (base128_hi v) \<le> j"
proof (induction v arbitrary: j rule: base128_hi.induct)
  case (1 v)
  show ?case
  proof (cases "v = 0")
    case False
    with "1.prems" obtain i where j: "j = Suc i" by (cases j) auto
    then have "v div 128 < 128 ^ i" using "1.prems" by (simp add: div_less_iff_less_mult mult.commute)
    then show ?thesis using "1.IH" [OF False, of i] False j by (simp add: base128_hi.simps [of v])
  qed simp
qed

lemma length_tag_bytes: "length (tag_bytes t) \<le> 6"
proof -
  have "t mod 2 ^ 29 div 128 < 128 ^ 4"
    using mod_less_divisor [of "2 ^ 29" t] by (simp add: div_less_iff_less_mult)
  then have "length (base128_hi (t mod 2 ^ 29 div 128)) \<le> 4" by (rule length_base128_hi)
  then show ?thesis by (simp add: tag_bytes_def base128_def Let_def)
qed

lemma element_long_form:
  assumes "cbs_wf c" "cbs_bytes (adv hl c) = xs" "hl \<le> 7" "k \<le> length xs" "k \<le> 4"
  shows "\<exists>w. cbs_get_u (adv hl c) k = (Some w, adv (hl + k) c) \<and> unat w = be_val (take k xs) \<and>
    (unat w + hl + k) mod size_mod = hl + k + be_val (take k xs)"
proof -
  let ?l = "be_val (take k xs)"
  have "?l < 256 ^ k" using be_val_bound [of "take k xs"] assms(4) by simp
  also have "(256 :: nat) ^ k \<le> 256 ^ 4" using assms(5) by (intro power_increasing) simp_all
  finally have l32: "?l < 2 ^ 32" by simp
  then have w: "unat (word_of_nat ?l :: u64) = ?l" by (simp add: unat_of_nat)
  have "?l + hl + k < size_mod" using l32 assms(3,5) by simp
  then have "(?l + hl + k) mod size_mod = hl + k + ?l" by simp
  moreover have "cbs_get_u (adv hl c) k = (Some (word_of_nat ?l), adv (hl + k) c)"
    using assms by (subst cbs_get_u_eq) simp_all
  ultimately show ?thesis using w by metis
qed

lemma element_eq:
  assumes wf: "cbs_wf c" and tag: "parse_asn1_tag c = (Some tag, adv tn c)" and tn: "tn \<le> 6"
    and h: "cbs_bytes (adv tn c) = b # xs"
  shows "cbs_get_any_asn1_element c ber =
    (if unat b < 128 then element_result c tag (Suc tn) (unat b) False
     else (let k = unat b - 128; l = be_val (take k xs); odd_len = (l < 128 \<or> l < 256 ^ (k - 1))
       in if ber \<and> tag AND CBS_ASN1_CONSTRUCTED \<noteq> 0 \<and> k = 0 then element_result c tag (Suc tn) 0 True
          else if k = 0 \<or> 4 < k \<or> length xs < k \<or> odd_len \<and> \<not> ber then (None, c)
          else element_result c tag (Suc tn + k) l odd_len))"
proof -
  have len: "length (cbs_bytes c) = tn + Suc (length xs)"
    using h by (metis cbs_bytes_adv length_Cons length_drop list.distinct(1) add_diff_inverse_nat drop_all not_less less_imp_le_nat)
  have xs: "cbs_bytes (adv (Suc tn) c) = xs"
    using h by (metis cbs_bytes_adv drop_Suc drop_tl list.sel(3))
  have hdr: "CBS_len c - CBS_len (adv 1 (adv tn c)) = Suc tn"
    using wf len by (simp add: cbs_eqs)
  have u8: "CBS_get_u8 (adv tn c) = (Some b, adv 1 (adv tn c))" using wf h by (simp add: CBS_get_u8_eq)
  show ?thesis
  proof (cases "unat b < 128")
    case True
    then show ?thesis
      unfolding cbs_get_any_asn1_element_def tag u8 hdr Let_def prod.case option.case
      using wf by (simp add: byte_and_80 CBS_get_bytes_eq element_result_def add.commute)
  next
    case False
    define k where "k = unat b - 128"
    have kb: "unat (b AND 0x7f) = k" using False by (simp add: k_def byte_and_7f byte_excess)
    show ?thesis
    proof (cases "k = 0 \<or> 4 < k \<or> length xs < k")
      case True
      then show ?thesis
        unfolding cbs_get_any_asn1_element_def tag u8 hdr Let_def prod.case option.case kb k_def [symmetric]
        using wf False xs
        by (auto simp: byte_and_80 CBS_get_bytes_eq element_result_def cbs_get_u_eq)
    next
      case nofail: False
      then obtain w where w: "cbs_get_u (adv (Suc tn) c) k = (Some w, adv (Suc tn + k) c)"
        "unat w = be_val (take k xs)" "(unat w + Suc tn + k) mod size_mod = Suc tn + k + unat w"
        using element_long_form [OF wf xs, of k] tn by auto
      have short: "w < 128 \<longleftrightarrow> unat w < 128" by (simp add: word_less_nat_alt)
      have get_u: "cbs_get_u (adv 1 (adv tn c)) k = (Some w, adv (Suc tn + k) c)" using w(1) by simp
      have "\<not> Suc tn + k + unat w < unat w" by simp
      then show ?thesis
        unfolding cbs_get_any_asn1_element_def tag u8 hdr Let_def prod.case option.case kb
          k_def [symmetric] get_u w(3) short word_padded_iff w(2) [symmetric]
        using wf False nofail by (simp add: byte_and_80 CBS_get_bytes_eq element_result_def)
    qed
  qed
qed

lemma len_bytes_long:
  "128 \<le> n \<Longrightarrow> n < 2 ^ 32 \<Longrightarrow> 256 ^ (k - 1) \<le> n \<Longrightarrow> n < 256 ^ k \<Longrightarrow> 0 < k \<Longrightarrow>
   len_bytes n = word_of_nat (128 + k) # be_bytes k n"
  by (simp add: len_bytes_def nbytes_eqI)

lemma length_der: "length (der t body) = length (der_header t (length body)) + length body"
  by (simp add: der_def)

lemma length_der_header: "length (der_header t n) = length (tag_bytes t) + length (len_bytes n)"
  by (simp add: der_header_def)

lemma CBS_get_any_asn1_element_complete:
  assumes t: "t < 2 ^ 32" and len: "length body < 2 ^ 32"
    and c: "cbs_bytes c = der t body @ rest" and wf: "cbs_wf c"
  shows "CBS_get_any_asn1_element c =
    (Some (cbs_view (length (der t body)) c, word_of_nat t, length (der_header t (length body))),
     adv (length (der t body)) c)"
proof -
  let ?n = "length body" and ?tn = "length (tag_bytes t)"
  have tag: "parse_asn1_tag c = (Some (word_of_nat t), adv ?tn c)"
    using t c wf by (intro parse_asn1_tag_complete) (auto simp: der_def der_header_def)
  have h: "cbs_bytes (adv ?tn c) = len_bytes ?n @ body @ rest" "cbs_wf (adv ?tn c)"
    using c wf by (simp_all add: der_def der_header_def)
  have fits: "\<not> length (cbs_bytes c) < length (der_header t ?n) + ?n" using c by (simp add: der_def)
  from len h show ?thesis
  proof (cases rule: len_bytes_parse)
    case (short b)
    have "length (der_header t ?n) = Suc ?tn" using short(1) by (simp add: der_header_def len_bytes_def)
    then show ?thesis
      unfolding CBS_get_any_asn1_element_def element_eq [OF wf tag length_tag_bytes short(2)]
      using short(1,3) fits by (simp add: element_result_def length_der)
  next
    case (long b k)
    have "length (der_header t ?n) = Suc ?tn + k"
      using long(1,4) by (simp add: der_header_def len_bytes_def)
    moreover have "be_val (take k (be_bytes k ?n @ body @ rest)) = ?n"
      using nbytes_bound [of ?n] long(4) by (simp add: be_val_be_bytes)
    ultimately show ?thesis
      unfolding CBS_get_any_asn1_element_def element_eq [OF wf tag length_tag_bytes long(6)] Let_def
      using long fits by (simp add: element_result_def length_der)
  qed
qed

lemma CBS_get_bytes_cases:
  "CBS_get_bytes c n = (if cbs_len c < n then (None, c) else (Some (cbs_view n c), adv n c))"
  by (simp add: CBS_get_bytes_def cbs_get_def cbs_view_def adv_def)

lemma element_tag:
  assumes get: "cbs_get_any_asn1_element c ber = (Some (out, tag, hl, found), c')"
  shows "\<exists>h. parse_asn1_tag c = (Some tag, h)"
proof -
  obtain t h where t: "parse_asn1_tag c = (t, h)" by (cases "parse_asn1_tag c")
  show ?thesis
  proof (cases t)
    case (Some tag')
    obtain u g where u8: "CBS_get_u8 h = (u, g)" by (cases "CBS_get_u8 h")
    have "tag' = tag"
      using get unfolding cbs_get_any_asn1_element_def t Some u8 Let_def prod.case option.case CBS_get_bytes_cases
      by (cases u) (auto split: if_splits option.splits prod.splits)
    then show ?thesis using t Some by simp
  qed (use get in \<open>simp add: cbs_get_any_asn1_element_def t\<close>)
qed

lemma CBS_get_any_asn1_element_sound:
  assumes get: "CBS_get_any_asn1_element c = (Some (out, tag, hl), c')" and wf: "cbs_wf c"
  shows "\<exists>body. length body < 2 ^ 32 \<and>
    cbs_bytes c = der (unat tag) body @ cbs_bytes c' \<and>
    out = cbs_view (length (der (unat tag) body)) c \<and>
    hl = length (der_header (unat tag) (length body)) \<and>
    c' = adv (length (der (unat tag) body)) c"
proof -
  let ?t = "unat tag"
  let ?tn = "length (tag_bytes ?t)"
  obtain e hd f where "cbs_get_any_asn1_element c False = (Some (e, tag, hd, f), c')"
    using get by (auto simp: CBS_get_any_asn1_element_def split: option.splits prod.splits)
  then obtain h where "parse_asn1_tag c = (Some tag, h)" using element_tag by blast
  then have tag: "parse_asn1_tag c = (Some tag, adv ?tn c)"
    and c: "cbs_bytes c = tag_bytes ?t @ cbs_bytes (adv ?tn c)"
    using parse_asn1_tag_sound wf by auto
  obtain b xs where h: "cbs_bytes (adv ?tn c) = b # xs"
    using get tag wf by (cases "cbs_bytes (adv ?tn c)")
      (auto simp: CBS_get_any_asn1_element_def cbs_get_any_asn1_element_def CBS_get_u8_eq)
  have len: "length (cbs_bytes c) = ?tn + Suc (length xs)" using c h by simp
  note eq = element_eq [OF wf tag length_tag_bytes h, of False]
  show ?thesis
  proof (cases "unat b < 128")
    case True
    have main: "unat b \<le> length xs" "out = cbs_view (Suc ?tn + unat b) c" "hl = Suc ?tn"
        "c' = adv (Suc ?tn + unat b) c"
      using get True len unfolding CBS_get_any_asn1_element_def eq element_result_def
      by (auto split: if_splits)
    have "len_bytes (unat b) = [b]" using True by (simp add: len_bytes_def)
    then show ?thesis
      using main c h True by (intro exI [of _ "take (unat b) xs"]) (auto simp: der_def der_header_def)
  next
    case False
    define k l where "k = unat b - 128" and "l = be_val (take k xs)"
    have main: "0 < k" "k \<le> 4" "k \<le> length xs" "128 \<le> l" "256 ^ (k - 1) \<le> l" "l + k \<le> length xs"
        "out = cbs_view (Suc ?tn + k + l) c" "hl = Suc ?tn + k" "c' = adv (Suc ?tn + k + l) c"
      using get False len
      unfolding CBS_get_any_asn1_element_def eq element_result_def Let_def k_def [symmetric] l_def [symmetric]
      by (auto split: if_splits)
    have "l < 256 ^ k" using be_val_bound [of "take k xs"] main(3) by (simp add: l_def)
    moreover have "(256 :: nat) ^ k \<le> 256 ^ 4" using main(2) by (intro power_increasing) simp_all
    ultimately have l32: "l < 2 ^ 32" by simp
    have "be_bytes k l = take k xs"
      using be_bytes_be_val [of "take k xs"] main(3) by (simp add: l_def)
    moreover have "b = word_of_nat (128 + k)" using False by (intro word_of_nat_eqI) (simp add: k_def)
    ultimately have lb: "len_bytes l = b # take k xs"
      using len_bytes_long [OF main(4) l32 main(5) \<open>l < 256 ^ k\<close> main(1)] by simp
    obtain body rest where xs: "xs = take k xs @ body @ rest" and body: "length body = l"
      using main(6) by (metis append_take_drop_id length_drop le_diff_conv2 main(3) take_drop_split)
    have hdr: "der_header ?t l = tag_bytes ?t @ b # take k xs" "length (der_header ?t l) = Suc ?tn + k"
      using lb main(3) by (simp_all add: der_header_def)
    then have "cbs_bytes c = der ?t body @ rest" using c h xs body by (simp add: der_def)
    then show ?thesis
      using main(7-9) hdr(2) body l32 by (intro exI [of _ body]) (simp add: length_der)
  qed
qed

end
