(* ===== verification/Bytestring_Builder.thy ===== *)
theory Bytestring_Builder
  imports Asn1_Reader
begin

unbundle bit_operations_syntax

text \<open>
  The byte-string builder \<open>CBB\<close> of \<open>crypto/bytestring/cbb.c\<close>. Several \<open>CBB\<close> objects write
  to one buffer: a parent and, while a length prefix is pending, its chain of children,
  linked by pointers. The heap of a building session is therefore explicit: the one
  \<open>cbb_buffer_st\<close> they share (\<open>hbase\<close>), the \<open>CBB\<close> objects by address (\<open>hcbb\<close>) and the number
  of allocator calls made so far. \<open>cbb_base\<close> says whether an object's \<open>base\<close> pointer is the
  shared buffer or \<open>NULL\<close>.

  \<open>CBB_flush\<close> recurses along the child pointers and would not return on a cyclic chain, so
  every operation built on it yields an option: \<open>None\<close> is that non-termination, and
  \<open>Some (ok, h)\<close> the return value and the heap. The lemmas of \<open>Builder_Refinement\<close> show that
  it never occurs on the heaps the operations themselves create.
\<close>

record cbb_buffer =
  cb_buf :: "byte list"
  cb_len :: nat
  cb_cap :: nat
  cb_can_resize :: bool
  cb_error :: bool

record CBB =
  cbb_base :: bool
  cbb_child :: "nat option"
  cbb_offset :: nat
  cbb_pending_len_len :: nat
  cbb_pending_is_asn1 :: bool
  cbb_is_child :: bool

record cbb_heap =
  hbase :: cbb_buffer
  hcbb :: "nat \<Rightarrow> CBB"
  hallocs :: nat

type_synonym cbb_result = "(bool \<times> cbb_heap) option"

definition andthen :: "(cbb_heap \<Rightarrow> cbb_result) \<Rightarrow> (cbb_heap \<Rightarrow> cbb_result) \<Rightarrow> cbb_heap \<Rightarrow> cbb_result" where
  "andthen f g h =
     (case f h of None \<Rightarrow> None | Some (ok, h') \<Rightarrow> if ok then g h' else Some (False, h'))"

abbreviation set_error :: "cbb_heap \<Rightarrow> cbb_heap" where
  "set_error h \<equiv> h\<lparr>hbase := (hbase h)\<lparr>cb_error := True\<rparr>\<rparr>"

abbreviation upd_cbb :: "nat \<Rightarrow> (CBB \<Rightarrow> CBB) \<Rightarrow> cbb_heap \<Rightarrow> cbb_heap" where
  "upd_cbb a f h \<equiv> h\<lparr>hcbb := (hcbb h)(a := f (hcbb h a))\<rparr>"

abbreviation upd_buf :: "(byte list \<Rightarrow> byte list) \<Rightarrow> cbb_heap \<Rightarrow> cbb_heap" where
  "upd_buf f h \<equiv> h\<lparr>hbase := (hbase h)\<lparr>cb_buf := f (cb_buf (hbase h))\<rparr>\<rparr>"

subsection \<open>Creating and destroying a builder\<close>

definition CBB_zero :: CBB where
  "CBB_zero = \<lparr>cbb_base = False, cbb_child = None, cbb_offset = 0, cbb_pending_len_len = 0,
     cbb_pending_is_asn1 = False, cbb_is_child = False\<rparr>"

definition sizeof_cbb_buffer :: nat where
  "sizeof_cbb_buffer = 32"

definition cbb_init :: "allocator \<Rightarrow> nat \<Rightarrow> byte list \<Rightarrow> nat \<Rightarrow> cbb_heap \<Rightarrow> bool \<times> cbb_heap" where
  "cbb_init m a buf cap h =
     (case OPENSSL_malloc m (hallocs h) sizeof_cbb_buffer of
        None \<Rightarrow> (False, h\<lparr>hallocs := Suc (hallocs h)\<rparr>)
      | Some _ \<Rightarrow>
          (True,
           h\<lparr>hbase := \<lparr>cb_buf = buf, cb_len = 0, cb_cap = cap, cb_can_resize = True, cb_error = False\<rparr>,
             hcbb := (hcbb h)(a := (hcbb h a)\<lparr>cbb_base := True, cbb_is_child := False\<rparr>),
             hallocs := Suc (hallocs h)\<rparr>))"

definition CBB_init :: "allocator \<Rightarrow> nat \<Rightarrow> nat \<Rightarrow> cbb_heap \<Rightarrow> bool \<times> cbb_heap" where
  "CBB_init m a initial_capacity h0 =
     (let h = upd_cbb a (\<lambda>_. CBB_zero) h0;
          buf = OPENSSL_malloc m (hallocs h) initial_capacity;
          h1 = h\<lparr>hallocs := Suc (hallocs h)\<rparr>
      in if initial_capacity > 0 \<and> buf = None then (False, h1)
         else cbb_init m a (case buf of None \<Rightarrow> [] | Some b \<Rightarrow> b) initial_capacity h1)"

definition CBB_init_fixed :: "allocator \<Rightarrow> nat \<Rightarrow> byte list \<Rightarrow> nat \<Rightarrow> cbb_heap \<Rightarrow> bool \<times> cbb_heap" where
  "CBB_init_fixed m a buf n h0 =
     (case cbb_init m a buf n (upd_cbb a (\<lambda>_. CBB_zero) h0) of
        (False, h) \<Rightarrow> (False, h)
      | (True, h) \<Rightarrow> (True, h\<lparr>hbase := (hbase h)\<lparr>cb_can_resize := False\<rparr>\<rparr>))"

definition CBB_cleanup :: "nat \<Rightarrow> cbb_heap \<Rightarrow> cbb_heap" where
  "CBB_cleanup a h =
     (if cbb_is_child (hcbb h a) then h else upd_cbb a (\<lambda>c. c\<lparr>cbb_base := False\<rparr>) h)"

subsection \<open>The buffer\<close>

definition cbb_buffer_reserve :: "allocator \<Rightarrow> bool \<Rightarrow> nat \<Rightarrow> cbb_heap \<Rightarrow> bool \<times> cbb_heap" where
  "cbb_buffer_reserve m base n h =
     (let b = hbase h; newlen = (cb_len b + n) mod size_mod
      in if \<not> base then (False, h)
         else if newlen < cb_len b then (False, set_error h)
         else if newlen > cb_cap b then
           (let newcap0 = (cb_cap b * 2) mod size_mod;
                newcap = (if newcap0 < cb_cap b \<or> newcap0 < newlen then newlen else newcap0)
            in if \<not> cb_can_resize b then (False, set_error h)
               else (case OPENSSL_realloc m (hallocs h) (Some (cb_buf b)) newcap of
                       None \<Rightarrow> (False, set_error (h\<lparr>hallocs := Suc (hallocs h)\<rparr>))
                     | Some newbuf \<Rightarrow>
                         (True, h\<lparr>hbase := b\<lparr>cb_buf := newbuf, cb_cap := newcap\<rparr>,
                                  hallocs := Suc (hallocs h)\<rparr>)))
         else (True, h))"

definition cbb_buffer_add :: "allocator \<Rightarrow> bool \<Rightarrow> nat \<Rightarrow> cbb_heap \<Rightarrow> bool \<times> cbb_heap" where
  "cbb_buffer_add m base n h =
     (case cbb_buffer_reserve m base n h of
        (False, h') \<Rightarrow> (False, h')
      | (True, h') \<Rightarrow> (True, h'\<lparr>hbase := (hbase h')\<lparr>cb_len := cb_len (hbase h') + n\<rparr>\<rparr>))"

text \<open>The store loop, from the last byte down: buffer and what is left of the value.\<close>

definition put_be :: "nat \<Rightarrow> nat \<Rightarrow> byte list \<times> u64 \<Rightarrow> byte list \<times> u64" where
  "put_be pos n s =
     foldl (\<lambda>(buf, v) i. (buf[pos + i := ucast v], drop_bit 8 v)) s (rev [0..<n])"

definition cbb_buffer_add_u :: "allocator \<Rightarrow> bool \<Rightarrow> u64 \<Rightarrow> nat \<Rightarrow> cbb_heap \<Rightarrow> bool \<times> cbb_heap" where
  "cbb_buffer_add_u m base v len_len h =
     (if len_len = 0 then (True, h)
      else (case cbb_buffer_add m base len_len h of
              (False, h') \<Rightarrow> (False, h')
            | (True, h') \<Rightarrow>
                (let (buf', v') = put_be (cb_len (hbase h)) len_len (cb_buf (hbase h'), v);
                     h'' = upd_buf (\<lambda>_. buf') h'
                 in if v' \<noteq> 0 then (False, set_error h'') else (True, h''))))"

subsection \<open>Flushing pending length prefixes\<close>

text \<open>\<open>CBB_flush\<close> after the recursive call: the prefix of child \<open>ch\<close> of \<open>a\<close> is written out.\<close>

definition asn1_len_form :: "nat \<Rightarrow> nat \<times> byte \<times> nat" where
  "asn1_len_form n =
     (if n > 0xffffff then (5, 0x84, n)
      else if n > 0xffff then (4, 0x83, n)
      else if n > 0xff then (3, 0x82, n)
      else if n > 0x7f then (2, 0x81, n)
      else (1, word_of_nat n, 0))"

definition flush_write_len :: "nat \<Rightarrow> nat \<Rightarrow> nat \<Rightarrow> cbb_heap \<Rightarrow> bool \<times> cbb_heap" where
  "flush_write_len a ch n h =
     (let child = hcbb h ch;
          (buf', n') = put_be (cbb_offset child) (cbb_pending_len_len child)
                         (cb_buf (hbase h), word_of_nat n);
          h1 = upd_buf (\<lambda>_. buf') h
      in if n' \<noteq> 0 then (False, set_error h1)
         else (True, upd_cbb a (\<lambda>c. c\<lparr>cbb_child := None\<rparr>) (upd_cbb ch (\<lambda>c. c\<lparr>cbb_base := False\<rparr>) h1)))"

definition flush_child :: "allocator \<Rightarrow> nat \<Rightarrow> nat \<Rightarrow> nat \<Rightarrow> cbb_heap \<Rightarrow> bool \<times> cbb_heap" where
  "flush_child m a ch child_start h =
     (let n = cb_len (hbase h) - child_start
      in if \<not> cbb_pending_is_asn1 (hcbb h ch) then flush_write_len a ch n h
         else if n > 0xfffffffe then (False, set_error h)
         else
           (let (len_len, initial_length_byte, n') = asn1_len_form n;
                (ok, h1) =
                  (if len_len \<noteq> 1
                   then (case cbb_buffer_add m (cbb_base (hcbb h a)) (len_len - 1) h of
                           (False, h') \<Rightarrow> (False, h')
                         | (True, h') \<Rightarrow>
                             (True, upd_buf (mem_move (child_start + (len_len - 1)) child_start n') h'))
                   else (True, h))
            in if \<not> ok then (False, set_error h1)
               else
                 (let h2 = upd_buf (\<lambda>b. b[cbb_offset (hcbb h1 ch) := initial_length_byte]) h1;
                      h3 = upd_cbb ch (\<lambda>c. c\<lparr>cbb_offset := cbb_offset c + 1,
                                            cbb_pending_len_len := len_len - 1\<rparr>) h2
                  in flush_write_len a ch n' h3)))"

partial_function (option) CBB_flush :: "allocator \<Rightarrow> nat \<Rightarrow> cbb_heap \<Rightarrow> cbb_result" where
  "CBB_flush m a h =
     (if \<not> cbb_base (hcbb h a) \<or> cb_error (hbase h) then Some (False, h)
      else (case cbb_child (hcbb h a) of
              None \<Rightarrow> Some (True, h)
            | Some ch \<Rightarrow>
                if cbb_pending_len_len (hcbb h ch) = 0 then Some (True, h)
                else
                  (let child_start = (cbb_offset (hcbb h ch) + cbb_pending_len_len (hcbb h ch)) mod size_mod
                   in Option.bind (CBB_flush m ch h) (\<lambda>r.
                        if \<not> fst r \<or> child_start < cbb_offset (hcbb (snd r) ch) \<or>
                           cb_len (hbase (snd r)) < child_start
                        then Some (False, set_error (snd r))
                        else Some (flush_child m a ch child_start (snd r))))))"

declare CBB_flush.simps [code]

text \<open>\<open>CBB_finish\<close> with both out-parameters given: the buffer and its length, or failure.\<close>

definition CBB_finish :: "allocator \<Rightarrow> nat \<Rightarrow> cbb_heap \<Rightarrow> ((byte list \<times> nat) option \<times> cbb_heap) option" where
  "CBB_finish m a h =
     (if cbb_is_child (hcbb h a) then Some (None, h)
      else (case CBB_flush m a h of
              None \<Rightarrow> None
            | Some (False, h') \<Rightarrow> Some (None, h')
            | Some (True, h') \<Rightarrow>
                Some (Some (cb_buf (hbase h'), cb_len (hbase h')),
                      CBB_cleanup a (upd_buf (\<lambda>_. []) h'))))"

definition CBB_data :: "nat \<Rightarrow> cbb_heap \<Rightarrow> byte list" where
  "CBB_data a h = drop (cbb_offset (hcbb h a) + cbb_pending_len_len (hcbb h a)) (cb_buf (hbase h))"

definition CBB_len :: "nat \<Rightarrow> cbb_heap \<Rightarrow> nat" where
  "CBB_len a h = cb_len (hbase h) - cbb_offset (hcbb h a) - cbb_pending_len_len (hcbb h a)"

subsection \<open>Plain data\<close>

definition CBB_add_bytes :: "allocator \<Rightarrow> nat \<Rightarrow> byte list \<Rightarrow> nat \<Rightarrow> cbb_heap \<Rightarrow> cbb_result" where
  "CBB_add_bytes m a p n =
     andthen (CBB_flush m a) (\<lambda>h.
       case cbb_buffer_add m (cbb_base (hcbb h a)) n h of
         (False, h') \<Rightarrow> Some (False, h')
       | (True, h') \<Rightarrow> Some (True, upd_buf (mem_write (cb_len (hbase h)) (take n p)) h'))"

definition CBB_add_space :: "allocator \<Rightarrow> nat \<Rightarrow> nat \<Rightarrow> cbb_heap \<Rightarrow> cbb_result" where
  "CBB_add_space m a n =
     andthen (CBB_flush m a) (\<lambda>h. Some (cbb_buffer_add m (cbb_base (hcbb h a)) n h))"

definition CBB_add_zeros :: "allocator \<Rightarrow> nat \<Rightarrow> nat \<Rightarrow> cbb_heap \<Rightarrow> cbb_result" where
  "CBB_add_zeros m a n =
     andthen (CBB_add_space m a n) (\<lambda>h.
       Some (True, upd_buf (mem_write (cb_len (hbase h) - n) (replicate n 0)) h))"

definition CBB_reserve :: "allocator \<Rightarrow> nat \<Rightarrow> nat \<Rightarrow> cbb_heap \<Rightarrow> cbb_result" where
  "CBB_reserve m a n =
     andthen (CBB_flush m a) (\<lambda>h. Some (cbb_buffer_reserve m (cbb_base (hcbb h a)) n h))"

definition CBB_did_write :: "nat \<Rightarrow> nat \<Rightarrow> cbb_heap \<Rightarrow> bool \<times> cbb_heap" where
  "CBB_did_write a n h =
     (let newlen = (cb_len (hbase h) + n) mod size_mod
      in if cbb_child (hcbb h a) \<noteq> None \<or> newlen < cb_len (hbase h) \<or> newlen > cb_cap (hbase h)
         then (False, h)
         else (True, h\<lparr>hbase := (hbase h)\<lparr>cb_len := newlen\<rparr>\<rparr>))"

definition cbb_add_u :: "allocator \<Rightarrow> nat \<Rightarrow> u64 \<Rightarrow> nat \<Rightarrow> cbb_heap \<Rightarrow> cbb_result" where
  "cbb_add_u m a v n =
     andthen (CBB_flush m a) (\<lambda>h. Some (cbb_buffer_add_u m (cbb_base (hcbb h a)) v n h))"

definition CBB_add_u8 :: "allocator \<Rightarrow> nat \<Rightarrow> byte \<Rightarrow> cbb_heap \<Rightarrow> cbb_result" where
  "CBB_add_u8 m a v = cbb_add_u m a (ucast v) 1"

definition CBB_add_u16 :: "allocator \<Rightarrow> nat \<Rightarrow> u16 \<Rightarrow> cbb_heap \<Rightarrow> cbb_result" where
  "CBB_add_u16 m a v = cbb_add_u m a (ucast v) 2"

definition CBB_add_u16le :: "allocator \<Rightarrow> nat \<Rightarrow> u16 \<Rightarrow> cbb_heap \<Rightarrow> cbb_result" where
  "CBB_add_u16le m a v = CBB_add_u16 m a (CRYPTO_bswap2 v)"

definition CBB_add_u24 :: "allocator \<Rightarrow> nat \<Rightarrow> u32 \<Rightarrow> cbb_heap \<Rightarrow> cbb_result" where
  "CBB_add_u24 m a v = cbb_add_u m a (ucast v) 3"

definition CBB_add_u32 :: "allocator \<Rightarrow> nat \<Rightarrow> u32 \<Rightarrow> cbb_heap \<Rightarrow> cbb_result" where
  "CBB_add_u32 m a v = cbb_add_u m a (ucast v) 4"

definition CBB_add_u32le :: "allocator \<Rightarrow> nat \<Rightarrow> u32 \<Rightarrow> cbb_heap \<Rightarrow> cbb_result" where
  "CBB_add_u32le m a v = CBB_add_u32 m a (CRYPTO_bswap4 v)"

definition CBB_add_u64 :: "allocator \<Rightarrow> nat \<Rightarrow> u64 \<Rightarrow> cbb_heap \<Rightarrow> cbb_result" where
  "CBB_add_u64 m a v = cbb_add_u m a v 8"

definition CBB_add_u64le :: "allocator \<Rightarrow> nat \<Rightarrow> u64 \<Rightarrow> cbb_heap \<Rightarrow> cbb_result" where
  "CBB_add_u64le m a v = CBB_add_u64 m a (CRYPTO_bswap8 v)"

subsection \<open>Children\<close>

definition open_child :: "nat \<Rightarrow> nat \<Rightarrow> nat \<Rightarrow> nat \<Rightarrow> bool \<Rightarrow> cbb_heap \<Rightarrow> cbb_heap" where
  "open_child a ch offset len_len is_asn1 h =
     upd_cbb a (\<lambda>c. c\<lparr>cbb_child := Some ch\<rparr>)
       (upd_cbb ch (\<lambda>_. \<lparr>cbb_base = cbb_base (hcbb h a), cbb_child = None, cbb_offset = offset,
          cbb_pending_len_len = len_len, cbb_pending_is_asn1 = is_asn1, cbb_is_child = True\<rparr>) h)"

definition cbb_add_length_prefixed :: "allocator \<Rightarrow> nat \<Rightarrow> nat \<Rightarrow> nat \<Rightarrow> cbb_heap \<Rightarrow> cbb_result" where
  "cbb_add_length_prefixed m a out_contents len_len =
     andthen (CBB_flush m a) (\<lambda>h.
       let offset = cb_len (hbase h)
       in case cbb_buffer_add m (cbb_base (hcbb h a)) len_len h of
            (False, h') \<Rightarrow> Some (False, h')
          | (True, h') \<Rightarrow>
              Some (True, open_child a out_contents offset len_len False
                            (upd_buf (mem_write offset (replicate len_len 0)) h')))"

definition CBB_add_u8_length_prefixed :: "allocator \<Rightarrow> nat \<Rightarrow> nat \<Rightarrow> cbb_heap \<Rightarrow> cbb_result" where
  "CBB_add_u8_length_prefixed m a ch = cbb_add_length_prefixed m a ch 1"

definition CBB_add_u16_length_prefixed :: "allocator \<Rightarrow> nat \<Rightarrow> nat \<Rightarrow> cbb_heap \<Rightarrow> cbb_result" where
  "CBB_add_u16_length_prefixed m a ch = cbb_add_length_prefixed m a ch 2"

definition CBB_add_u24_length_prefixed :: "allocator \<Rightarrow> nat \<Rightarrow> nat \<Rightarrow> cbb_heap \<Rightarrow> cbb_result" where
  "CBB_add_u24_length_prefixed m a ch = cbb_add_length_prefixed m a ch 3"

definition CBB_discard_child :: "nat \<Rightarrow> cbb_heap \<Rightarrow> cbb_heap" where
  "CBB_discard_child a h =
     (case cbb_child (hcbb h a) of
        None \<Rightarrow> h
      | Some ch \<Rightarrow>
          upd_cbb a (\<lambda>c. c\<lparr>cbb_child := None\<rparr>)
            (upd_cbb ch (\<lambda>c. c\<lparr>cbb_base := False\<rparr>)
              (h\<lparr>hbase := (hbase h)\<lparr>cb_len := cbb_offset (hcbb h ch)\<rparr>\<rparr>)))"

subsection \<open>ASN.1 elements\<close>

fun base128_len :: "nat \<Rightarrow> nat" where
  "base128_len n = (if n = 0 then 0 else Suc (base128_len (n div 128)))"

declare base128_len.simps [simp del]

fun add_base128_loop :: "allocator \<Rightarrow> nat \<Rightarrow> u64 \<Rightarrow> nat list \<Rightarrow> cbb_heap \<Rightarrow> cbb_result" where
  "add_base128_loop m a v [] h = Some (True, h)"
| "add_base128_loop m a v (i # is) h =
     andthen
       (CBB_add_u8 m a
          (let b = ucast (drop_bit (7 * i) v AND 0x7f) in if i \<noteq> 0 then b OR 0x80 else b))
       (add_base128_loop m a v is) h"

definition add_base128_integer :: "allocator \<Rightarrow> nat \<Rightarrow> u64 \<Rightarrow> cbb_heap \<Rightarrow> cbb_result" where
  "add_base128_integer m a v =
     (let len_len = base128_len (unat v); n = (if len_len = 0 then 1 else len_len)
      in add_base128_loop m a v (rev [0..<n]))"

definition CBB_add_asn1 :: "allocator \<Rightarrow> nat \<Rightarrow> nat \<Rightarrow> u32 \<Rightarrow> cbb_heap \<Rightarrow> cbb_result" where
  "CBB_add_asn1 m a out_contents tag =
     andthen (CBB_flush m a)
       (let tag_bits = ucast (drop_bit 24 tag) AND 0xe0 :: byte;
            tag_number = tag AND CBS_ASN1_TAG_NUMBER_MASK
        in andthen
             (if tag_number \<ge> 0x1f
              then andthen (CBB_add_u8 m a (tag_bits OR 0x1f)) (add_base128_integer m a (ucast tag_number))
              else CBB_add_u8 m a (tag_bits OR ucast tag_number))
             (\<lambda>h. let offset = cb_len (hbase h)
                  in andthen (CBB_add_u8 m a 0)
                       (\<lambda>h'. Some (True, open_child a out_contents offset 1 True h')) h))"

text \<open>The byte loop of \<open>CBB_add_asn1_uint64\<close>: child, value, remaining indices, \<open>started\<close>.\<close>

fun add_uint64_loop :: "allocator \<Rightarrow> nat \<Rightarrow> u64 \<Rightarrow> nat list \<Rightarrow> bool \<Rightarrow> cbb_heap \<Rightarrow> (bool \<times> bool \<times> cbb_heap) option" where
  "add_uint64_loop m ch v [] started h = Some (True, started, h)"
| "add_uint64_loop m ch v (i # is) started h =
     (let b = ucast (drop_bit (8 * (7 - i)) v AND 0xff) :: byte
      in if \<not> started \<and> b = 0 then add_uint64_loop m ch v is False h
         else
           (case (if \<not> started \<and> b AND 0x80 \<noteq> 0 then CBB_add_u8 m ch 0 h else Some (True, h)) of
              None \<Rightarrow> None
            | Some (False, h1) \<Rightarrow> Some (False, started, h1)
            | Some (True, h1) \<Rightarrow>
                (case CBB_add_u8 m ch b h1 of
                   None \<Rightarrow> None
                 | Some (False, h2) \<Rightarrow> Some (False, True, h2)
                 | Some (True, h2) \<Rightarrow> add_uint64_loop m ch v is True h2)))"

definition CBB_add_asn1_uint64 :: "allocator \<Rightarrow> nat \<Rightarrow> nat \<Rightarrow> u64 \<Rightarrow> cbb_heap \<Rightarrow> cbb_result" where
  "CBB_add_asn1_uint64 m a child v =
     andthen (CBB_add_asn1 m a child CBS_ASN1_INTEGER) (\<lambda>h.
       case add_uint64_loop m child v [0..<8] False h of
         None \<Rightarrow> None
       | Some (False, _, h') \<Rightarrow> Some (False, h')
       | Some (True, started, h') \<Rightarrow>
           andthen (if \<not> started then CBB_add_u8 m child 0 else (\<lambda>h. Some (True, h)))
             (CBB_flush m a) h')"

definition le_bytes64 :: "u64 \<Rightarrow> byte list" where
  "le_bytes64 v = rev (be_bytes 8 (unat v))"

fun int64_start :: "byte list \<Rightarrow> nat \<Rightarrow> nat" where
  "int64_start bs 0 = 0"
| "int64_start bs (Suc n) =
     (if bs ! Suc n = 0xff \<and> bs ! n AND 0x80 \<noteq> 0 then int64_start bs n else Suc n)"

fun add_bytes_down :: "allocator \<Rightarrow> nat \<Rightarrow> byte list \<Rightarrow> nat list \<Rightarrow> cbb_heap \<Rightarrow> cbb_result" where
  "add_bytes_down m ch bs [] h = Some (True, h)"
| "add_bytes_down m ch bs (i # is) h = andthen (CBB_add_u8 m ch (bs ! i)) (add_bytes_down m ch bs is) h"

definition CBB_add_asn1_int64 :: "allocator \<Rightarrow> nat \<Rightarrow> nat \<Rightarrow> u64 \<Rightarrow> cbb_heap \<Rightarrow> cbb_result" where
  "CBB_add_asn1_int64 m a child v =
     (if sint v \<ge> 0 then CBB_add_asn1_uint64 m a child v
      else
        (let bs = le_bytes64 v; start = int64_start bs 7
         in andthen (CBB_add_asn1 m a child CBS_ASN1_INTEGER)
              (andthen (add_bytes_down m child bs (rev [0..<Suc start])) (CBB_flush m a))))"

definition CBB_add_asn1_octet_string ::
    "allocator \<Rightarrow> nat \<Rightarrow> nat \<Rightarrow> byte list \<Rightarrow> nat \<Rightarrow> cbb_heap \<Rightarrow> cbb_result" where
  "CBB_add_asn1_octet_string m a child p n =
     andthen (CBB_add_asn1 m a child CBS_ASN1_OCTETSTRING)
       (andthen (CBB_add_bytes m child p n) (CBB_flush m a))"

definition CBB_add_asn1_bool :: "allocator \<Rightarrow> nat \<Rightarrow> nat \<Rightarrow> int \<Rightarrow> cbb_heap \<Rightarrow> cbb_result" where
  "CBB_add_asn1_bool m a child v =
     andthen (CBB_add_asn1 m a child CBS_ASN1_BOOLEAN)
       (andthen (CBB_add_u8 m child (if v \<noteq> 0 then 0xff else 0)) (CBB_flush m a))"

end
