(* ===== verification/Builder_Refinement.thy ===== *)
theory Builder_Refinement
  imports Bytestring_Builder
begin

unbundle bit_operations_syntax

text \<open>
  The abstract view of the builder of \<open>crypto/bytestring/cbb.c\<close> and the proof that the
  pointer structure implements it. Abstractly a builder holds the bytes written so far
  and a stack of open length prefixes, each with the bytes written inside it
  (\<open>collapse\<close> closes them all). \<open>rep\<close> relates a heap to that view along the chain of child
  pointers; \<open>builds\<close> says that an operation on a builder appends given bytes, and is closed
  under sequencing and under nesting in a child.
\<close>

datatype pending = Len_prefix nat | Asn1_prefix

primrec hole :: "pending \<Rightarrow> nat" where
  "hole (Len_prefix k) = k"
| "hole Asn1_prefix = 1"

definition close :: "pending \<Rightarrow> byte list \<Rightarrow> byte list option" where
  "close p body =
     (case p of
        Len_prefix k \<Rightarrow>
          if length body < 256 ^ k then Some (be_bytes k (length body) @ body) else None
      | Asn1_prefix \<Rightarrow>
          if length body \<le> 0xfffffffe then Some (len_bytes (length body) @ body) else None)"

type_synonym frame = "nat \<times> pending \<times> byte list"

fun collapse :: "frame list \<Rightarrow> byte list option" where
  "collapse [] = Some []"
| "collapse ((_, p, body) # fs) =
     (case collapse fs of None \<Rightarrow> None | Some t \<Rightarrow> close p (body @ t))"

fun flat :: "frame list \<Rightarrow> byte list" where
  "flat [] = []"
| "flat ((_, p, body) # fs) = replicate (hole p) 0 @ body @ flat fs"

text \<open>The chain of child pointers from \<open>a\<close>, the first pending prefix being at \<open>pos\<close>.\<close>

fun chain :: "(nat \<Rightarrow> CBB) \<Rightarrow> nat \<Rightarrow> nat \<Rightarrow> frame list \<Rightarrow> bool" where
  "chain H a pos [] = (cbb_child (H a) = None)"
| "chain H a pos ((b, p, body) # fs) =
     (cbb_child (H a) = Some b \<and> cbb_base (H b) \<and> cbb_is_child (H b) \<and> cbb_offset (H b) = pos \<and>
      cbb_pending_len_len (H b) = hole p \<and> cbb_pending_is_asn1 (H b) = (p = Asn1_prefix) \<and>
      0 < hole p \<and> hole p \<le> 8 \<and> chain H b (pos + hole p + length body) fs)"

definition buf_ok :: "cbb_heap \<Rightarrow> byte list \<Rightarrow> bool" where
  "buf_ok h X \<longleftrightarrow>
     \<not> cb_error (hbase h) \<and> cb_len (hbase h) = length X \<and> take (length X) (cb_buf (hbase h)) = X \<and>
     length (cb_buf (hbase h)) = cb_cap (hbase h) \<and> length X \<le> cb_cap (hbase h) \<and> cb_cap (hbase h) < size_mod"

definition rep :: "cbb_heap \<Rightarrow> nat \<Rightarrow> byte list \<Rightarrow> frame list \<Rightarrow> bool" where
  "rep h a P fs \<longleftrightarrow>
     buf_ok h (P @ flat fs) \<and> cbb_base (hcbb h a) \<and> chain (hcbb h) a (length P) fs \<and>
     distinct (a # map fst fs)"

text \<open>An allocator that never fails behind a growable buffer.\<close>

definition generous :: "allocator \<Rightarrow> cbb_heap \<Rightarrow> bool" where
  "generous m h \<longleftrightarrow> cb_can_resize (hbase h) \<and> (\<forall>k n. m k n \<noteq> None)"

definition keeps :: "nat \<Rightarrow> nat set \<Rightarrow> cbb_heap \<Rightarrow> cbb_heap \<Rightarrow> bool" where
  "keeps a S h h' \<longleftrightarrow>
     (\<forall>x. x \<noteq> a \<and> x \<notin> S \<longrightarrow> hcbb h' x = hcbb h x) \<and>
     (\<exists>c. hcbb h' a = (hcbb h a)\<lparr>cbb_child := c\<rparr>) \<and>
     cb_can_resize (hbase h') = cb_can_resize (hbase h)"

subsection \<open>The buffer\<close>

lemma mem_write_snoc:
  assumes "pos + length xs < length buf"
  shows "mem_write pos xs (buf[pos + length xs := y]) = mem_write pos (xs @ [y]) buf"
proof -
  obtain A x B where buf: "buf = A @ x # B" "length A = pos + length xs"
    using assms by (metis id_take_nth_drop length_take less_imp_le_nat min.absorb2)
  then have "buf[pos + length xs := y] = A @ y # B" by (metis list_update_length)
  then show ?thesis using buf by (simp add: mem_write_def)
qed

lemma put_be_eq:
  "pos + k \<le> length buf \<Longrightarrow>
   put_be pos k (buf, v) = (mem_write pos (be_bytes k (unat v)) buf, drop_bit (8 * k) v)"
proof (induction k arbitrary: buf v)
  case (Suc k)
  have high: "unat (drop_bit 8 v) = unat v div 256" unfolding unat_drop_bit_eq by (simp add: drop_bit_eq_div)
  have "put_be pos (Suc k) (buf, v) = put_be pos k (buf[pos + k := ucast v], drop_bit 8 v)"
    by (simp add: put_be_def)
  also have "\<dots> = (mem_write pos (be_bytes k (unat v div 256)) (buf[pos + k := ucast v]), drop_bit (8 * k) (drop_bit 8 v))"
    using Suc.prems by (subst Suc.IH) (simp_all only: high, simp)
  also have "mem_write pos (be_bytes k (unat v div 256)) (buf[pos + k := ucast v]) = mem_write pos (be_bytes (Suc k) (unat v)) buf"
    using mem_write_snoc [of pos "be_bytes k (unat v div 256)" buf "ucast v"] Suc.prems
    by simp
  finally show ?case by (simp add: add.commute)
qed (simp add: put_be_def mem_write_def)

lemma take_mem_write:
  assumes "take (length (X @ Y @ Z)) buf = X @ Y @ Z" "length bs = length Y"
  shows "take (length (X @ Y @ Z)) (mem_write (length X) bs buf) = X @ bs @ Z"
proof -
  obtain R where "buf = (X @ Y @ Z) @ R" using assms(1) by (metis append_take_drop_id)
  then show ?thesis using assms(2) by (simp add: mem_write_def)
qed

lemma add_mod_size_mod:
  assumes "l < size_mod" "n < size_mod"
  shows "(l + n) mod size_mod = (if l + n < size_mod then l + n else l + n - size_mod)"
proof (cases "l + n < size_mod")
  case False
  then have "(l + n) mod size_mod = (l + n - size_mod) mod size_mod" by (intro le_mod_geq) linarith
  also have "\<dots> = l + n - size_mod" using assms by (intro mod_less) linarith
  finally show ?thesis using False by simp
qed simp

lemma reserve_cases:
  assumes ok: "buf_ok h X" and n: "n < size_mod"
  obtains (fail) h' where "cbb_buffer_reserve m True n h = (False, h')" "cb_error (hbase h')"
      "\<not> (generous m h \<and> length X + n < 2 ^ 62)"
  | (success) h' where "cbb_buffer_reserve m True n h = (True, h')" "buf_ok h' X"
      "length X + n \<le> cb_cap (hbase h')" "hcbb h' = hcbb h"
      "cb_can_resize (hbase h') = cb_can_resize (hbase h)"
proof -
  let ?b = "hbase h"
  have b: "cb_len ?b = length X" "length (cb_buf ?b) = cb_cap ?b" "length X \<le> cb_cap ?b"
    "cb_cap ?b < size_mod" "take (length X) (cb_buf ?b) = X" "\<not> cb_error ?b"
    using ok by (simp_all add: buf_ok_def)
  define newlen where "newlen = (cb_len ?b + n) mod size_mod"
  define newcap where "newcap = (let c = (cb_cap ?b * 2) mod size_mod in if c < cb_cap ?b \<or> c < newlen then newlen else c)"
  have nl: "newlen = (if length X + n < size_mod then length X + n else length X + n - size_mod)"
    unfolding newlen_def b(1) using b(3,4) n by (intro add_mod_size_mod) linarith+
  have unf: "cbb_buffer_reserve m True n h =
    (if newlen < cb_len ?b then (False, set_error h)
     else if newlen > cb_cap ?b then
       (if \<not> cb_can_resize ?b then (False, set_error h)
        else (case OPENSSL_realloc m (hallocs h) (Some (cb_buf ?b)) newcap of
                None \<Rightarrow> (False, set_error (h\<lparr>hallocs := Suc (hallocs h)\<rparr>))
              | Some newbuf \<Rightarrow>
                  (True, h\<lparr>hbase := ?b\<lparr>cb_buf := newbuf, cb_cap := newcap\<rparr>, hallocs := Suc (hallocs h)\<rparr>)))
     else (True, h))"
    unfolding cbb_buffer_reserve_def newcap_def newlen_def Let_def by (simp only: not_True_eq_False if_False)
  show thesis
  proof (cases "newlen < cb_len ?b")
    case True
    then have "\<not> length X + n < 2 ^ 62" using nl b(1) by (auto split: if_splits)
    then show thesis using True by (intro fail [of "set_error h"]) (simp_all add: unf)
  next
    case nolt: False
    then have nl': "newlen = length X + n" "newlen < size_mod"
      using nl n b(1) by (auto split: if_splits)
    show thesis
    proof (cases "newlen > cb_cap ?b")
      case False
      then show thesis using nolt nl' ok by (intro success [of h]) (simp_all add: unf)
    next
      case grow: True
      have cap: "newlen \<le> newcap" "newcap < size_mod" using nl'(2) by (auto simp: newcap_def Let_def)
      show thesis
      proof (cases "cb_can_resize ?b")
        case False
        then show thesis using nolt grow by (intro fail [of "set_error h"]) (simp_all add: unf generous_def)
      next
        case True
        show thesis
        proof (cases "OPENSSL_realloc m (hallocs h) (Some (cb_buf ?b)) newcap")
          case None
          have "\<not> (generous m h \<and> length X + n < 2 ^ 62)"
          proof
            assume g: "generous m h \<and> length X + n < 2 ^ 62"
            then have "cb_cap ?b < 2 ^ 62" using grow nl' by linarith
            then have "newcap < 2 ^ 63" using g nl' by (simp add: newcap_def Let_def)
            then show False using realloc_generous [of m newcap "hallocs h" "Some (cb_buf ?b)"] g None
              by (auto simp: generous_def)
          qed
          then show thesis using nolt grow True None
            by (intro fail [of "set_error (h\<lparr>hallocs := Suc (hallocs h)\<rparr>)"]) (simp_all add: unf)
        next
          case (Some buf)
          let ?h = "h\<lparr>hbase := ?b\<lparr>cb_buf := buf, cb_cap := newcap\<rparr>, hallocs := Suc (hallocs h)\<rparr>"
          have len: "length buf = newcap" using Some by (rule OPENSSL_realloc_length)
          have "length X \<le> newcap" using cap nl' by linarith
          then have "take (length X) buf = X"
            using OPENSSL_realloc_prefix [OF Some, of "length X"] b by simp
          then have "buf_ok ?h X" using b cap len \<open>length X \<le> newcap\<close> by (simp add: buf_ok_def)
          then show thesis using nolt grow True Some cap nl'
            by (intro success [of ?h]) (simp_all add: unf)
        qed
      qed
    qed
  qed
qed

lemma add_cases:
  assumes ok: "buf_ok h X" and n: "n < size_mod"
  obtains (fail) h' where "cbb_buffer_add m True n h = (False, h')" "cb_error (hbase h')"
      "\<not> (generous m h \<and> length X + n < 2 ^ 62)"
  | (success) h' J where "cbb_buffer_add m True n h = (True, h')" "buf_ok h' (X @ J)" "length J = n"
      "hcbb h' = hcbb h" "cb_can_resize (hbase h') = cb_can_resize (hbase h)"
  using ok n
proof (cases rule: reserve_cases [where m = m])
  case (fail h')
  then show thesis using that(1) by (simp add: cbb_buffer_add_def)
next
  case (success h')
  let ?h = "h'\<lparr>hbase := (hbase h')\<lparr>cb_len := cb_len (hbase h') + n\<rparr>\<rparr>"
  let ?J = "take n (drop (length X) (cb_buf (hbase h')))"
  have "take (length X + n) (cb_buf (hbase h')) = X @ ?J"
    using success(2) by (simp add: take_add buf_ok_def)
  moreover have "length ?J = n" using success(2,3) by (simp add: buf_ok_def)
  ultimately show thesis
    using success by (intro that(2) [of ?h ?J]) (simp_all add: cbb_buffer_add_def buf_ok_def)
qed

lemma buf_ok_write:
  assumes "buf_ok h (X @ Y @ Z)" "length bs = length Y"
  shows "buf_ok (upd_buf (mem_write (length X) bs) h) (X @ bs @ Z)"
  using assms take_mem_write [of X Y Z "cb_buf (hbase h)" bs] by (simp add: buf_ok_def length_mem_write)

lemma buf_ok_put_be:
  assumes "buf_ok h (X @ Y @ Z)" "length Y = k"
  shows "put_be (length X) k (cb_buf (hbase h), v) =
      (mem_write (length X) (be_bytes k (unat v)) (cb_buf (hbase h)), drop_bit (8 * k) v)"
    "buf_ok (upd_buf (mem_write (length X) (be_bytes k (unat v))) h) (X @ be_bytes k (unat v) @ Z)"
proof -
  show "put_be (length X) k (cb_buf (hbase h), v) =
      (mem_write (length X) (be_bytes k (unat v)) (cb_buf (hbase h)), drop_bit (8 * k) v)"
    using assms by (intro put_be_eq) (simp add: buf_ok_def)
  show "buf_ok (upd_buf (mem_write (length X) (be_bytes k (unat v))) h) (X @ be_bytes k (unat v) @ Z)"
    using assms by (intro buf_ok_write) auto
qed

lemma drop_bit_bytes_eq_0_iff: "drop_bit (8 * k) (v :: u64) = 0 \<longleftrightarrow> unat v < 256 ^ k"
proof -
  have "(2 :: nat) ^ (8 * k) = 256 ^ k" by (simp add: power_mult)
  then show ?thesis by (simp add: drop_bit_eq_0_iff)
qed

lemma add_u_cases:
  assumes ok: "buf_ok h X" and k: "0 < k" "k < size_mod"
  obtains (fail) h' where "cbb_buffer_add_u m True v k h = (False, h')" "cb_error (hbase h')"
      "\<not> (generous m h \<and> length X + k < 2 ^ 62 \<and> unat v < 256 ^ k)"
  | (success) h' where "cbb_buffer_add_u m True v k h = (True, h')" "unat v < 256 ^ k"
      "buf_ok h' (X @ be_bytes k (unat v))" "hcbb h' = hcbb h"
      "cb_can_resize (hbase h') = cb_can_resize (hbase h)"
  using ok k(2)
proof (cases rule: add_cases [where m = m])
  case (fail h')
  then show thesis using k by (intro that(1) [of h']) (auto simp: cbb_buffer_add_u_def)
next
  case (success h' J)
  let ?h = "upd_buf (mem_write (length X) (be_bytes k (unat v))) h'"
  have len: "cb_len (hbase h) = length X" using ok by (simp add: buf_ok_def)
  note pb = buf_ok_put_be [of h' X J "[]" k v, simplified, OF success(2,3)]
  have eq: "cbb_buffer_add_u m True v k h =
      (if drop_bit (8 * k) v \<noteq> 0 then (False, set_error ?h) else (True, ?h))"
    using k success(1) by (simp add: cbb_buffer_add_u_def len pb(1))
  show thesis
  proof (cases "unat v < 256 ^ k")
    case True
    then show thesis using eq success pb(2) drop_bit_bytes_eq_0_iff [of k v]
      by (intro that(2) [of ?h]) simp_all
  next
    case False
    then show thesis using eq drop_bit_bytes_eq_0_iff [of k v]
      by (intro that(1) [of "set_error ?h"]) simp_all
  qed
qed

lemma asn1_len_form_eq:
  assumes "asn1_len_form n = (L, b0, n')" "n \<le> 0xfffffffe"
  shows "len_bytes n = b0 # be_bytes (L - 1) n'" "n' < 256 ^ (L - 1)" "0 < L" "L \<le> 5" "L \<noteq> 1 \<Longrightarrow> n' = n"
proof -
  have nb: "nbytes n = k" if "256 ^ (k - 1) \<le> n" "n < 256 ^ k" "0 < k" for k
    using that by (rule nbytes_eqI)
  consider "n \<le> 0x7f" | "0x7f < n" "n \<le> 0xff" | "0xff < n" "n \<le> 0xffff"
    | "0xffff < n" "n \<le> 0xffffff" | "0xffffff < n" by linarith
  then have "len_bytes n = b0 # be_bytes (L - 1) n' \<and> n' < 256 ^ (L - 1) \<and> 0 < L \<and> L \<le> 5 \<and> (L \<noteq> 1 \<longrightarrow> n' = n)"
  proof cases
    case 1 then show ?thesis using assms by (auto simp: asn1_len_form_def len_bytes_def)
  next
    case 2 then show ?thesis using assms nb [of 1] by (auto simp: asn1_len_form_def len_bytes_def)
  next
    case 3 then show ?thesis using assms nb [of 2] by (auto simp: asn1_len_form_def len_bytes_def)
  next
    case 4 then show ?thesis using assms nb [of 3] by (auto simp: asn1_len_form_def len_bytes_def)
  next
    case 5 then show ?thesis using assms nb [of 4] by (auto simp: asn1_len_form_def len_bytes_def)
  qed
  then show "len_bytes n = b0 # be_bytes (L - 1) n'" "n' < 256 ^ (L - 1)" "0 < L" "L \<le> 5" "L \<noteq> 1 \<Longrightarrow> n' = n"
    by blast+
qed

subsection \<open>Flushing\<close>

lemma flush_write_cases:
  assumes ok: "buf_ok h (X @ Y @ Z)" and ch: "cbb_offset (hcbb h ch) = length X"
    "cbb_pending_len_len (hcbb h ch) = length Y" and n: "n < size_mod"
  obtains (fail) h' where "flush_write_len a ch n h = (False, h')" "cb_error (hbase h')" "\<not> n < 256 ^ length Y"
  | (success) h' where "flush_write_len a ch n h = (True, h')" "n < 256 ^ length Y"
      "buf_ok h' (X @ be_bytes (length Y) n @ Z)"
      "hcbb h' = (hcbb (upd_cbb a (\<lambda>c. c\<lparr>cbb_child := None\<rparr>) (upd_cbb ch (\<lambda>c. c\<lparr>cbb_base := False\<rparr>) h)))"
      "cb_can_resize (hbase h') = cb_can_resize (hbase h)"
proof -
  have w: "unat (word_of_nat n :: u64) = n" using n by (simp add: unat_of_nat)
  note pb = buf_ok_put_be [OF ok refl, of "word_of_nat n", unfolded w]
  let ?h = "upd_buf (mem_write (length X) (be_bytes (length Y) n)) h"
  let ?h' = "upd_cbb a (\<lambda>c. c\<lparr>cbb_child := None\<rparr>) (upd_cbb ch (\<lambda>c. c\<lparr>cbb_base := False\<rparr>) ?h)"
  have zero: "drop_bit (8 * length Y) (word_of_nat n :: u64) = 0 \<longleftrightarrow> n < 256 ^ length Y"
    unfolding drop_bit_bytes_eq_0_iff w ..
  have eq: "flush_write_len a ch n h = (if \<not> n < 256 ^ length Y then (False, set_error ?h) else (True, ?h'))"
    unfolding flush_write_len_def ch pb(1) Let_def prod.case zero ..
  show thesis
  proof (cases "n < 256 ^ length Y")
    case True
    have "buf_ok ?h' (X @ be_bytes (length Y) n @ Z)" using pb(2) by (simp add: buf_ok_def)
    then show thesis using True eq by (intro success [of ?h']) simp_all
  next
    case False
    then show thesis using eq by (intro fail [of "set_error ?h"]) simp_all
  qed
qed

lemma list_update_mem_write: "i < length buf \<Longrightarrow> buf[i := x] = mem_write i [x] buf"
  by (simp add: mem_write_def upd_conv_take_nth_drop)

text \<open>Making room for a long-form length: the contents move up by \<open>k\<close> bytes.\<close>

lemma buf_ok_move:
  assumes ok: "buf_ok h (X @ B @ J)"
  shows "buf_ok (upd_buf (mem_move (length X + length J) (length X) (length B)) h)
    (X @ take (length J) (B @ J) @ B)"
proof -
  let ?K = "take (length J) (B @ J)" and ?Y = "drop (length J) (B @ J)"
  have len: "length (X @ ?K) = length X + length J" by simp
  have all: "take (length (X @ B @ J)) (cb_buf (hbase h)) = X @ B @ J" using ok by (simp add: buf_ok_def)
  have "take (length B) (drop (length X) (take (length (X @ B @ J)) (cb_buf (hbase h)))) = B" unfolding all by simp
  then have move: "mem_move (length X + length J) (length X) (length B) (cb_buf (hbase h)) =
      mem_write (length (X @ ?K)) B (cb_buf (hbase h))"
    unfolding len by (simp add: mem_move_def drop_take)
  have "buf_ok h ((X @ ?K) @ ?Y @ [])"
    using ok by (simp only: append_assoc append_Nil2 append_take_drop_id)
  then have "buf_ok (upd_buf (mem_write (length (X @ ?K)) B) h) ((X @ ?K) @ B @ [])"
    by (rule buf_ok_write) simp
  then show ?thesis using move by (simp add: buf_ok_def)
qed

definition asn1_room :: "allocator \<Rightarrow> bool \<Rightarrow> nat \<Rightarrow> nat \<Rightarrow> nat \<Rightarrow> cbb_heap \<Rightarrow> bool \<times> cbb_heap" where
  "asn1_room m base start L n h =
     (if L \<noteq> 1
      then (case cbb_buffer_add m base (L - 1) h of
              (False, h') \<Rightarrow> (False, h')
            | (True, h') \<Rightarrow> (True, upd_buf (mem_move (start + (L - 1)) start n) h'))
      else (True, h))"

lemma asn1_room_cases:
  assumes ok: "buf_ok h (X @ B)" and L: "0 < L" "L \<le> 5" "L \<noteq> 1 \<longrightarrow> n = length B"
  obtains (fail) h' where "asn1_room m True (length X) L n h = (False, h')" "cb_error (hbase h')"
      "\<not> (generous m h \<and> length (X @ B) + (L - 1) < 2 ^ 62)"
  | (success) h' K where "asn1_room m True (length X) L n h = (True, h')" "buf_ok h' (X @ K @ B)"
      "length K = L - 1" "hcbb h' = hcbb h" "cb_can_resize (hbase h') = cb_can_resize (hbase h)"
proof (cases "L = 1")
  case True
  then show thesis using ok by (intro success [of h "[]"]) (simp_all add: asn1_room_def)
next
  case False
  have "L - 1 < size_mod" using L by simp
  with ok show thesis
  proof (cases rule: add_cases [where m = m])
    case (fail h')
    then show thesis using False that(1) by (simp add: asn1_room_def)
  next
    case (success h' J)
    let ?h = "upd_buf (mem_move (length X + (L - 1)) (length X) n) h'"
    have "buf_ok ?h (X @ take (length J) (B @ J) @ B)"
      using buf_ok_move [of h' X B J] success(2,3) L(3) False by simp
    then show thesis using success False
      by (intro that(2) [of ?h "take (length J) (B @ J)"]) (simp_all add: asn1_room_def)
  qed
qed

lemma flush_child_cases:
  assumes ok: "buf_ok h (P @ replicate (hole p) 0 @ B)" and a: "cbb_base (hcbb h a)" "a \<noteq> b"
    and b: "cbb_offset (hcbb h b) = length P" "cbb_pending_len_len (hcbb h b) = hole p"
      "cbb_pending_is_asn1 (hcbb h b) = (p = Asn1_prefix)"
    and start: "start = length P + hole p"
  obtains (fail) h' where "flush_child m a b start h = (False, h')" "cb_error (hbase h')"
      "\<not> (generous m h \<and> (\<exists>E. close p B = Some E \<and> length (P @ E) < 2 ^ 62))"
  | (success) h' E where "flush_child m a b start h = (True, h')" "close p B = Some E" "buf_ok h' (P @ E)"
      "\<forall>x. x \<noteq> a \<and> x \<noteq> b \<longrightarrow> hcbb h' x = hcbb h x" "hcbb h' a = (hcbb h a)\<lparr>cbb_child := None\<rparr>"
      "cb_can_resize (hbase h') = cb_can_resize (hbase h)"
proof -
  have n: "cb_len (hbase h) - start = length B" using ok start by (simp add: buf_ok_def)
  have small: "length B < size_mod" using ok by (simp add: buf_ok_def)
  show thesis
  proof (cases p)
    case (Len_prefix k)
    have eq: "flush_child m a b start h = flush_write_len a b (length B) h"
      using b(3) Len_prefix n by (simp add: flush_child_def Let_def)
    have len: "length (replicate (hole p) (0 :: byte)) = k" by (simp add: Len_prefix)
    have "cbb_pending_len_len (hcbb h b) = length (replicate (hole p) (0 :: byte))" using b by simp
    from ok b(1) this small show thesis
    proof (cases rule: flush_write_cases [where a = a])
      case (fail h')
      then show thesis using eq unfolding len by (intro that(1)) (auto simp: close_def Len_prefix)
    next
      case (success h')
      then show thesis using eq a unfolding len
        by (intro that(2) [of h' "be_bytes k (length B) @ B"]) (simp_all add: close_def Len_prefix)
    qed
  next
    case Asn1_prefix
    show thesis
    proof (cases "length B > 0xfffffffe")
      case True
      then have "flush_child m a b start h = (False, set_error h)"
        using b(3) Asn1_prefix n by (simp add: flush_child_def Let_def)
      then show thesis using True by (intro that(1) [of "set_error h"]) (simp_all add: close_def Asn1_prefix)
    next
      case False
      obtain L b0 n' where form: "asn1_len_form (length B) = (L, b0, n')" by (cases "asn1_len_form (length B)") auto
      have "length B \<le> 0xfffffffe" using False by simp
      note lf = asn1_len_form_eq [OF form this]
      define E where "E = (b0 # be_bytes (L - 1) n') @ B"
      have close: "close p B = Some E" using False lf(1) by (simp add: close_def Asn1_prefix E_def)
      have eq: "flush_child m a b start h =
          (let (ok, h1) = asn1_room m (cbb_base (hcbb h a)) start L n' h
           in if \<not> ok then (False, set_error h1)
              else flush_write_len a b n'
                (upd_cbb b (\<lambda>c. c\<lparr>cbb_offset := cbb_offset c + 1, cbb_pending_len_len := L - 1\<rparr>)
                  (upd_buf (\<lambda>x. x[cbb_offset (hcbb h1 b) := b0]) h1)))"
        using False b(3) Asn1_prefix unfolding flush_child_def n asn1_room_def Let_def form prod.case
        by (simp only: not_True_eq_False if_False refl)
      have X: "length (P @ [0 :: byte]) = start" using start by (simp add: Asn1_prefix)
      have room: "buf_ok h ((P @ [0]) @ B)" using ok by (simp add: Asn1_prefix)
      have same: "L \<noteq> 1 \<longrightarrow> n' = length B" using lf(5) by blast
      from room lf(3,4) same show thesis
      proof (cases rule: asn1_room_cases [where m = m])
        case (fail h')
        have "length (P @ E) = length ((P @ [0]) @ B) + (L - 1)" by (simp add: E_def)
        then show thesis using fail eq a unfolding X
          by (intro that(1) [of "set_error h'"]) (simp_all add: close add.assoc)
      next
        case (success h1 K)
        let ?h = "upd_cbb b (\<lambda>c. c\<lparr>cbb_offset := cbb_offset c + 1, cbb_pending_len_len := L - 1\<rparr>)
                  (upd_buf (\<lambda>x. x[cbb_offset (hcbb h1 b) := b0]) h1)"
        have "buf_ok h1 (P @ [0] @ K @ B)" using success(2) by simp
        then have "buf_ok (upd_buf (mem_write (length P) [b0]) h1) (P @ [b0] @ K @ B)"
          by (rule buf_ok_write) simp
        moreover have "(cb_buf (hbase h1))[length P := b0] = mem_write (length P) [b0] (cb_buf (hbase h1))"
          using success(2) by (intro list_update_mem_write) (simp add: buf_ok_def)
        ultimately have h: "buf_ok ?h ((P @ [b0]) @ K @ B)" using success(4) b by (simp add: buf_ok_def)
        have eq': "flush_child m a b start h = flush_write_len a b n' ?h"
          using eq success(1) a unfolding X by simp
        have "L - 1 \<le> 4" using lf(4) by simp
        then have "(256 :: nat) ^ (L - 1) \<le> 256 ^ 4" by (rule power_increasing) simp
        then have "n' < size_mod" using lf(2) by simp
        then show thesis
        proof (rule flush_write_cases [OF h, where a = a and ch = b, rotated 2])
          show "cbb_offset (hcbb ?h b) = length (P @ [b0])" using success(4) b by simp
          show "cbb_pending_len_len (hcbb ?h b) = length K" using success(3) by simp
        next
          fix h' assume "\<not> n' < 256 ^ length K"
          then show thesis using lf(2) success(3) by simp
        next
          fix h' assume h': "flush_write_len a b n' ?h = (True, h')" "buf_ok h' ((P @ [b0]) @ be_bytes (length K) n' @ B)"
            "hcbb h' = hcbb (upd_cbb a (\<lambda>c. c\<lparr>cbb_child := None\<rparr>) (upd_cbb b (\<lambda>c. c\<lparr>cbb_base := False\<rparr>) ?h))"
            "cb_can_resize (hbase h') = cb_can_resize (hbase ?h)"
          show thesis
            using h' eq' close a success(3-5)
            by (intro that(2) [of h' E]) (simp_all add: E_def)
        qed
      qed
    qed
  qed
qed

lemma chain_cong:
  "(\<And>x. x \<in> set (map fst fs) \<Longrightarrow> H' x = H x) \<Longrightarrow> cbb_child (H' a) = cbb_child (H a) \<Longrightarrow>
   chain H' a pos fs = chain H a pos fs"
proof (induction fs arbitrary: a pos)
  case (Cons f fs)
  obtain b p body where f: "f = (b, p, body)" by (cases f) auto
  have "H' b = H b" using Cons.prems(1) [of b] f by simp
  moreover have "chain H' b q fs = chain H b q fs" for q
    using Cons.prems(1) calculation by (intro Cons.IH) simp_all
  ultimately show ?case using Cons.prems(2) f by simp
qed simp

lemma rep_child:
  assumes "rep h a P ((b, p, body) # fs)"
  shows "rep h b (P @ replicate (hole p) 0 @ body) fs"
  using assms by (simp add: rep_def add.assoc)

text \<open>
  \<open>CBB_flush\<close> always returns on a represented heap. On success the open prefixes have been
  closed into the buffer; a failure is recorded in the sticky error flag, and only happens
  when a prefix overflows or memory runs out.
\<close>

lemma flush_cases:
  assumes "rep h a P fs"
  obtains (fail) h' where "CBB_flush m a h = Some (False, h')" "cb_error (hbase h')"
      "\<not> (generous m h \<and> (\<exists>t. collapse fs = Some t \<and> length (P @ t) < 2 ^ 62))"
  | (success) h' t where "CBB_flush m a h = Some (True, h')" "collapse fs = Some t" "rep h' a (P @ t) []"
      "keeps a (set (map fst fs)) h h'"
  using assms
proof (induction fs arbitrary: a P thesis)
  case Nil
  have "CBB_flush m a h = Some (True, h)"
    using Nil.prems(3) by (subst CBB_flush.simps) (simp add: rep_def buf_ok_def)
  then show ?case using Nil.prems(3) by (intro Nil.prems(2) [of h "[]"]) (simp_all add: keeps_def, metis CBB.surjective CBB.update_convs(2))
next
  case (Cons f fs)
  obtain b p body where f: "f = (b, p, body)" by (cases f) auto
  let ?Q = "P @ replicate (hole p) 0 @ body" and ?start = "length P + hole p"
  have r: "rep h a P ((b, p, body) # fs)" using Cons.prems(3) f by simp
  have H: "cbb_child (hcbb h a) = Some b" "cbb_pending_len_len (hcbb h b) = hole p" "0 < hole p"
    "cbb_offset (hcbb h b) = length P" "cbb_pending_is_asn1 (hcbb h b) = (p = Asn1_prefix)"
    "cbb_base (hcbb h a)" "\<not> cb_error (hbase h)" "a \<noteq> b" "a \<notin> fst ` set fs" "b \<notin> fst ` set fs"
    using r by (auto simp: rep_def buf_ok_def)
  have "?start \<le> length (P @ flat (f # fs))" by (simp add: f)
  moreover have "length (P @ flat (f # fs)) < size_mod" using r f unfolding rep_def buf_ok_def by simp
  ultimately have start: "?start mod size_mod = ?start" by (intro mod_less) linarith
  have eq: "CBB_flush m a h = Option.bind (CBB_flush m b h) (\<lambda>r.
      if \<not> fst r \<or> ?start < cbb_offset (hcbb (snd r) b) \<or> cb_len (hbase (snd r)) < ?start
      then Some (False, set_error (snd r)) else Some (flush_child m a b ?start (snd r)))"
    using H by (subst CBB_flush.simps) (simp only: Let_def start option.case not_True_eq_False if_False, simp)
  show ?case
  proof (rule Cons.IH [of b ?Q])
    show "rep h b ?Q fs" using r by (rule rep_child)
  next
    fix h1 assume "CBB_flush m b h = Some (False, h1)" and h1: "cb_error (hbase h1)"
      and no: "\<not> (generous m h \<and> (\<exists>t. collapse fs = Some t \<and> length (?Q @ t) < 2 ^ 62))"
    then have "CBB_flush m a h = Some (False, set_error h1)" using eq by simp
    moreover have "length (?Q @ t) \<le> length (P @ E)" if "close p (body @ t) = Some E" for t E
      using that len_bytes_nonempty [of "length (body @ t)"]
      by (cases p; cases "len_bytes (length (body @ t))") (auto simp: close_def split: if_splits)
    then have "\<not> (generous m h \<and> (\<exists>E. collapse (f # fs) = Some E \<and> length (P @ E) < 2 ^ 62))"
      using no f by (fastforce split: option.splits)
    ultimately show ?case by (intro Cons.prems(1) [of "set_error h1"]) simp_all
  next
    fix h1 t assume h1: "CBB_flush m b h = Some (True, h1)" "collapse fs = Some t" "rep h1 b (?Q @ t) []"
      "keeps b (set (map fst fs)) h h1"
    have ok: "buf_ok h1 (P @ replicate (hole p) 0 @ (body @ t))" using h1(3) by (simp add: rep_def)
    have Hb: "hcbb h1 a = hcbb h a" "cb_can_resize (hbase h1) = cb_can_resize (hbase h)"
      using h1(4) H by (auto simp: keeps_def)
    have b: "cbb_offset (hcbb h1 b) = length P" "cbb_pending_len_len (hcbb h1 b) = hole p"
      "cbb_pending_is_asn1 (hcbb h1 b) = (p = Asn1_prefix)"
      using h1(4) H by (auto simp: keeps_def)
    have eq': "CBB_flush m a h = Some (flush_child m a b ?start h1)"
      using eq h1(1) b ok by (simp add: buf_ok_def)
    have a: "cbb_base (hcbb h1 a)" using H(6) Hb by simp
    show ?case
    proof (rule flush_child_cases [OF ok a H(8) b refl, of m])
      fix h' assume "flush_child m a b ?start h1 = (False, h')" "cb_error (hbase h')"
        "\<not> (generous m h1 \<and> (\<exists>E. close p (body @ t) = Some E \<and> length (P @ E) < 2 ^ 62))"
      then show ?case using eq' h1(2) f Hb(2) by (intro Cons.prems(1) [of h']) (simp_all add: generous_def)
    next
      fix h' E assume h': "flush_child m a b ?start h1 = (True, h')" "close p (body @ t) = Some E" "buf_ok h' (P @ E)"
        "\<forall>x. x \<noteq> a \<and> x \<noteq> b \<longrightarrow> hcbb h' x = hcbb h1 x" "hcbb h' a = (hcbb h1 a)\<lparr>cbb_child := None\<rparr>"
        "cb_can_resize (hbase h') = cb_can_resize (hbase h1)"
      then show ?case using eq' h1(2,4) f Hb a
        by (intro Cons.prems(2) [of h' E]) (auto simp: rep_def keeps_def)
    qed
  qed
qed

end
