(* ===== verification/Builder_Operations.thy ===== *)
theory Builder_Operations
  imports Builder_Refinement
begin

unbundle bit_operations_syntax

text \<open>
  Every operation of the builder against its abstract effect. \<open>works m a S fs op out new\<close>: run
  on a heap where \<open>fs\<close> are the open prefixes below builder \<open>a\<close>, the operation returns; if it
  succeeds it has closed them, appended the bytes \<open>out\<close> and opened the prefixes \<open>new\<close>, and it
  has left all other builders alone, except those of \<open>S\<close> that it uses as children; if it fails, the error flag is set, and that only
  happens when \<open>out\<close> is undefined, a prefix overflows or memory runs out. \<open>does\<close> is the same
  for every \<open>fs\<close>.
\<close>

definition works :: "allocator \<Rightarrow> nat \<Rightarrow> nat set \<Rightarrow> frame list \<Rightarrow> (cbb_heap \<Rightarrow> cbb_result) \<Rightarrow> byte list option \<Rightarrow> frame list \<Rightarrow> bool" where
  "works m a S fs op out new \<longleftrightarrow>
     (\<forall>h P. rep h a P fs \<longrightarrow>
       (\<exists>h'. op h = Some (False, h') \<and> cb_error (hbase h') \<and>
          \<not> (generous m h \<and> (\<exists>t bs. collapse fs = Some t \<and> out = Some bs \<and> length (P @ t @ bs @ flat new) < 2 ^ 62))) \<or>
       (\<exists>h' t bs. op h = Some (True, h') \<and> collapse fs = Some t \<and> out = Some bs \<and>
          rep h' a (P @ t @ bs) new \<and> keeps a (set (map fst fs) \<union> S) h h'))"

abbreviation does :: "allocator \<Rightarrow> nat \<Rightarrow> nat set \<Rightarrow> (cbb_heap \<Rightarrow> cbb_result) \<Rightarrow> byte list option \<Rightarrow> frame list \<Rightarrow> bool" where
  "does m a S op out new \<equiv> \<forall>fs. works m a S fs op out new"

lemma worksI:
  assumes "\<And>h P. rep h a P fs \<Longrightarrow>
      (\<exists>h'. op h = Some (False, h') \<and> cb_error (hbase h') \<and>
          \<not> (generous m h \<and> (\<exists>t bs. collapse fs = Some t \<and> out = Some bs \<and> length (P @ t @ bs @ flat new) < 2 ^ 62))) \<or>
       (\<exists>h' t bs. op h = Some (True, h') \<and> collapse fs = Some t \<and> out = Some bs \<and>
          rep h' a (P @ t @ bs) new \<and> keeps a (set (map fst fs) \<union> S) h h')"
  shows "works m a S fs op out new"
  using assms by (simp add: works_def)

lemma worksE:
  assumes "works m a S fs op out new" "rep h a P fs"
  obtains (fail) h' where "op h = Some (False, h')" "cb_error (hbase h')"
      "\<not> (generous m h \<and> (\<exists>t bs. collapse fs = Some t \<and> out = Some bs \<and> length (P @ t @ bs @ flat new) < 2 ^ 62))"
  | (success) h' t bs where "op h = Some (True, h')" "collapse fs = Some t" "out = Some bs"
      "rep h' a (P @ t @ bs) new" "keeps a (set (map fst fs) \<union> S) h h'"
  using assms unfolding works_def by blast

subsection \<open>Composition\<close>

lemma keeps_trans: "keeps a S h h1 \<Longrightarrow> keeps a T h1 h2 \<Longrightarrow> keeps a (S \<union> T) h h2"
  by (auto simp: keeps_def)

lemma generous_keeps: "keeps a S h h' \<Longrightarrow> generous m h' = generous m h"
  by (simp add: keeps_def generous_def)

lemma keeps_mono: "keeps a S h h' \<Longrightarrow> S \<subseteq> T \<Longrightarrow> keeps a T h h'"
  by (auto simp: keeps_def)

lemma works_flush: "works m a S fs (CBB_flush m a) (Some []) []"
proof (rule worksI)
  fix h P assume "rep h a P fs"
  then show "(\<exists>h'. CBB_flush m a h = Some (False, h') \<and> cb_error (hbase h') \<and>
      \<not> (generous m h \<and> (\<exists>t bs. collapse fs = Some t \<and> Some [] = Some bs \<and> length (P @ t @ bs @ flat [])  < 2 ^ 62))) \<or>
    (\<exists>h' t bs. CBB_flush m a h = Some (True, h') \<and> collapse fs = Some t \<and> Some [] = Some bs \<and>
      rep h' a (P @ t @ bs) [] \<and> keeps a (set (map fst fs) \<union> S) h h')"
    by (cases rule: flush_cases [where m = m]) (auto intro: keeps_mono)
qed

lemma works_then:
  assumes f: "works m a S fs f (Some bs) []" and g: "works m a S [] g out new"
  shows "works m a S fs (andthen f g) (map_option (append bs) out) new"
proof (rule worksI, goal_cases)
  case (1 h P)
  from f 1 show ?case
  proof (cases rule: worksE)
    case (fail h')
    then show ?thesis by (intro disjI1 exI [of _ h']) (auto simp: andthen_def)
  next
    case (success h1 t bs')
    note f = success
    from g f(4) show ?thesis
    proof (cases rule: worksE)
      case (fail h')
      then show ?thesis using f generous_keeps [OF f(5), of m]
        by (intro disjI1 exI [of _ h']) (auto simp: andthen_def)
    next
      case (success h2 t2 bs2)
      then show ?thesis using f keeps_trans [OF f(5) success(5)]
        by (intro disjI2 exI [of _ h2] exI [of _ t] exI [of _ "bs @ bs2"]) (auto simp: andthen_def)
    qed
  qed
qed

lemma works_flush_then:
  assumes "works m a S [] g out new"
  shows "does m a S (andthen (CBB_flush m a) g) out new"
proof
  fix fs
  have "map_option (append []) out = out" by (cases out) simp_all
  then show "works m a S fs (andthen (CBB_flush m a) g) out new"
    using works_then [OF works_flush assms, of fs] by simp
qed

lemma andthen_assoc: "andthen (andthen f g) k = andthen f (andthen g k)"
  by (rule ext) (auto simp: andthen_def split: option.splits)

text \<open>A builder in the middle of a chain: what an operation on it does to the whole.\<close>

lemma chain_append:
  "chain H r pos (fs @ (a, p, body) # gs) \<longleftrightarrow>
     chain (H(a := (H a)\<lparr>cbb_child := None\<rparr>)) r pos (fs @ [(a, p, body)]) \<and>
     chain H a (pos + length (flat fs) + hole p + length body) gs"
  if "distinct (r # map fst (fs @ (a, p, body) # gs))"
  using that
proof (induction fs arbitrary: r pos)
  case (Cons f fs)
  obtain b q c where f: "f = (b, q, c)" by (cases f) auto
  show ?case using Cons.prems Cons.IH [of b "pos + hole q + length c"] by (auto simp: f add.assoc)
qed auto

lemma flat_append [simp]: "flat (fs @ gs) = flat fs @ flat gs"
  by (induction fs) auto

lemma chain_last_body: "chain H r pos (fs @ [(a, p, body)]) = chain H r pos (fs @ [(a, p, body')])"
  by (induction fs arbitrary: r pos) auto

lemma chain_base_last: "chain H r pos (fs @ [(a, p, body)]) \<Longrightarrow> cbb_base (H a)"
  by (induction fs arbitrary: r pos) auto

lemma rep_descend:
  assumes "rep h r P (fs @ (a, p, body) # gs)"
  shows "rep h a (P @ flat fs @ replicate (hole p) 0 @ body) gs"
proof -
  have d: "distinct (r # map fst (fs @ (a, p, body) # gs))" using assms by (simp add: rep_def)
  have "chain ((hcbb h)(a := (hcbb h a)\<lparr>cbb_child := None\<rparr>)) r (length P) (fs @ [(a, p, body)])"
    using assms by (simp add: rep_def chain_append [OF d])
  then have "cbb_base (hcbb h a)" using chain_base_last by fastforce
  then show ?thesis using assms by (auto simp: rep_def chain_append [OF d] add.assoc)
qed

lemma rep_focus:
  assumes r: "rep h r P (fs @ (a, p, body) # gs)"
    and r': "rep h' a (P @ flat fs @ replicate (hole p) 0 @ body @ bs) new"
    and k: "keeps a (set (map fst gs) \<union> S) h h'"
    and new: "S \<inter> ({r} \<union> set (map fst fs)) = {}" "set (map fst new) \<subseteq> S"
  shows "rep h' r P (fs @ (a, p, body @ bs) # new)"
proof -
  have d: "distinct (r # map fst (fs @ (a, p, body) # gs))" using r by (simp add: rep_def)
  have d': "distinct (r # map fst (fs @ (a, p, body @ bs) # new))"
    using d new r' by (auto simp: rep_def)
  let ?H = "\<lambda>h. (hcbb h)(a := (hcbb h a)\<lparr>cbb_child := None\<rparr>)"
  have same: "?H h' x = ?H h x" if "x \<in> {r} \<union> set (map fst (fs @ [(a, p, body)]))" for x
  proof (cases "x = a")
    case False
    then have "x \<in> {r} \<union> set (map fst fs)" using that by auto
    then have "x \<notin> set (map fst gs) \<union> S" using d new by auto
    then show ?thesis using False k unfolding keeps_def by simp
  qed (use k in \<open>auto simp: keeps_def\<close>)
  have "chain (?H h) r (length P) (fs @ [(a, p, body)])"
    using r by (simp add: rep_def chain_append [OF d])
  moreover have "chain (?H h') r (length P) (fs @ [(a, p, body)]) = chain (?H h) r (length P) (fs @ [(a, p, body)])"
  proof (rule chain_cong)
    show "?H h' x = ?H h x" if "x \<in> set (map fst (fs @ [(a, p, body)]))" for x
      using that by (intro same) blast
    have "?H h' r = ?H h r" by (rule same) simp
    then show "cbb_child (?H h' r) = cbb_child (?H h r)" by (rule arg_cong)
  qed
  ultimately have "chain (?H h') r (length P) (fs @ [(a, p, body)])" by (simp only:)
  then have "chain (hcbb h') r (length P) (fs @ (a, p, body @ bs) # new)"
    using r' by (simp add: chain_append [OF d'] chain_last_body [of _ _ _ _ _ _ "body @ bs" body] rep_def add.assoc)
  moreover have "hcbb h' r = hcbb h r" using k d new by (auto simp: keeps_def)
  ultimately show ?thesis using r r' d' by (simp add: rep_def)
qed

subsection \<open>Operations on the buffer\<close>

lemma works_buffer:
  assumes g: "\<And>h X. buf_ok h X \<Longrightarrow>
      (\<exists>h'. g True h = (False, h') \<and> cb_error (hbase h') \<and>
         \<not> (generous m h \<and> (\<exists>bs. out = Some bs \<and> length X + length bs < 2 ^ 62))) \<or>
      (\<exists>h' bs. g True h = (True, h') \<and> out = Some bs \<and> buf_ok h' (X @ bs) \<and> hcbb h' = hcbb h \<and>
         cb_can_resize (hbase h') = cb_can_resize (hbase h))"
  shows "works m a S [] (\<lambda>h. Some (g (cbb_base (hcbb h a)) h)) out []"
proof (rule worksI, goal_cases)
  case (1 h P)
  then have h: "buf_ok h P" "cbb_base (hcbb h a)" "cbb_child (hcbb h a) = None" by (simp_all add: rep_def)
  have same: "\<exists>c. hcbb h a = (hcbb h a)\<lparr>cbb_child := c\<rparr>" by (metis CBB.surjective CBB.update_convs(2))
  from g [OF h(1)] show ?case
  proof (elim disjE exE conjE, goal_cases)
    case (1 h')
    then show ?case using h by (intro disjI1 exI [of _ h']) auto
  next
    case (2 h' bs)
    then show ?case using h same
      by (intro disjI2 exI [of _ h'] exI [of _ "[]"] exI [of _ bs]) (simp add: rep_def keeps_def)
  qed
qed

lemma works_add_bytes:
  assumes "n \<le> length p" "n < size_mod"
  shows "does m a S (CBB_add_bytes m a p n) (Some (take n p)) []"
proof -
  define g where "g base h = (case cbb_buffer_add m base n h of (False, h') \<Rightarrow> (False, h')
    | (True, h') \<Rightarrow> (True, upd_buf (mem_write (cb_len (hbase h)) (take n p)) h'))" for base and h :: cbb_heap
  have "works m a S [] (\<lambda>h. Some (g (cbb_base (hcbb h a)) h)) (Some (take n p)) []"
  proof (rule works_buffer, goal_cases)
    case (1 h X)
    have len: "cb_len (hbase h) = length X" using 1 by (simp add: buf_ok_def)
    from 1 assms(2) show ?case
    proof (cases rule: add_cases [where m = m])
      case (fail h')
      then show ?thesis using assms(1) by (intro disjI1 exI [of _ h']) (simp add: g_def)
    next
      case (success h' J)
      have "buf_ok (upd_buf (mem_write (length X) (take n p)) h') (X @ take n p @ [])"
        using success(2,3) assms(1) by (intro buf_ok_write [where Y = J]) simp_all
      then show ?thesis using success len
        by (intro disjI2 exI [of _ "upd_buf (mem_write (length X) (take n p)) h'"]) (simp add: g_def)
    qed
  qed
  moreover have "(\<lambda>h. case cbb_buffer_add m (cbb_base (hcbb h a)) n h of (False, h') \<Rightarrow> Some (False, h')
      | (True, h') \<Rightarrow> Some (True, upd_buf (mem_write (cb_len (hbase h)) (take n p)) h')) =
      (\<lambda>h. Some (g (cbb_base (hcbb h a)) h))"
    by (rule ext) (simp add: g_def split: prod.splits bool.splits)
  ultimately show ?thesis unfolding CBB_add_bytes_def by (intro works_flush_then) simp
qed

lemma works_add_zeros:
  assumes "n < size_mod"
  shows "does m a S (CBB_add_zeros m a n) (Some (replicate n 0)) []"
proof -
  define g where "g base h = (case cbb_buffer_add m base n h of (False, h') \<Rightarrow> (False, h')
    | (True, h') \<Rightarrow> (True, upd_buf (mem_write (cb_len (hbase h') - n) (replicate n 0)) h'))" for base and h :: cbb_heap
  have "works m a S [] (\<lambda>h. Some (g (cbb_base (hcbb h a)) h)) (Some (replicate n 0)) []"
  proof (rule works_buffer, goal_cases)
    case (1 h X)
    from 1 assms show ?case
    proof (cases rule: add_cases [where m = m])
      case (fail h')
      then show ?thesis by (intro disjI1 exI [of _ h']) (simp add: g_def)
    next
      case (success h' J)
      have "buf_ok (upd_buf (mem_write (length X) (replicate n 0)) h') (X @ replicate n 0 @ [])"
        using success(2,3) by (intro buf_ok_write [where Y = J]) simp_all
      moreover have "cb_len (hbase h') - n = length X" using success(2,3) by (simp add: buf_ok_def)
      ultimately show ?thesis using success
        by (intro disjI2 exI [of _ "upd_buf (mem_write (length X) (replicate n 0)) h'"]) (simp add: g_def)
    qed
  qed
  moreover have "andthen (\<lambda>h. Some (cbb_buffer_add m (cbb_base (hcbb h a)) n h))
      (\<lambda>h. Some (True, upd_buf (mem_write (cb_len (hbase h) - n) (replicate n 0)) h)) =
      (\<lambda>h. Some (g (cbb_base (hcbb h a)) h))"
    by (rule ext) (simp add: g_def andthen_def split: prod.splits bool.splits)
  ultimately show ?thesis
    unfolding CBB_add_zeros_def CBB_add_space_def andthen_assoc by (intro works_flush_then) simp
qed

lemma works_add_u:
  assumes "0 < k" "k \<le> 8"
  shows "does m a S (cbb_add_u m a v k) (if unat v < 256 ^ k then Some (be_bytes k (unat v)) else None) []"
  unfolding cbb_add_u_def
proof (rule works_flush_then, rule works_buffer, goal_cases)
  case (1 h X)
  have "k < size_mod" using assms by simp
  with 1 assms(1) show ?case
  proof (cases rule: add_u_cases [where m = m and v = v])
    case (fail h')
    then show ?thesis by (intro disjI1 exI [of _ h']) (auto split: if_splits)
  next
    case (success h')
    then show ?thesis by (intro disjI2 exI [of _ h']) simp
  qed
qed

lemma works_add_u8: "does m a S (CBB_add_u8 m a v) (Some [v]) []"
proof -
  have u: "unat (ucast v :: u64) = unat v" by simp
  have "be_bytes 1 (unat v) = [v]" by simp
  then show ?thesis
    using works_add_u [of 1 m a S "ucast v"] byte_bound [of v] unfolding CBB_add_u8_def u by simp
qed

subsection \<open>Children\<close>

lemma rep_open_child:
  assumes ok: "buf_ok h (P @ replicate k 0)" and a: "cbb_base (hcbb h a)" "ch \<noteq> a" and k: "0 < k" "k \<le> 8"
    and p: "hole p = k" "asn1 = (p = Asn1_prefix)"
  shows "rep (open_child a ch (length P) k asn1 h) a P [(ch, p, [])]"
    "keeps a {ch} h (open_child a ch (length P) k asn1 h)"
  using assms by (auto simp: rep_def open_child_def keeps_def buf_ok_def)

lemma works_add_length_prefixed:
  assumes "ch \<noteq> a" "0 < k" "k \<le> 8" "ch \<in> S"
  shows "does m a S (cbb_add_length_prefixed m a ch k) (Some []) [(ch, Len_prefix k, [])]"
  unfolding cbb_add_length_prefixed_def
proof (rule works_flush_then, rule worksI, goal_cases)
  case (1 h P)
  then have h: "buf_ok h P" "cbb_base (hcbb h a)" "cb_len (hbase h) = length P"
    by (simp_all add: rep_def buf_ok_def)
  have "k < size_mod" using assms by simp
  with h(1) show ?case
  proof (cases rule: add_cases [where m = m])
    case (fail h')
    then show ?thesis using h by (intro disjI1 exI [of _ h']) (simp add: Let_def)
  next
    case (success h' J)
    let ?h = "upd_buf (mem_write (length P) (replicate k 0)) h'"
    have "buf_ok ?h (P @ replicate k 0 @ [])" using success(2,3) by (intro buf_ok_write [where Y = J]) simp_all
    then have ok: "buf_ok ?h (P @ replicate k 0)" by simp
    have a: "cbb_base (hcbb ?h a)" using success(4) h(2) by simp
    note oc = rep_open_child [OF ok a assms(1-3), of "Len_prefix k" False]
    have "keeps a S h (open_child a ch (length P) k False ?h)"
      using oc(2) success(4,5) assms(4) by (auto simp: keeps_def)
    then show ?thesis using h success oc(1)
      by (intro disjI2 exI [of _ "open_child a ch (length P) k False ?h"]) (simp add: Let_def)
  qed
qed

lemma close_length: "close p body = Some E \<Longrightarrow> hole p + length body \<le> length E"
  using len_bytes_nonempty [of "length body"]
  by (cases p; cases "len_bytes (length body)") (auto simp: close_def split: if_splits)

lemma collapse_length: "collapse fs = Some t \<Longrightarrow> length (flat fs) \<le> length t"
proof (induction fs arbitrary: t)
  case (Cons f fs)
  obtain b p body where f: "f = (b, p, body)" by (cases f) auto
  obtain u where u: "collapse fs = Some u" "close p (body @ u) = Some t"
    using Cons.prems f by (auto split: option.splits)
  show ?case using Cons.IH [OF u(1)] close_length [OF u(2)] f by simp
qed simp

text \<open>Writing inside a child that was just opened, and closing what is open.\<close>

lemma works_fill:
  assumes f: "works m a S fs f (Some pre) [(ch, p, [])]" and g: "works m ch S [] g (Some body) []"
    and S: "ch \<in> S" "a \<notin> S"
  shows "works m a S fs (andthen f g) (Some pre) [(ch, p, body)]"
proof (rule worksI, goal_cases)
  case (1 h P)
  from f 1 show ?case
  proof (cases rule: worksE)
    case (fail h')
    then show ?thesis by (intro disjI1 exI [of _ h']) (auto simp: andthen_def)
  next
    case (success h1 t bs)
    note f = success
    have "rep h1 ch ((P @ t @ pre) @ replicate (hole p) 0) []"
      using rep_child [OF f(4)] f(3) by simp
    from g this show ?thesis
    proof (cases rule: worksE)
      case (fail h')
      then show ?thesis using f generous_keeps [OF f(5), of m]
        by (intro disjI1 exI [of _ h']) (auto simp: andthen_def add.assoc)
    next
      case (success h2 t2 bs2)
      note g = success
      have ne: "a \<noteq> ch" using S by auto
      have "rep h2 a (P @ t @ pre) ([] @ (ch, p, [] @ body) # [])"
        using rep_focus [of h1 a "P @ t @ pre" "[]" ch p "[]" "[]" h2 body "[]" S] f g S ne by simp
      moreover have "keeps a (set (map fst fs) \<union> S) h h2" using f(5) g(5) ne S by (auto simp: keeps_def)
      ultimately show ?thesis using f g
        by (intro disjI2 exI [of _ h2] exI [of _ t] exI [of _ pre]) (simp add: andthen_def)
    qed
  qed
qed

lemma works_close:
  assumes f: "works m a S fs f (Some pre) new" and S: "set (map fst new) \<subseteq> S"
  shows "works m a S fs (andthen f (CBB_flush m a)) (map_option (append pre) (collapse new)) []"
proof (rule worksI, goal_cases)
  case (1 h P)
  from f 1 show ?case
  proof (cases rule: worksE)
    case (fail h')
    then show ?thesis using collapse_length [of new]
      by (intro disjI1 exI [of _ h']) (fastforce simp: andthen_def)
  next
    case (success h1 t bs)
    note f = success
    from f(4) show ?thesis
    proof (cases rule: flush_cases [where m = m])
      case (fail h')
      then show ?thesis using f generous_keeps [OF f(5), of m]
        by (intro disjI1 exI [of _ h']) (auto simp: andthen_def)
    next
      case (success h2 E)
      have "keeps a (set (map fst fs) \<union> S) h h2"
        using keeps_trans [OF f(5) success(4)] S by (elim keeps_mono) auto
      then show ?thesis using f success
        by (intro disjI2 exI [of _ h2] exI [of _ t] exI [of _ "pre @ E"]) (auto simp: andthen_def)
    qed
  qed
qed

lemma works_child:
  assumes f: "works m a S fs f (Some pre) [(ch, p, [])]" and g: "works m ch S [] g (Some body) []"
    and S: "ch \<in> S" "a \<notin> S"
  shows "works m a S fs (andthen f (andthen g (CBB_flush m a))) (map_option (append pre) (close p body)) []"
  using works_close [OF works_fill [OF assms]] S by (simp add: andthen_assoc)

end
