(* ===== verification/Asn1_Values.thy ===== *)
theory Asn1_Values
  imports Asn1_Reader
begin

unbundle bit_operations_syntax

text \<open>
  What the ASN.1 reader of \<open>crypto/bytestring/cbs.c\<close> returns, stated on the bytes of the
  input: the element readers accept exactly the distinguished encodings, a BER or DER
  element never reaches outside the reader it came from, and the INTEGER and BOOLEAN
  readers accept exactly the minimal encodings of the values they return.
\<close>

subsection \<open>Elements and their contents\<close>

lemma CBS_get_any_asn1_complete:
  assumes "t < 2 ^ 32" "length body < 2 ^ 32" "cbs_bytes c = der t body @ rest" "cbs_wf c"
  shows "\<exists>out. CBS_get_any_asn1 c = (Some (out, word_of_nat t), adv (length (der t body)) c) \<and>
    cbs_bytes out = body \<and> cbs_wf out"
proof -
  let ?n = "length (der t body)" and ?hl = "length (der_header t (length body))"
  let ?v = "cbs_view ?n c"
  have n: "?n \<le> length (cbs_bytes c)" using assms(3) by simp
  have v: "cbs_bytes ?v = der t body" "cbs_wf ?v"
    using n assms by (simp_all add: cbs_bytes_view cbs_wf_view)
  moreover have "?hl \<le> ?n" by (simp add: length_der)
  ultimately have skip: "CBS_skip ?v ?hl = (Some (), adv ?hl ?v)" by (simp add: CBS_skip_eq)
  show ?thesis
    unfolding CBS_get_any_asn1_def CBS_get_any_asn1_element_complete [OF assms] prod.case option.case skip
    using v by (intro exI [of _ "adv ?hl ?v"]) (simp add: der_def)
qed

lemma CBS_get_any_asn1_sound:
  assumes "CBS_get_any_asn1 c = (Some (out, tag), c')" "cbs_wf c"
  shows "\<exists>body. length body < 2 ^ 32 \<and> cbs_bytes c = der (unat tag) body @ cbs_bytes c' \<and>
    cbs_bytes out = body \<and> cbs_wf out \<and> c' = adv (length (der (unat tag) body)) c"
proof -
  obtain e hl where e: "CBS_get_any_asn1_element c = (Some (e, tag, hl), c')"
    using assms(1) by (auto simp: CBS_get_any_asn1_def split: option.splits prod.splits)
  obtain body where b: "length body < 2 ^ 32" "cbs_bytes c = der (unat tag) body @ cbs_bytes c'"
    "c' = adv (length (der (unat tag) body)) c"
    using CBS_get_any_asn1_element_sound [OF e assms(2)] by blast
  have "unat tag < 2 ^ 32" using unsigned_less [of tag, where ?'a = nat] by simp
  from CBS_get_any_asn1_complete [OF this b(1,2) assms(2)] show ?thesis
    using assms(1) b by auto
qed

text \<open>Every element reader is \<open>CBS_get_any_asn1_element\<close> with a check of the tag.\<close>

lemma CBS_get_asn1_via_any:
  "CBS_get_asn1 c t =
     (case CBS_get_any_asn1 c of
        (None, c') \<Rightarrow> (None, c')
      | (Some (out, tag), c') \<Rightarrow> if tag \<noteq> t then (None, c') else (Some out, c'))"
  by (auto simp: CBS_get_asn1_def cbs_get_asn1_def CBS_get_any_asn1_def
      split: option.splits prod.splits)

lemma CBS_get_asn1_complete:
  assumes "length body < 2 ^ 32" "cbs_bytes c = der (unat t) body @ rest" "cbs_wf c"
  shows "\<exists>out. CBS_get_asn1 c t = (Some out, adv (length (der (unat t) body)) c) \<and>
    cbs_bytes out = body \<and> cbs_wf out"
proof -
  have "unat t < 2 ^ 32" using unsigned_less [of t, where ?'a = nat] by simp
  from CBS_get_any_asn1_complete [OF this assms] show ?thesis
    by (auto simp: CBS_get_asn1_via_any)
qed

lemma CBS_get_asn1_sound:
  assumes "CBS_get_asn1 c t = (Some out, c')" "cbs_wf c"
  shows "\<exists>body. length body < 2 ^ 32 \<and> cbs_bytes c = der (unat t) body @ cbs_bytes c' \<and>
    cbs_bytes out = body \<and> cbs_wf out \<and> c' = adv (length (der (unat t) body)) c"
proof -
  have "CBS_get_any_asn1 c = (Some (out, t), c')"
    using assms(1) by (auto simp: CBS_get_asn1_via_any split: option.splits prod.splits if_splits)
  from CBS_get_any_asn1_sound [OF this assms(2)] show ?thesis .
qed

lemma CBS_get_asn1_E:
  assumes "CBS_get_asn1 c t = (Some out, c')" "cbs_wf c"
  obtains body where "length body < 2 ^ 32" "cbs_bytes c = der (unat t) body @ cbs_bytes c'"
    "cbs_bytes out = body" "cbs_wf out" "cbs_wf c'"
proof -
  from CBS_get_asn1_sound [OF assms] obtain body where b: "length body < 2 ^ 32"
    "cbs_bytes c = der (unat t) body @ cbs_bytes c'" "cbs_bytes out = body" "cbs_wf out"
    "c' = adv (length (der (unat t) body)) c" by blast
  have "cbs_wf c'" using b(5) assms(2) by simp
  with b(1-4) show thesis by (rule that)
qed

lemma der_prefix_free:
  assumes "der t body @ rest = der t' body' @ rest'" "t < 2 ^ 32" "t' < 2 ^ 32"
    "length body < 2 ^ 32" "length body' < 2 ^ 32"
  shows "t = t' \<and> body = body' \<and> rest = rest'"
proof -
  have wf: "cbs_wf (CBS_init bs (length bs))" if "length bs < size_mod" for bs
    using that by (rule cbs_wf_init)
  have hdr: "length (der_header u n) \<le> 11" if "n < 2 ^ 32" for u n
    using length_tag_bytes [of u] nbytes_le [of n 4] that
    by (auto simp: length_der_header length_len_bytes)
  let ?m = "max (length (der t body)) (length (der t' body'))"
  let ?bs = "take ?m (der t body @ rest)"
  have l: "length ?bs < size_mod"
    using hdr [OF assms(4), of t] hdr [OF assms(5), of t'] assms(4,5) by (simp add: length_der)
  have a: "cbs_bytes (CBS_init ?bs (length ?bs)) = der t body @ take (?m - length (der t body)) rest"
    unfolding cbs_bytes_init by simp
  have b: "cbs_bytes (CBS_init ?bs (length ?bs)) = der t' body' @ take (?m - length (der t' body')) rest'"
    unfolding cbs_bytes_init assms(1) by simp
  from CBS_get_any_asn1_complete [OF assms(2,4) a wf [OF l]]
    CBS_get_any_asn1_complete [OF assms(3,5) b wf [OF l]]
  have "body = body'" "(word_of_nat t :: u32) = word_of_nat t'" by auto
  moreover have "unat (word_of_nat u :: u32) = u" if "u < 2 ^ 32" for u
    using that by (simp add: unat_of_nat)
  ultimately have "t = t'" using assms(2,3) by metis
  then show ?thesis using \<open>body = body'\<close> assms(1) by simp
qed

subsection \<open>Bounds: an element lies inside its reader\<close>

lemma parse_asn1_tag_bounds:
  assumes "parse_asn1_tag c = (Some tag, h)" "cbs_wf c"
  shows "h = adv (length (tag_bytes (unat tag))) c" "length (tag_bytes (unat tag)) \<le> 6"
  using parse_asn1_tag_sound [OF assms] length_tag_bytes by auto

lemma cbs_get_any_asn1_element_bounds:
  assumes get: "cbs_get_any_asn1_element c ber = (Some (out, tag, hl, found), c')" and wf: "cbs_wf c"
  shows "\<exists>n \<le> length (cbs_bytes c). hl \<le> n \<and> 0 < hl \<and> out = cbs_view n c \<and> c' = adv n c"
proof -
  obtain h where tag: "parse_asn1_tag c = (Some tag, h)" using element_tag [OF get] by blast
  note h = parse_asn1_tag_bounds [OF tag wf]
  obtain b xs where "cbs_bytes h = b # xs"
    using get tag h wf by (cases "cbs_bytes h") (auto simp: cbs_get_any_asn1_element_def CBS_get_u8_eq)
  from element_eq [OF wf tag [unfolded h(1)] h(2) this [unfolded h(1)], of ber]
  obtain hl' l found' where "0 < hl'" "element_result c tag hl' l found' = (Some (out, tag, hl, found), c')"
    using get by (auto simp: Let_def split: if_splits)
  then show ?thesis
    by (intro exI [of _ "hl' + l"]) (auto simp: element_result_def split: if_splits)
qed

lemma cbs_get_any_asn1_element_fail:
  assumes "cbs_get_any_asn1_element c ber = (None, c')"
  shows "c' = c"
proof -
  obtain t h where tag: "parse_asn1_tag c = (t, h)" by (cases "parse_asn1_tag c")
  show ?thesis
  proof (cases t)
    case (Some tag)
    obtain u g where u8: "CBS_get_u8 h = (u, g)" by (cases "CBS_get_u8 h")
    then show ?thesis
      using assms unfolding cbs_get_any_asn1_element_def tag Some u8 Let_def prod.case option.case
        CBS_get_bytes_cases
      by (cases u) (auto split: if_splits option.splits prod.splits)
  qed (use assms in \<open>simp add: cbs_get_any_asn1_element_def tag\<close>)
qed

lemma parse_base128_len_decreases:
  "parse_base128_loop c v = (Some w, c') \<Longrightarrow> cbs_len c' < cbs_len c"
proof (induction c v rule: parse_base128_loop.induct)
  case (1 c v)
  obtain b d where "CBS_get_u8 c = (b, d)" by (cases "CBS_get_u8 c")
  then show ?case
    using 1 CBS_get_u8_len_decreases [of c _ d]
    by (subst (asm) (2) parse_base128_loop.simps)
       (force split: option.splits if_splits simp: Let_def)
qed

text \<open>Loops over the elements of a reader end, because every element takes some bytes.\<close>

lemma parse_asn1_tag_len_decreases:
  assumes "parse_asn1_tag c = (Some t, c')"
  shows "cbs_len c' < cbs_len c"
proof -
  obtain b d where b: "CBS_get_u8 c = (b, d)" by (cases "CBS_get_u8 c")
  then obtain x where x: "b = Some x" using assms by (cases b) (simp_all add: parse_asn1_tag_def)
  then have "cbs_len d < cbs_len c" using b CBS_get_u8_len_decreases by simp
  then show ?thesis
    using assms b x parse_base128_len_decreases [of d 0 _ c']
    by (auto simp: parse_asn1_tag_def Let_def parse_base128_integer_def split: if_splits option.splits prod.splits)
qed

lemma CBS_get_any_asn1_element_len_decreases:
  assumes "CBS_get_any_asn1_element c = (Some r, c')"
  shows "cbs_len c' < cbs_len c"
proof -
  obtain t h where tag: "parse_asn1_tag c = (t, h)" by (cases "parse_asn1_tag c")
  then obtain t' where t': "t = Some t'"
    using assms by (cases t) (simp_all add: CBS_get_any_asn1_element_def cbs_get_any_asn1_element_def)
  obtain u g where u8: "CBS_get_u8 h = (u, g)" by (cases "CBS_get_u8 h")
  then obtain b where b: "u = Some b"
    using assms tag t' by (cases u) (simp_all add: CBS_get_any_asn1_element_def cbs_get_any_asn1_element_def)
  have pos: "0 < CBS_len c - CBS_len g"
    using parse_asn1_tag_len_decreases [of c t' h] CBS_get_u8_len_decreases [of h b g] tag t' u8 b by (simp add: CBS_len_def)
  have adv: "cbs_len (adv n c) < cbs_len c" if "0 < n" "\<not> cbs_len c < n" for n
    using that by (simp add: adv_def)
  have len: "\<not> w < 128 \<Longrightarrow> \<not> n < unat w \<Longrightarrow> 0 < n" for w :: u64 and n
    by (simp add: word_less_nat_alt)
  show ?thesis
    using assms pos unfolding CBS_get_any_asn1_element_def cbs_get_any_asn1_element_def tag t' u8 b Let_def prod.case option.case
      CBS_get_bytes_cases
    by (auto split: if_splits option.splits prod.splits intro!: adv intro: len)
qed

subsection \<open>INTEGER contents\<close>

definition int_val :: "byte list \<Rightarrow> int" where
  "int_val bs = int (be_val bs) - (if 128 \<le> unat (hd bs) then 256 ^ length bs else 0)"

fun int_min :: "byte list \<Rightarrow> bool" where
  "int_min [] = False"
| "int_min [b] = True"
| "int_min (b # d # bs) =
     (\<not> (unat b = 0 \<and> unat d < 128) \<and> \<not> (unat b = 255 \<and> 128 \<le> unat d))"

lemma int_be_val_bound: "int (be_val bs) < 256 ^ length bs"
proof -
  have "int (be_val bs) < int (256 ^ length bs)" using be_val_bound [of bs] by (rule of_nat_less_iff [THEN iffD2])
  then show ?thesis by simp
qed

lemma int_val_bounds:
  assumes "bs \<noteq> []"
  shows "- (128 * 256 ^ (length bs - 1)) \<le> int_val bs" "int_val bs < 128 * 256 ^ (length bs - 1)"
proof -
  from assms obtain b cs where bs: "bs = b # cs" by (cases bs) auto
  let ?p = "256 ^ length cs :: int"
  have v: "int (be_val bs) = int (unat b) * ?p + int (be_val cs)" by (simp add: bs be_val_Cons)
  have c: "int (be_val cs) < ?p" by (rule int_be_val_bound)
  have b: "int (unat b) < 256" using byte_bound [of b] by linarith
  have *: "- (128 * ?p) \<le> int_val bs \<and> int_val bs < 128 * ?p"
  proof (cases "128 \<le> unat b")
    case True
    then have val: "int_val bs = (int (unat b) - 256) * ?p + int (be_val cs)"
      using v bs by (simp add: int_val_def algebra_simps)
    have "- 128 \<le> int (unat b) - 256" using True by linarith
    then have "- 128 * ?p \<le> (int (unat b) - 256) * ?p" by (rule mult_right_mono) simp
    moreover have "(int (unat b) - 256) * ?p \<le> - 1 * ?p" using b by (intro mult_right_mono) auto
    ultimately show ?thesis using val c of_nat_0_le_iff [of "be_val cs"] by (intro conjI; linarith)
  next
    case False
    have "int (unat b) \<le> 127" using False by linarith
    then have "int (unat b) * ?p \<le> 127 * ?p" by (rule mult_right_mono) simp
    moreover have "int_val bs = int (unat b) * ?p + int (be_val cs)"
      using v False bs by (simp add: int_val_def)
    moreover have "0 \<le> int (unat b) * ?p" by simp
    ultimately show ?thesis using c of_nat_0_le_iff [of "be_val cs"] by (intro conjI; linarith)
  qed
  then show "- (128 * 256 ^ (length bs - 1)) \<le> int_val bs" "int_val bs < 128 * 256 ^ (length bs - 1)"
    using bs by simp_all
qed

lemma int_min_lower:
  assumes "int_min bs" "length bs = Suc (Suc n)"
  shows "128 * 256 ^ n \<le> int_val bs \<or> int_val bs < - (128 * 256 ^ n)"
proof -
  obtain b d cs where bs: "bs = b # d # cs" "length cs = n"
    using assms(2) by (metis length_Suc_conv)
  let ?p = "256 ^ n :: int"
  have v: "int (be_val bs) = (int (unat b) * 256 + int (unat d)) * ?p + int (be_val cs)"
    using bs(2) by (simp add: bs(1) be_val_Cons algebra_simps)
  have c: "int (be_val cs) < ?p" using int_be_val_bound [of cs] bs(2) by simp
  have bd: "int (unat b) < 256" "int (unat d) < 256"
    using byte_bound [of b] byte_bound [of d] by linarith+
  show ?thesis
  proof (cases "128 \<le> unat b")
    case True
    have "int (unat b) * 256 + int (unat d) - 65536 \<le> - 129"
    proof -
      have "unat b \<noteq> 255 \<or> unat d < 128" using assms(1) bs(1) by auto
      then show ?thesis using bd by linarith
    qed
    then have "(int (unat b) * 256 + int (unat d) - 65536) * ?p \<le> - 129 * ?p" by (intro mult_right_mono) auto
    moreover have "int_val bs = (int (unat b) * 256 + int (unat d) - 65536) * ?p + int (be_val cs)"
      using v True bs by (simp add: int_val_def algebra_simps)
    ultimately show ?thesis using c by (intro disjI2) linarith
  next
    case False
    have "128 \<le> int (unat b) * 256 + int (unat d)"
    proof -
      have "unat b \<noteq> 0 \<or> 128 \<le> unat d" using assms(1) bs(1) by auto
      then show ?thesis using bd by linarith
    qed
    then have "128 * ?p \<le> (int (unat b) * 256 + int (unat d)) * ?p" by (intro mult_right_mono) auto
    moreover have "int_val bs = (int (unat b) * 256 + int (unat d)) * ?p + int (be_val cs)"
      using v False bs(1) by (simp add: int_val_def)
    ultimately show ?thesis using of_nat_0_le_iff [of "be_val cs"] by (intro disjI1) linarith
  qed
qed

lemma int_min_length:
  assumes "int_min bs" "- (128 * 256 ^ k) \<le> int_val bs" "int_val bs < 128 * 256 ^ k"
  shows "length bs \<le> Suc k"
proof (rule ccontr)
  assume "\<not> ?thesis"
  then obtain n where n: "length bs = Suc (Suc n)" "k \<le> n"
    by (metis Suc_le_D not_less_eq_eq not_less_eq Suc_le_mono)
  have "(256 :: int) ^ k \<le> 256 ^ n" using n(2) by (intro power_increasing) simp_all
  then show False using int_min_lower [OF assms(1) n(1)] assms(2,3) by linarith
qed

lemma int_min_unique:
  assumes "int_min as" "int_min bs" "int_val as = int_val bs"
  shows "as = bs"
proof -
  have ne: "as \<noteq> []" "bs \<noteq> []" using assms(1,2) by auto
  have "length as \<le> Suc (length bs - 1)" "length bs \<le> Suc (length as - 1)"
    using int_val_bounds [OF ne(1)] int_val_bounds [OF ne(2)] assms
    by (intro int_min_length; simp)+
  then have l: "length as = length bs" using ne by (cases as; cases bs) auto
  have "int (be_val as) = int (be_val bs)"
    using assms(3) [unfolded int_val_def l] int_be_val_bound [of as] int_be_val_bound [of bs]
    unfolding l by (cases "128 \<le> unat (hd as)"; cases "128 \<le> unat (hd bs)"; simp only: if_True if_False; linarith)
  then show ?thesis using l by (intro be_val_inj) simp_all
qed

lemma CBS_is_valid_asn1_integer_eq:
  assumes "cbs_wf c"
  shows "CBS_is_valid_asn1_integer c =
    (if int_min (cbs_bytes c) then Some (128 \<le> unat (hd (cbs_bytes c))) else None)"
proof -
  have eq: "b = 0 \<longleftrightarrow> unat b = 0" "b = 0xff \<longleftrightarrow> unat b = 255" for b :: byte
    by (auto intro: word_eqI_unat)
  show ?thesis
  proof (cases "cbs_bytes c" rule: int_min.cases)
    case (3 b d bs)
    then have "cbs_bytes (adv 1 c) = d # bs" by simp
    then show ?thesis
      using assms 3 by (simp add: CBS_is_valid_asn1_integer_def CBS_get_u8_eq byte_and_80 eq [of b] not_less)
  qed (use assms in \<open>auto simp: CBS_is_valid_asn1_integer_def CBS_get_u8_eq byte_and_80 not_less\<close>)
qed

lemma asn1_uint64_loop_eq:
  assumes "i \<le> n" "n \<le> length p"
  shows "asn1_uint64_loop p [i..<n] out =
    (let v = unat out * 256 ^ (n - i) + be_val (drop i (take n p))
     in if v < 2 ^ 64 then Some (word_of_nat v) else None)"
  using assms
proof (induction "n - i" arbitrary: i out)
  case 0
  then show ?case using unsigned_less [of out, where ?'a = nat] by (simp add: Let_def)
next
  case (Suc k)
  let ?v = "unat out * 256 ^ (n - i) + be_val (drop i (take n p))"
  have ni: "n - i = Suc k" "n - Suc i = k" using Suc.hyps(2) by simp_all
  have d: "drop i (take n p) = p ! i # drop (Suc i) (take n p)"
    using ni Suc.prems by (subst Cons_nth_drop_Suc [symmetric]) auto
  have "length (drop (Suc i) (take n p)) = k" using ni Suc.prems by simp
  then have v: "?v = (unat out * 256 + unat (p ! i)) * 256 ^ k + be_val (drop (Suc i) (take n p))"
    by (simp add: d be_val_Cons ni algebra_simps)
  have loop: "asn1_uint64_loop p [i..<n] out =
    (if unat out < 2 ^ 56 then asn1_uint64_loop p [Suc i..<n] (push_bit 8 out OR ucast (p ! i)) else None)"
    using ni drop_bit_eq_0_iff [of 56 out] by (simp add: upt_conv_Cons)
  show ?case
  proof (cases "unat out < 2 ^ 56")
    case True
    then show ?thesis
      using Suc.hyps(1) [of "Suc i" "push_bit 8 out OR ucast (p ! i)"] ni Suc.prems loop v
      by (simp add: unat_shl8_or Let_def)
  next
    case False
    have "2 ^ 56 * 256 ^ Suc k \<le> unat out * 256 ^ Suc k" using False by (intro mult_right_mono) simp_all
    moreover have "(2 :: nat) ^ 64 \<le> 2 ^ 56 * 256 ^ Suc k" by simp
    ultimately have "2 ^ 64 \<le> unat out * 256 ^ Suc k" by (rule order_trans [rotated])
    then have "\<not> ?v < 2 ^ 64" unfolding ni(1) by linarith
    then show ?thesis using loop False by (simp add: Let_def)
  qed
qed

lemma int_val_neg_iff: "bs \<noteq> [] \<Longrightarrow> int_val bs < 0 \<longleftrightarrow> 128 \<le> unat (hd bs)"
  using int_be_val_bound [of bs] by (simp add: int_val_def)

lemma CBS_get_asn1_uint64_sound:
  assumes "CBS_get_asn1_uint64 c = (Some v, c')" "cbs_wf c"
  shows "\<exists>bs. cbs_bytes c = der 2 bs @ cbs_bytes c' \<and> int_min bs \<and> int_val bs = int (unat v)"
proof -
  obtain out where get: "CBS_get_asn1 c CBS_ASN1_INTEGER = (Some out, c')"
    and u: "CBS_is_unsigned_asn1_integer out"
    and l: "asn1_uint64_loop (CBS_data out) [0..<CBS_len out] 0 = Some v"
    using assms(1) by (auto simp: CBS_get_asn1_uint64_def split: option.splits prod.splits if_splits)
  from get assms(2) obtain bs where b: "cbs_bytes c = der 2 bs @ cbs_bytes c'" "cbs_bytes out = bs" "cbs_wf out"
    by (rule CBS_get_asn1_E) simp
  have mn: "int_min bs" and hd: "\<not> 128 \<le> unat (hd bs)"
    using u b by (auto simp: CBS_is_unsigned_asn1_integer_def CBS_is_valid_asn1_integer_eq split: if_splits)
  have "take (CBS_len out) (CBS_data out) = bs" "CBS_len out \<le> length (CBS_data out)"
    using b(2,3) by (simp_all add: cbs_bytes_def cbs_wf_def CBS_len_def CBS_data_def)
  then have "be_val bs < 2 ^ 64" "v = word_of_nat (be_val bs)"
    using l asn1_uint64_loop_eq [of 0 "CBS_len out" "CBS_data out" 0] by (auto simp: Let_def split: if_splits)
  then have "int_val bs = int (unat v)" using hd by (simp add: int_val_def unat_of_nat)
  then show ?thesis using b(1) mn by blast
qed

lemma CBS_get_asn1_uint64_complete:
  assumes "cbs_bytes c = der 2 bs @ rest" "int_min bs" "int_val bs = int (unat (v :: u64))" "cbs_wf c"
  shows "CBS_get_asn1_uint64 c = (Some v, adv (length (der 2 bs)) c)"
proof -
  have vb: "unat v < 2 ^ 64" using unsigned_less [of v, where ?'a = nat] by simp
  then have "int_val bs < int (2 ^ 64)" unfolding assms(3) by (rule of_nat_less_iff [THEN iffD2])
  moreover have "0 \<le> int_val bs" using assms(3) by simp
  ultimately have "int_val bs < 128 * 256 ^ 8" "- (128 * 256 ^ 8) \<le> int_val bs" by simp_all
  then have "length bs \<le> Suc 8" using assms(2) by (intro int_min_length) simp_all
  then have "length bs < 2 ^ 32" by simp
  from CBS_get_asn1_complete [OF this, of c 2] assms(1,4) obtain out where
    out: "CBS_get_asn1 c CBS_ASN1_INTEGER = (Some out, adv (length (der 2 bs)) c)" "cbs_bytes out = bs" "cbs_wf out"
    by auto
  have "\<not> int_val bs < 0" using assms(3) by simp
  then have hd: "\<not> 128 \<le> unat (hd bs)" using assms(2) int_val_neg_iff [of bs] by (cases bs) auto
  then have bv: "be_val bs = unat v" using assms(3) unfolding int_val_def by (simp only: if_False)
  have "take (CBS_len out) (CBS_data out) = bs" "CBS_len out \<le> length (CBS_data out)"
    using out(2,3) by (simp_all add: cbs_bytes_def cbs_wf_def CBS_len_def CBS_data_def)
  then have "asn1_uint64_loop (CBS_data out) [0..<CBS_len out] 0 = Some v"
    using asn1_uint64_loop_eq [of 0 "CBS_len out" "CBS_data out" 0] bv vb by (simp add: Let_def)
  moreover have "CBS_is_unsigned_asn1_integer out"
    using out hd assms(2) by (simp add: CBS_is_unsigned_asn1_integer_def CBS_is_valid_asn1_integer_eq)
  ultimately show ?thesis by (simp add: CBS_get_asn1_uint64_def out(1))
qed

subsection \<open>Signed integers\<close>

lemma foldl_update_prefix:
  assumes "n \<le> length u"
  shows "foldl (\<lambda>u i. u[i := f i]) u [0..<n] = map f [0..<n] @ drop n u"
  using assms
proof (induction n)
  case (Suc n)
  then have "drop n u = u ! n # drop (Suc n) u" by (simp add: Cons_nth_drop_Suc)
  with Suc show ?case by (simp add: list_update_append)
qed simp

lemma map_rev_nth: "n \<le> length p \<Longrightarrow> map (\<lambda>i. p ! (n - i - 1)) [0..<n] = rev (take n p)"
  by (rule nth_equalityI) (auto simp: rev_nth)

lemma unat_ff [simp]: "unat (0xff :: byte) = 255"
  by simp

lemma be_val_zeros: "be_val (replicate k 0 @ bs) = be_val bs"
  by (induction k) (simp_all add: be_val_Cons)

lemma be_val_ones: "be_val (replicate k 0xff @ bs) + 256 ^ length bs = 256 ^ (k + length bs) + be_val bs"
proof (induction k)
  case (Suc k)
  have "be_val (replicate (Suc k) 0xff @ bs) = 255 * 256 ^ (k + length bs) + be_val (replicate k 0xff @ bs)"
    by (simp only: replicate_Suc append_Cons be_val_Cons unat_ff length_append length_replicate)
  then show ?case using Suc by simp
qed simp

lemma sint_word_of_nat:
  assumes "n < 2 ^ 64"
  shows "sint (word_of_nat n :: u64) = (if n < 2 ^ 63 then int n else int n - 2 ^ 64)"
proof -
  have "sint (word_of_nat n :: u64) = take_bit (Suc 63) (int n) - 2 ^ Suc 63 * of_bool (bit (int n) 63)"
    by (simp only: signed_of_nat signed_take_bit_eq_take_bit_minus [symmetric]) simp
  moreover have "take_bit 64 (int n) = int n" using assms by (intro take_bit_int_eq_self) simp_all
  moreover have "bit (int n) 63 \<longleftrightarrow> \<not> n < 2 ^ 63"
  proof -
    have "n div 2 ^ 63 < 2" using assms by (simp add: div_less_iff_less_mult)
    then have "odd (n div 2 ^ 63) \<longleftrightarrow> n div 2 ^ 63 \<noteq> 0" by (cases "n div 2 ^ 63") auto
    moreover have "bit (int n) 63 \<longleftrightarrow> bit n 63" by (simp add: bit_of_nat_iff)
    ultimately show ?thesis by (simp add: bit_iff_odd div_eq_0_iff)
  qed
  ultimately show ?thesis by simp
qed

lemma CBS_get_asn1_int64_eq:
  assumes get: "CBS_get_asn1 c CBS_ASN1_INTEGER = (Some out, c')" and b: "cbs_bytes out = bs" "cbs_wf out"
  shows "CBS_get_asn1_int64 c =
    (if int_min bs \<and> length bs \<le> 8
     then (Some (word_of_nat (be_val (replicate (8 - length bs) (if 128 \<le> unat (hd bs) then 0xff else 0) @ bs))), c')
     else (None, c'))"
proof -
  have d: "take (CBS_len out) (CBS_data out) = bs" "CBS_len out \<le> length (CBS_data out)" "CBS_len out = length bs"
    using b by (auto simp: cbs_bytes_def cbs_wf_def CBS_len_def CBS_data_def)
  have "foldl (\<lambda>u i. u[i := CBS_data out ! (length bs - i - 1)]) (replicate 8 x) [0..<length bs] =
      rev bs @ replicate (8 - length bs) x" if "length bs \<le> 8" for x :: byte
    using that d map_rev_nth [of "length bs" "CBS_data out"]
    by (simp add: foldl_update_prefix)
  then show ?thesis
    using b d(3) by (simp add: CBS_get_asn1_int64_def get CBS_is_valid_asn1_integer_eq Let_def le_word64_def)
qed

lemma int64_value:
  assumes "int_min bs" "length bs \<le> 8"
  shows "sint (word_of_nat (be_val (replicate (8 - length bs) (if 128 \<le> unat (hd bs) then 0xff else 0) @ bs)) :: u64)
    = int_val bs"
proof -
  have ne: "bs \<noteq> []" using assms(1) by auto
  define n where "n = be_val (replicate (8 - length bs) (if 128 \<le> unat (hd bs) then 0xff else 0) @ bs)"
  have "n < 256 ^ 8"
    using be_val_bound [of "replicate (8 - length bs) (if 128 \<le> unat (hd bs) then 0xff else 0) @ bs"] assms(2)
    by (simp add: n_def)
  then have n: "n < 2 ^ 64" by simp
  have "(256 :: int) ^ (length bs - 1) \<le> 256 ^ 7" using assms(2) by (intro power_increasing) simp_all
  then have p: "(256 :: int) ^ (length bs - 1) \<le> 72057594037927936" by simp
  have v: "- 9223372036854775808 \<le> int_val bs" "int_val bs < 9223372036854775808"
    using int_val_bounds [OF ne] p by - linarith+
  show ?thesis
  proof (cases "128 \<le> unat (hd bs)")
    case True
    have "n + 256 ^ length bs = 256 ^ 8 + be_val bs"
      using be_val_ones [of "8 - length bs" bs] True assms(2) by (simp add: n_def)
    then have "int n + 256 ^ length bs = 256 ^ 8 + int (be_val bs)"
      by (metis of_nat_add of_nat_power of_nat_numeral)
    then have "int n = 2 ^ 64 + int_val bs" using True by (simp add: int_val_def)
    moreover have "int_val bs < 0" using True ne by (simp add: int_val_neg_iff)
    ultimately show ?thesis using v n by (simp add: n_def [symmetric] sint_word_of_nat)
  next
    case False
    then have "n = be_val bs" by (simp add: n_def be_val_zeros)
    then show ?thesis using v n False by (simp add: be_val_zeros sint_word_of_nat int_val_def)
  qed
qed

lemma CBS_get_asn1_int64_sound:
  assumes "CBS_get_asn1_int64 c = (Some v, c')" "cbs_wf c"
  shows "\<exists>bs. cbs_bytes c = der 2 bs @ cbs_bytes c' \<and> int_min bs \<and> int_val bs = sint v"
proof -
  obtain out c0 where get: "CBS_get_asn1 c CBS_ASN1_INTEGER = (Some out, c0)"
    using assms(1) by (auto simp: CBS_get_asn1_int64_def split: option.splits prod.splits)
  from get assms(2) obtain bs where b: "cbs_bytes c = der 2 bs @ cbs_bytes c0" "cbs_bytes out = bs" "cbs_wf out"
    by (rule CBS_get_asn1_E) simp
  from CBS_get_asn1_int64_eq [OF get b(2,3)] assms(1) int64_value [of bs] b(1) show ?thesis
    by (auto split: if_splits)
qed

lemma CBS_get_asn1_int64_complete:
  assumes "cbs_bytes c = der 2 bs @ rest" "int_min bs" "int_val bs = sint (v :: u64)" "cbs_wf c"
  shows "CBS_get_asn1_int64 c = (Some v, adv (length (der 2 bs)) c)"
proof -
  have "int_val bs < 128 * 256 ^ 7" "- (128 * 256 ^ 7) \<le> int_val bs"
    using sint_lt [of v] sint_ge [of v] assms(3) by simp_all
  then have l: "length bs \<le> 8" using int_min_length [OF assms(2), of 7] by simp
  then have "length bs < 2 ^ 32" by simp
  from CBS_get_asn1_complete [OF this, of c 2] assms(1,4) obtain out where
    out: "CBS_get_asn1 c CBS_ASN1_INTEGER = (Some out, adv (length (der 2 bs)) c)" "cbs_bytes out = bs" "cbs_wf out"
    by auto
  show ?thesis
    using CBS_get_asn1_int64_eq [OF out] int64_value [OF assms(2) l] assms(2,3) l by (simp add: signed_word_eqI)
qed

subsection \<open>BOOLEAN\<close>

lemma single_byte_reader:
  assumes "cbs_bytes out = bs" "cbs_wf out"
  shows "CBS_len out = length bs" "bs \<noteq> [] \<Longrightarrow> CBS_data out ! 0 = hd bs"
  using assms by (auto simp: cbs_bytes_def cbs_wf_def CBS_len_def CBS_data_def hd_conv_nth)

lemma CBS_get_asn1_bool_sound:
  assumes "CBS_get_asn1_bool c = (Some b, c')" "cbs_wf c"
  shows "cbs_bytes c = der 1 [if b then 0xff else 0] @ cbs_bytes c'"
proof -
  obtain out where get: "CBS_get_asn1 c CBS_ASN1_BOOLEAN = (Some out, c')" "CBS_len out = 1"
    and v: "b = (CBS_data out ! 0 \<noteq> 0)" "CBS_data out ! 0 = 0 \<or> CBS_data out ! 0 = 0xff"
    using assms(1) by (auto simp: CBS_get_asn1_bool_def Let_def split: option.splits prod.splits if_splits)
  from get(1) assms(2) obtain bs where bs: "cbs_bytes c = der 1 bs @ cbs_bytes c'" "cbs_bytes out = bs" "cbs_wf out"
    by (rule CBS_get_asn1_E) simp
  note sb = single_byte_reader [OF bs(2,3)]
  from sb(1) get(2) obtain x where "bs = [x]" by (cases bs; cases "tl bs") auto
  then show ?thesis using bs(1) sb(2) v by auto
qed

lemma CBS_get_asn1_bool_complete:
  assumes "cbs_bytes c = der 1 [if b then 0xff else 0] @ rest" "cbs_wf c"
  shows "\<exists>c'. CBS_get_asn1_bool c = (Some b, c') \<and> cbs_bytes c' = rest"
proof -
  let ?bs = "[if b then 0xff else 0] :: byte list"
  have "cbs_bytes c = der (unat CBS_ASN1_BOOLEAN) ?bs @ rest" using assms(1) by simp
  from CBS_get_asn1_complete [OF _ this assms(2)] obtain out where
    out: "CBS_get_asn1 c CBS_ASN1_BOOLEAN = (Some out, adv (length (der 1 ?bs)) c)" "cbs_bytes out = ?bs" "cbs_wf out"
    by auto
  then show ?thesis
    using single_byte_reader [OF out(2,3)] assms(1) by (auto simp: CBS_get_asn1_bool_def Let_def)
qed

subsection \<open>Properties\<close>

text \<open>
  C1: the DER element reader is exact. On a reader over any bytes, \<open>CBS_get_any_asn1\<close>
  returns tag, contents and rest if and only if the input is the distinguished encoding of
  that tag and those contents (minimal identifier octets, minimal definite length below
  \<open>2 ^ 32\<close>) followed by that rest; every other input is rejected.
\<close>

theorem CBS_get_any_asn1_exact:
  fixes tag :: u32
  assumes "cbs_wf c"
  shows "(\<exists>out c'. CBS_get_any_asn1 c = (Some (out, tag), c') \<and> cbs_bytes out = body \<and> cbs_bytes c' = rest)
    \<longleftrightarrow> length body < 2 ^ 32 \<and> cbs_bytes c = der (unat tag) body @ rest"
proof
  assume "\<exists>out c'. CBS_get_any_asn1 c = (Some (out, tag), c') \<and> cbs_bytes out = body \<and> cbs_bytes c' = rest"
  then show "length body < 2 ^ 32 \<and> cbs_bytes c = der (unat tag) body @ rest"
    using CBS_get_any_asn1_sound [OF _ assms] by blast
next
  assume b: "length body < 2 ^ 32 \<and> cbs_bytes c = der (unat tag) body @ rest"
  have "unat tag < 2 ^ 32" using unsigned_less [of tag, where ?'a = nat] by simp
  from CBS_get_any_asn1_complete [OF this, of body c rest] b assms
  show "\<exists>out c'. CBS_get_any_asn1 c = (Some (out, tag), c') \<and> cbs_bytes out = body \<and> cbs_bytes c' = rest"
    by auto
qed

theorem CBS_get_any_asn1_exact_witness:
  "\<exists>out c'. CBS_get_any_asn1 (CBS_init [4, 2, 7, 8, 9] 5) = (Some (out, 4), c') \<and>
     cbs_bytes out = [7, 8] \<and> cbs_bytes c' = [9]"
  using CBS_get_any_asn1_exact [of "CBS_init [4, 2, 7, 8, 9] 5" 4 "[7, 8]" "[9]"]
  by (simp add: cbs_wf_def CBS_init_def cbs_bytes_def der_def der_header_def tag_bytes_def len_bytes_def)

text \<open>
  C2: in both modes an element never reaches outside the reader. On success the element is a
  view of the first \<open>n\<close> bytes of the input, \<open>n\<close> within bounds, its header is inside it and
  exactly those bytes are consumed; on failure the reader is left where it was.
\<close>

theorem asn1_element_in_bounds:
  assumes "cbs_wf c"
  shows "case cbs_get_any_asn1_element c ber of
      (None, c') \<Rightarrow> c' = c
    | (Some (out, tag, hl, found), c') \<Rightarrow>
        \<exists>n \<le> length (cbs_bytes c). 0 < hl \<and> hl \<le> n \<and>
          cbs_bytes out = take n (cbs_bytes c) \<and> cbs_bytes c' = drop n (cbs_bytes c) \<and> cbs_wf out \<and> cbs_wf c'"
proof (cases "cbs_get_any_asn1_element c ber")
  case (Pair r c')
  show ?thesis
  proof (cases r)
    case None
    then show ?thesis using Pair cbs_get_any_asn1_element_fail [of c ber c'] by simp
  next
    case (Some x)
    obtain out tag hl found where x: "x = (out, tag, hl, found)" by (cases x) auto
    have get: "cbs_get_any_asn1_element c ber = (Some (out, tag, hl, found), c')" using Pair Some x by simp
    from cbs_get_any_asn1_element_bounds [OF this assms] obtain n where
      n: "n \<le> length (cbs_bytes c)" "hl \<le> n" "0 < hl" "out = cbs_view n c" "c' = adv n c" by blast
    then show ?thesis
      using assms unfolding get prod.case option.case
      by (intro exI [of _ n]) (simp add: cbs_bytes_view cbs_wf_view)
  qed
qed

theorem asn1_element_in_bounds_witness:
  "\<exists>out tag hl found c'. cbs_get_any_asn1_element (CBS_init [0x30, 0x80, 0, 0] 4) True =
     (Some (out, tag, hl, found), c') \<and> found \<and> cbs_bytes out = [0x30, 0x80] \<and> cbs_bytes c' = [0, 0] \<and> cbs_wf c'"
proof -
  have wf: "cbs_wf (CBS_init [0x30, 0x80, 0, 0] 4)" by (simp add: cbs_wf_def CBS_init_def)
  have "cbs_get_any_asn1_element (CBS_init [0x30, 0x80, 0, 0] 4) True =
    (Some (CBS_init [0x30, 0x80, 0, 0] 2, 0x20000010, 2, True), CBS_init [0, 0] 2)"
    by code_simp
  then show ?thesis
    using asn1_element_in_bounds [OF wf, of True] by (auto simp: cbs_bytes_def CBS_init_def)
qed

text \<open>
  C3: \<open>CBS_get_asn1_int64\<close> returns \<open>v\<close> if and only if the input starts with an INTEGER whose
  contents are the minimal two's-complement encoding of \<open>v\<close>, that is: every 64-bit value is
  readable, non-minimal and longer encodings are rejected, the sign is right.
\<close>

theorem CBS_get_asn1_int64_exact:
  fixes v :: u64
  assumes "cbs_wf c"
  shows "(\<exists>c'. CBS_get_asn1_int64 c = (Some v, c') \<and> cbs_bytes c' = rest) \<longleftrightarrow>
    (\<exists>bs. cbs_bytes c = der 2 bs @ rest \<and> int_min bs \<and> int_val bs = sint v)"
  using CBS_get_asn1_int64_sound [OF _ assms] CBS_get_asn1_int64_complete [OF _ _ _ assms] by fastforce

theorem CBS_get_asn1_int64_exact_witness:
  "\<exists>c'. CBS_get_asn1_int64 (CBS_init [2, 2, 0xff, 0x7f, 1] 5) = (Some (- 129), c') \<and> cbs_bytes c' = [1]"
proof -
  have "int_val [0xff, 0x7f] = - 129" by (simp add: int_val_def be_val_def)
  then have "int_val [0xff, 0x7f] = sint (- 129 :: u64)" by simp
  moreover have "int_min [0xff, 0x7f]" by simp
  ultimately show ?thesis
    using CBS_get_asn1_int64_exact [of "CBS_init [2, 2, 0xff, 0x7f, 1] 5" "- 129" "[1]"]
    by (auto simp: cbs_wf_def CBS_init_def cbs_bytes_def der_def der_header_def tag_bytes_def len_bytes_def
        intro!: exI [of _ "[0xff, 0x7f]"])
qed

text \<open>
  \<open>CBS_get_asn1_uint64\<close> returns \<open>v\<close> if and only if the input starts with an INTEGER
  whose contents are the minimal encoding of \<open>v\<close> as a non-negative number; the overflow
  check of the accumulation loop rejects exactly the values of \<open>2 ^ 64\<close> and above.
\<close>

theorem CBS_get_asn1_uint64_exact:
  fixes v :: u64
  assumes "cbs_wf c"
  shows "(\<exists>c'. CBS_get_asn1_uint64 c = (Some v, c') \<and> cbs_bytes c' = rest) \<longleftrightarrow>
    (\<exists>bs. cbs_bytes c = der 2 bs @ rest \<and> int_min bs \<and> int_val bs = int (unat v))"
  using CBS_get_asn1_uint64_sound [OF _ assms] CBS_get_asn1_uint64_complete [OF _ _ _ assms] by fastforce

theorem CBS_get_asn1_uint64_exact_witness:
  "\<exists>c'. CBS_get_asn1_uint64 (CBS_init [2, 2, 0, 0x80, 1] 5) = (Some 128, c') \<and> cbs_bytes c' = [1]"
proof -
  have "int_val [0, 0x80] = 128" by (simp add: int_val_def be_val_def)
  then have "int_val [0, 0x80] = int (unat (128 :: u64))" by simp
  moreover have "int_min [0, 0x80]" by simp
  ultimately show ?thesis
    using CBS_get_asn1_uint64_exact [of "CBS_init [2, 2, 0, 0x80, 1] 5" 128 "[1]"]
    by (auto simp: cbs_wf_def CBS_init_def cbs_bytes_def der_def der_header_def tag_bytes_def len_bytes_def
        intro!: exI [of _ "[0, 0x80]"])
qed

end
