(* ===== verification/Builder_Asn1.thy ===== *)
theory Builder_Asn1
  imports Builder_Operations Asn1_Values
begin

unbundle bit_operations_syntax

text \<open>
  The ASN.1 writers of \<open>crypto/bytestring/cbb.c\<close>: identifier octets in both forms, the
  deferred length, and the INTEGER, OCTET STRING and BOOLEAN writers. They emit exactly
  the distinguished encodings, so the reader of \<open>cbs.c\<close> inverts them.
\<close>

subsection \<open>Runs of single bytes\<close>

fun add_seq :: "allocator \<Rightarrow> nat \<Rightarrow> byte list \<Rightarrow> (cbb_heap \<Rightarrow> cbb_result) \<Rightarrow> cbb_heap \<Rightarrow> cbb_result" where
  "add_seq m a [] k = k"
| "add_seq m a (b # bs) k = andthen (CBB_add_u8 m a b) (add_seq m a bs k)"

abbreviation succeed :: "cbb_heap \<Rightarrow> cbb_result" where
  "succeed \<equiv> \<lambda>h. Some (True, h)"

lemma andthen_succeed [simp]: "andthen f succeed = f"
  by (rule ext) (auto simp: andthen_def split: option.splits)

lemma succeed_andthen [simp]: "andthen succeed f = f"
  by (rule ext) (simp add: andthen_def)

lemma works_succeed: "works m a S [] succeed (Some []) []"
proof (rule worksI, goal_cases)
  case (1 h P)
  have "\<exists>c. hcbb h a = (hcbb h a)\<lparr>cbb_child := c\<rparr>" by (metis CBB.surjective CBB.update_convs(2))
  then show ?case using 1 by (simp add: keeps_def)
qed

lemma works_u8: "works m a S fs (CBB_add_u8 m a v) (Some [v]) []"
  using works_add_u8 by blast

lemma works_add_seq:
  assumes "works m a S [] k out new"
  shows "works m a S [] (add_seq m a bs k) (map_option (append bs) out) new"
proof (induction bs)
  case Nil
  have "map_option (append []) out = out" by (cases out) simp_all
  then show ?case using assms by (simp only: add_seq.simps)
next
  case (Cons b bs)
  have "map_option (append [b]) (map_option (append bs) out) = map_option (append (b # bs)) out"
    by (cases out) simp_all
  then show ?case using works_then [OF works_u8 [of m a S "[]" b] Cons] by (simp only: add_seq.simps)
qed

lemma works_add_seq_succeed: "works m a S [] (add_seq m a bs succeed) (Some bs) []"
  using works_add_seq [OF works_succeed] by simp

lemma add_base128_loop_seq:
  "add_base128_loop m a v is h =
     add_seq m a (map (\<lambda>i. let b = ucast (drop_bit (7 * i) v AND 0x7f) in if i \<noteq> 0 then b OR 0x80 else b) is) succeed h"
proof (induction "is" arbitrary: h)
  case (Cons i "is")
  then have "add_base128_loop m a v is = add_seq m a (map (\<lambda>i. let b = ucast (drop_bit (7 * i) v AND 0x7f) in if i \<noteq> 0 then b OR 0x80 else b) is) succeed"
    by (intro ext)
  then show ?case by simp
qed simp

subsection \<open>Base-128 integers\<close>

lemma base128_hi_digits:
  "base128_hi v = map (\<lambda>i. word_of_nat (128 + v div 128 ^ i mod 128)) (rev [0..<base128_len v])"
proof (induction v rule: base128_hi.induct)
  case (1 v)
  show ?case
  proof (cases "v = 0")
    case False
    have len: "base128_len v = Suc (base128_len (v div 128))" using False by (simp add: base128_len.simps [of v])
    have shift: "rev [0..<Suc n] = map Suc (rev [0..<n]) @ [0]" for n
      by (simp add: upt_conv_Cons map_Suc_upt [symmetric] rev_map del: upt_Suc)
    have "v div 128 div 128 ^ i = v div 128 ^ Suc i" for i by (simp add: div_mult2_eq)
    then show ?thesis
      using 1 [OF False] False unfolding len shift
      by (simp add: base128_hi.simps [of v] comp_def del: of_nat_add)
  qed (simp add: base128_len.simps)
qed

lemma base128_digit:
  "unat (ucast (drop_bit (7 * i) (v :: u64) AND 0x7f) :: byte) = unat v div 128 ^ i mod 128"
proof -
  have "unat (drop_bit (7 * i) v AND 0x7f) = unat (drop_bit (7 * i) v) mod 128"
    using unat_and_mask [of "drop_bit (7 * i) v" 7] by (simp add: mask_eq_exp_minus_1)
  moreover have "unat (drop_bit (7 * i) v) = unat v div 128 ^ i"
    unfolding unat_drop_bit_eq by (simp add: drop_bit_eq_div power_mult)
  ultimately have "unat (drop_bit (7 * i) v AND 0x7f) = unat v div 128 ^ i mod 128" by simp
  moreover have "unat v div 128 ^ i mod 128 < 256" by (rule less_trans [OF mod_less_divisor]) simp_all
  ultimately show ?thesis by (simp add: unsigned_ucast_eq take_bit_nat_eq_self)
qed

lemma byte_or_80: "unat (b :: byte) < 128 \<Longrightarrow> unat (b OR 0x80) = 128 + unat b"
proof -
  assume b: "unat b < 128"
  then have "b AND 0x80 = 0" by (simp add: byte_and_80)
  then show ?thesis by (simp add: unat_or_disjoint)
qed

lemma works_add_base128:
  "works m a S [] (add_base128_integer m a v) (Some (base128 (unat v))) []"
proof -
  let ?d = "\<lambda>i. let b = ucast (drop_bit (7 * i) v AND 0x7f) in if i \<noteq> 0 then b OR 0x80 else b :: byte"
  let ?n = "base128_len (unat v div 128)"
  have n: "(if base128_len (unat v) = 0 then 1 else base128_len (unat v)) = Suc ?n"
    by (simp add: base128_len.simps [of "unat v"]) (simp add: base128_len.simps)
  have shift: "rev [0..<Suc n] = map Suc (rev [0..<n]) @ [0]" for n
    by (simp add: upt_conv_Cons map_Suc_upt [symmetric] rev_map del: upt_Suc)
  have d: "?d (Suc i) = word_of_nat (128 + unat v div 128 div 128 ^ i mod 128)" for i
  proof (rule word_of_nat_eqI)
    have "unat v div 128 div 128 ^ i = unat v div 128 ^ Suc i" by (simp add: div_mult2_eq)
    then show "unat (?d (Suc i)) = 128 + unat v div 128 div 128 ^ i mod 128"
      unfolding Let_def using byte_or_80 base128_digit [of "Suc i" v] by simp
  qed
  have d0: "?d 0 = word_of_nat (unat v mod 128)"
    using base128_digit [of 0 v] by (intro word_of_nat_eqI) (simp add: Let_def)
  have "map ?d (rev [0..<Suc ?n]) = map (\<lambda>i. ?d (Suc i)) (rev [0..<?n]) @ [?d 0]"
    unfolding shift by (simp add: comp_def Let_def)
  also have "\<dots> = base128 (unat v)" unfolding d d0 base128_def base128_hi_digits ..
  finally have "add_base128_integer m a v = add_seq m a (base128 (unat v)) succeed"
    unfolding add_base128_integer_def Let_def n by (intro ext) (simp add: add_base128_loop_seq Let_def)
  then show ?thesis using works_add_seq_succeed by simp
qed

subsection \<open>Elements\<close>

lemma works_open_asn1:
  assumes "ch \<noteq> a" "ch \<in> S"
  shows "works m a S [] (\<lambda>h. let offset = cb_len (hbase h)
     in andthen (CBB_add_u8 m a 0) (\<lambda>h'. Some (True, open_child a ch offset 1 True h')) h) (Some []) [(ch, Asn1_prefix, [])]"
proof (rule worksI, goal_cases)
  case (1 h P)
  have len: "cb_len (hbase h) = length P" using 1 by (simp add: rep_def buf_ok_def)
  from works_u8 [of m a "{}" "[]" 0] 1 show ?case
  proof (cases rule: worksE)
    case (fail h')
    then show ?thesis using len by (intro disjI1 exI [of _ h']) (simp add: andthen_def)
  next
    case (success h' t bs)
    have ok: "buf_ok h' (P @ replicate 1 0)" "cbb_base (hcbb h' a)" using success by (simp_all add: rep_def)
    have oc: "rep (open_child a ch (length P) 1 True h') a P [(ch, Asn1_prefix, [])]"
      "keeps a {ch} h' (open_child a ch (length P) 1 True h')"
      using rep_open_child [OF ok assms(1), of Asn1_prefix True] by simp_all
    have "keeps a S h (open_child a ch (length P) 1 True h')"
      using keeps_trans [OF success(5) oc(2)] assms(2) by (elim keeps_mono) auto
    then show ?thesis using success len oc(1)
      by (intro disjI2 exI [of _ "open_child a ch (length P) 1 True h'"]) (simp add: andthen_def)
  qed
qed

lemma byte_and_e0: "(x :: byte) AND 0xe0 = push_bit 5 (drop_bit 5 x)"
proof -
  have e: "(0xe0 :: byte) = NOT (mask 5)" by (simp add: mask_eq_exp_minus_1)
  show ?thesis unfolding e by (rule bit_eqI) (auto simp: bit_simps)
qed

lemma tag_bits:
  fixes tag :: u32
  defines "bits \<equiv> ucast (drop_bit 24 tag) AND 0xe0 :: byte" and "number \<equiv> tag AND CBS_ASN1_TAG_NUMBER_MASK"
  shows "unat number = unat tag mod 2 ^ 29"
    and "d < 32 \<Longrightarrow> unat (x :: byte) = d \<Longrightarrow> bits OR x = word_of_nat (unat tag div 2 ^ 29 * 32 + d)"
proof -
  show "unat number = unat tag mod 2 ^ 29"
    using unat_and_mask [of tag 29] by (simp add: number_def mask_eq_exp_minus_1)
  assume d: "d < 32" "unat x = d"
  have hi: "unat bits = unat tag div 2 ^ 29 * 32"
  proof -
    have t: "unat tag < 2 ^ 32" using unsigned_less [of tag, where ?'a = nat] by simp
    have "unat (drop_bit 24 tag) = unat tag div 2 ^ 24" unfolding unat_drop_bit_eq by (simp add: drop_bit_eq_div)
    then have u: "unat (ucast (drop_bit 24 tag) :: byte) = unat tag div 2 ^ 24"
      using t by (simp add: unsigned_ucast_eq take_bit_nat_eq_self div_less_iff_less_mult)
    have "bits = push_bit 5 (drop_bit 5 (ucast (drop_bit 24 tag) :: byte))"
      unfolding bits_def by (rule byte_and_e0)
    moreover have "unat (drop_bit 5 (ucast (drop_bit 24 tag) :: byte)) = unat tag div 2 ^ 29"
      unfolding unat_drop_bit_eq u by (simp add: drop_bit_eq_div div_mult2_eq [symmetric])
    moreover have "unat tag div 2 ^ 29 < 8" using t by (simp add: div_less_iff_less_mult)
    ultimately show ?thesis by (simp add: unat_push_bit)
  qed
  have "bits AND x = 0"
  proof -
    have "x AND 0xe0 = 0"
    proof -
      have "x AND 0xe0 = push_bit 5 (drop_bit 5 x)" by (rule byte_and_e0)
      moreover have "drop_bit 5 x = 0" using d drop_bit_eq_0_iff [of 5 x] by simp
      ultimately show ?thesis by simp
    qed
    moreover have "bits AND x = ucast (drop_bit 24 tag) AND (x AND 0xe0)"
      unfolding bits_def by (simp only: and.assoc and.commute [of x])
    ultimately show ?thesis by simp
  qed
  then have "unat (bits OR x) = unat tag div 2 ^ 29 * 32 + d" using hi d by (simp add: unat_or_disjoint)
  then show "bits OR x = word_of_nat (unat tag div 2 ^ 29 * 32 + d)" by (rule word_of_nat_eqI)
qed

lemma works_add_asn1:
  assumes "ch \<noteq> a" "ch \<in> S"
  shows "does m a S (CBB_add_asn1 m a ch tag) (Some (tag_bytes (unat tag))) [(ch, Asn1_prefix, [])]"
proof -
  let ?bits = "ucast (drop_bit 24 tag) AND 0xe0 :: byte" and ?n = "tag AND CBS_ASN1_TAG_NUMBER_MASK"
  note tb = tag_bits [where tag = tag]
  have tag: "works m a S []
    (if ?n \<ge> 0x1f then andthen (CBB_add_u8 m a (?bits OR 0x1f)) (add_base128_integer m a (ucast ?n))
     else CBB_add_u8 m a (?bits OR ucast ?n)) (Some (tag_bytes (unat tag))) []"
  proof (cases "?n \<ge> 0x1f")
    case True
    then have "31 \<le> unat tag mod 2 ^ 29" using tb(1) by (simp add: word_le_nat_alt)
    then have "tag_bytes (unat tag) = [?bits OR 0x1f] @ base128 (unat ?n)"
      using tb(1) tb(2) [of 31 "0x1f"] by (simp add: tag_bytes_def Let_def)
    moreover have "unat (ucast ?n :: u64) = unat ?n" by simp
    ultimately show ?thesis
      using True works_then [OF works_u8 [of m a S "[]" "?bits OR 0x1f"] works_add_base128 [of m a S "ucast ?n"]] by simp
  next
    case False
    then have small: "unat ?n < 31" by (simp add: word_le_nat_alt)
    then have "unat (ucast ?n :: byte) = unat ?n" by (simp add: unsigned_ucast_eq take_bit_nat_eq_self)
    then have "tag_bytes (unat tag) = [?bits OR ucast ?n]"
      using small tb(1) tb(2) [of "unat ?n" "ucast ?n"] by (simp add: tag_bytes_def Let_def)
    then show ?thesis using False works_u8 by simp
  qed
  have "works m a S [] (andthen
     (if ?n \<ge> 0x1f then andthen (CBB_add_u8 m a (?bits OR 0x1f)) (add_base128_integer m a (ucast ?n))
      else CBB_add_u8 m a (?bits OR ucast ?n))
     (\<lambda>h. let offset = cb_len (hbase h)
     in andthen (CBB_add_u8 m a 0) (\<lambda>h'. Some (True, open_child a ch offset 1 True h')) h))
     (Some (tag_bytes (unat tag))) [(ch, Asn1_prefix, [])]"
    using works_then [OF tag works_open_asn1 [OF assms]] by simp
  then show ?thesis unfolding CBB_add_asn1_def Let_def by (rule works_flush_then)
qed

lemma add_seq_andthen: "add_seq m a bs (andthen k g) = andthen (add_seq m a bs k) g"
  by (induction bs) (simp_all add: andthen_assoc)

text \<open>Open an element, write its contents byte by byte, flush: the element is appended.\<close>

lemma works_element:
  assumes g: "works m ch S [] g (Some body) []" and S: "ch \<in> S" "a \<notin> S" and len: "length body \<le> 0xfffffffe"
  shows "does m a S (andthen (CBB_add_asn1 m a ch tag) (andthen g (CBB_flush m a))) (Some (der (unat tag) body)) []"
proof
  fix fs
  have ne: "ch \<noteq> a" using S by auto
  have "map_option (append (tag_bytes (unat tag))) (close Asn1_prefix body) = Some (der (unat tag) body)"
    using len by (simp add: close_def der_def der_header_def)
  then show "works m a S fs (andthen (CBB_add_asn1 m a ch tag) (andthen g (CBB_flush m a))) (Some (der (unat tag) body)) []"
    using works_child [OF spec [OF works_add_asn1 [OF ne S(1)]] g S, of fs tag] by (simp only:)
qed

subsection \<open>INTEGER\<close>

fun uint_digits :: "u64 \<Rightarrow> nat list \<Rightarrow> bool \<Rightarrow> byte list \<times> bool" where
  "uint_digits v [] st = ([], st)"
| "uint_digits v (i # is) st =
     (let b = ucast (drop_bit (8 * (7 - i)) v AND 0xff)
      in if \<not> st \<and> b = 0 then uint_digits v is False
         else (let (bs, st') = uint_digits v is True
               in ((if \<not> st \<and> b AND 0x80 \<noteq> 0 then [0] else []) @ b # bs, st')))"

lemma add_uint64_loop_seq:
  "(case add_uint64_loop m ch v is st h of
      None \<Rightarrow> None
    | Some (False, _, h') \<Rightarrow> Some (False, h')
    | Some (True, st', h') \<Rightarrow> k st' h') =
   add_seq m ch (fst (uint_digits v is st)) (k (snd (uint_digits v is st))) h"
proof (induction "is" arbitrary: st h)
  case (Cons i "is")
  define b where "b = (ucast (drop_bit (8 * (7 - i)) v AND 0xff) :: byte)"
  define pad where "pad = (\<not> st \<and> b AND 0x80 \<noteq> 0)"
  define loop where "loop h = (case add_uint64_loop m ch v is True h of
      None \<Rightarrow> None | Some (False, _, h') \<Rightarrow> Some (False, h') | Some (True, st', h') \<Rightarrow> k st' h')" for h
  obtain bs st' where d: "uint_digits v is True = (bs, st')" by (cases "uint_digits v is True")
  have loop: "loop = add_seq m ch bs (k st')" unfolding loop_def Cons.IH d by simp
  show ?case
  proof (cases "\<not> st \<and> b = 0")
    case True
    then show ?thesis using Cons.IH [of False h] by (simp add: b_def)
  next
    case False
    have dig: "uint_digits v (i # is) st = ((if pad then [0] else []) @ b # bs, st')"
      using False d unfolding uint_digits.simps b_def [symmetric] pad_def Let_def by auto
    have "(case add_uint64_loop m ch v (i # is) st h of
      None \<Rightarrow> None | Some (False, _, h') \<Rightarrow> Some (False, h') | Some (True, st', h') \<Rightarrow> k st' h') =
      andthen (if pad then CBB_add_u8 m ch 0 else succeed) (andthen (CBB_add_u8 m ch b) loop) h"
    proof (cases "(if pad then CBB_add_u8 m ch 0 else succeed) h")
      case None
      then have pad "CBB_add_u8 m ch 0 h = None" by (auto split: if_splits)
      then show ?thesis using False
        unfolding add_uint64_loop.simps b_def [symmetric] pad_def [symmetric] Let_def by (auto simp: andthen_def)
    next
      case (Some r)
      obtain ok h1 where r: "r = (ok, h1)" by (cases r)
      have r': "(if pad then CBB_add_u8 m ch 0 h else Some (True, h)) = Some (ok, h1)" using Some r by (auto split: if_splits)
      show ?thesis
        using False Some r unfolding add_uint64_loop.simps b_def [symmetric] pad_def [symmetric] Let_def r'
        by (cases ok; cases "CBB_add_u8 m ch b h1") (auto simp: andthen_def loop_def split: bool.splits)
    qed
    then show ?thesis unfolding dig loop by simp
  qed
qed simp

lemma uint_byte: "(ucast (drop_bit (8 * k) (v :: u64) AND 0xff) :: byte) = word_of_nat (unat v div 256 ^ k)"
proof (rule word_eqI_unat)
  have "unat (drop_bit (8 * k) v AND 0xff) = unat (drop_bit (8 * k) v) mod 256"
    using unat_and_mask [of "drop_bit (8 * k) v" 8] by (simp add: mask_eq_exp_minus_1)
  also have "unat (drop_bit (8 * k) v) = unat v div 256 ^ k"
    unfolding unat_drop_bit_eq by (simp add: drop_bit_eq_div power_mult)
  finally have u: "unat (drop_bit (8 * k) v AND 0xff) = unat v div 256 ^ k mod 256" .
  have "unat (ucast (drop_bit (8 * k) v AND 0xff) :: byte) = unat v div 256 ^ k mod 256"
    unfolding unsigned_ucast_eq u by (simp add: take_bit_eq_mod)
  then show "unat (ucast (drop_bit (8 * k) v AND 0xff) :: byte) = unat (word_of_nat (unat v div 256 ^ k) :: byte)"
    by (simp only: unat_byte_of_nat)
qed

lemma be_bytes_map: "be_bytes n v = map (\<lambda>i. word_of_nat (v div 256 ^ (n - 1 - i))) [0..<n]"
proof (induction n arbitrary: v)
  case (Suc n)
  have "v div 256 div 256 ^ (n - 1 - i) = v div 256 ^ (n - i)" if "i < n" for i
  proof -
    have "n - i = Suc (n - 1 - i)" using that by simp
    then show ?thesis by (simp add: div_mult2_eq)
  qed
  then show ?case by (simp add: Suc)
qed simp

definition uint_content :: "u64 \<Rightarrow> byte list" where
  "uint_content v =
     (let d = dropWhile (\<lambda>b. b = 0) (be_bytes 8 (unat v))
      in if d = [] \<or> 128 \<le> unat (hd d) then 0 # d else d)"

lemma uint_digits_started:
  "uint_digits v is True = (map (\<lambda>i. word_of_nat (unat v div 256 ^ (7 - i))) is, True)"
  by (induction "is") (simp_all add: Let_def uint_byte)

lemma uint_digits_eq:
  "uint_digits v is False =
     (let d = dropWhile (\<lambda>b. b = 0) (map (\<lambda>i. word_of_nat (unat v div 256 ^ (7 - i))) is)
      in if d = [] then ([], False) else (if 128 \<le> unat (hd d) then 0 # d else d, True))"
proof (induction "is")
  case (Cons i "is")
  define b where "b = (word_of_nat (unat v div 256 ^ (7 - i)) :: byte)"
  show ?case
    using Cons byte_and_80 [of b] unfolding uint_digits.simps uint_byte b_def [symmetric] list.map
    by (simp add: Let_def uint_digits_started not_less)
qed simp

lemma works_add_asn1_uint64:
  assumes S: "ch \<in> S" "a \<notin> S"
  shows "does m a S (CBB_add_asn1_uint64 m a ch v) (Some (der 2 (uint_content v))) []"
proof -
  let ?d = "uint_digits v [0..<8] False"
  have B: "map (\<lambda>i. word_of_nat (unat v div 256 ^ (7 - i))) [0..<8] = be_bytes 8 (unat v)"
    by (simp add: be_bytes_map [of 8])
  define d where "d = dropWhile (\<lambda>b. b = 0) (be_bytes 8 (unat v))"
  have content: "fst ?d @ (if \<not> snd ?d then [0] else []) = uint_content v"
    unfolding uint_digits_eq B uint_content_def d_def [symmetric] by (simp add: Let_def)
  have "(\<lambda>h. case add_uint64_loop m ch v [0..<8] False h of
         None \<Rightarrow> None
       | Some (False, _, h') \<Rightarrow> Some (False, h')
       | Some (True, started, h') \<Rightarrow>
           andthen (if \<not> started then CBB_add_u8 m ch 0 else succeed) (CBB_flush m a) h') =
     add_seq m ch (fst ?d) (andthen (if \<not> snd ?d then CBB_add_u8 m ch 0 else succeed) (CBB_flush m a))"
    by (rule ext) (rule add_uint64_loop_seq)
  moreover have "add_seq m ch (fst ?d) (if \<not> snd ?d then CBB_add_u8 m ch 0 else succeed) =
      add_seq m ch (uint_content v) succeed"
  proof -
    have app: "add_seq m ch (xs @ ys) k = add_seq m ch xs (add_seq m ch ys k)" for xs ys k
      by (induction xs) simp_all
    show ?thesis unfolding content [symmetric] app by simp
  qed
  ultimately have eq: "CBB_add_asn1_uint64 m a ch v =
      andthen (CBB_add_asn1 m a ch CBS_ASN1_INTEGER) (andthen (add_seq m ch (uint_content v) succeed) (CBB_flush m a))"
    unfolding CBB_add_asn1_uint64_def by (simp only: add_seq_andthen)
  have "length (uint_content v) \<le> 9"
    using length_dropWhile_le [of "\<lambda>b. b = 0" "be_bytes 8 (unat v)"] by (auto simp: uint_content_def Let_def)
  then show ?thesis
    using works_element [OF works_add_seq_succeed S, of "uint_content v" m CBS_ASN1_INTEGER] unfolding eq by simp
qed

lemma be_val_dropWhile: "be_val (dropWhile (\<lambda>b. b = 0) bs) = be_val bs"
  by (induction bs) (simp_all add: be_val_Cons)

lemma uint_content_minimal: "int_min (uint_content v)" "int_val (uint_content v) = int (unat v)"
proof -
  define d where "d = dropWhile (\<lambda>b. b = 0) (be_bytes 8 (unat v))"
  have c: "uint_content v = (if d = [] \<or> 128 \<le> unat (hd d) then 0 # d else d)"
    by (simp add: uint_content_def d_def Let_def)
  have "unat v < 256 ^ 8" using unsigned_less [of v, where ?'a = nat] by simp
  then have val: "be_val d = unat v" unfolding d_def be_val_dropWhile be_val_be_bytes by simp
  have nz: "d \<noteq> [] \<Longrightarrow> unat (hd d) \<noteq> 0"
    using hd_dropWhile [of "\<lambda>b. b = 0" "be_bytes 8 (unat v)"] unfolding d_def by (metis unsigned_0 word_eqI_unat)
  have "int (be_val d) = int (unat v)" using val by (rule arg_cong)
  then show "int_val (uint_content v) = int (unat v)" by (simp add: c int_val_def be_val_Cons del: of_nat_unat)
  show "int_min (uint_content v)"
  proof (cases "d = [] \<or> 128 \<le> unat (hd d)")
    case True
    then show ?thesis by (cases d) (simp_all add: c)
  next
    case False
    then show ?thesis using nz by (cases d rule: int_min.cases) (auto simp: c)
  qed
qed

subsection \<open>Negative integers\<close>

fun neg_trim :: "byte list \<Rightarrow> byte list" where
  "neg_trim (b # c # bs) = (if b = 0xff \<and> c AND 0x80 \<noteq> 0 then neg_trim (c # bs) else b # c # bs)"
| "neg_trim bs = bs"

lemma neg_trim_start:
  "map ((!) bs) (rev [0..<Suc (int64_start bs n)]) = neg_trim (map ((!) bs) (rev [0..<Suc n]))"
  by (induction bs n rule: int64_start.induct) (auto simp: numeral_2_eq_2)

lemma neg_trim_minimal:
  assumes "bs \<noteq> []" "128 \<le> unat (hd bs)"
  shows "int_min (neg_trim bs) \<and> int_val (neg_trim bs) = int_val bs \<and> length (neg_trim bs) \<le> length bs"
  using assms
proof (induction bs rule: neg_trim.induct)
  case (1 b c bs)
  show ?case
  proof (cases "b = 0xff \<and> 128 \<le> unat c")
    case True
    have "unat b = 255" using True by (metis unat_ff)
    then have "int_val (b # c # bs) = int_val (c # bs)"
      using True by (simp add: int_val_def be_val_Cons algebra_simps del: of_nat_unat)
    then show ?thesis using 1 True byte_and_80 [of c] by (auto simp: not_less)
  next
    case False
    have "b = 0xff \<longleftrightarrow> unat b = 255" by (auto intro: word_eqI_unat)
    then show ?thesis using False "1.prems"(2) byte_and_80 [of c] by (auto simp: not_less)
  qed
qed auto

lemma int_val_be_bytes: "int_val (be_bytes 8 (unat (v :: u64))) = sint v"
    "128 \<le> unat (hd (be_bytes 8 (unat v))) \<longleftrightarrow> sint v < 0"
proof -
  let ?B = "be_bytes 8 (unat v)"
  have v: "unat v < 2 ^ 64" using unsigned_less [of v, where ?'a = nat] by simp
  then have val: "be_val ?B = unat v" by (simp add: be_val_be_bytes)
  have s: "sint v = (if unat v < 2 ^ 63 then int (unat v) else int (unat v) - 2 ^ 64)"
    using sint_word_of_nat [OF v] by simp
  have len: "length ?B = 8" by simp
  then obtain b r where B: "?B = b # r" by (cases ?B) auto
  have "length r = 7" using len B by simp
  then have r: "be_val r < 72057594037927936" using be_val_bound [of r] by simp
  have "unat v = unat b * 72057594037927936 + be_val r"
    using val \<open>length r = 7\<close> unfolding B be_val_Cons by simp
  then have hd: "128 \<le> unat (hd ?B) \<longleftrightarrow> \<not> unat v < 2 ^ 63" using r unfolding B list.sel by (cases "128 \<le> unat b") auto
  then show "int_val ?B = sint v" unfolding int_val_def val s len by (simp del: of_nat_unat)
  show "128 \<le> unat (hd ?B) \<longleftrightarrow> sint v < 0"
    using v unfolding hd s by (auto simp del: of_nat_unat)
qed

lemma add_bytes_down_seq: "add_bytes_down m ch bs is = add_seq m ch (map ((!) bs) is) succeed"
proof (induction "is")
  case (Cons i "is")
  have "add_bytes_down m ch bs (i # is) h = add_seq m ch (map ((!) bs) (i # is)) succeed h" for h
    unfolding add_bytes_down.simps Cons by simp
  then show ?case by (rule ext)
qed (rule ext, simp)

definition int_content :: "u64 \<Rightarrow> byte list" where
  "int_content v = (if sint v \<ge> 0 then uint_content v else neg_trim (be_bytes 8 (unat v)))"

lemma int_content_minimal: "int_min (int_content v)" "int_val (int_content v) = sint v" "length (int_content v) \<le> 9"
proof -
  have ne: "be_bytes 8 (unat v) \<noteq> []" by (metis length_be_bytes list.size(3) zero_neq_numeral)
  have len: "length (uint_content v) \<le> 9"
    using length_dropWhile_le [of "\<lambda>b. b = 0" "be_bytes 8 (unat v)"] by (auto simp: uint_content_def Let_def)
  have "int_min (int_content v) \<and> int_val (int_content v) = sint v \<and> length (int_content v) \<le> 9"
  proof (cases "sint v \<ge> 0")
    case True
    then have "int (unat v) = sint v"
      using int_val_be_bytes [of v] unsigned_less [of v, where ?'a = nat]
      unfolding int_val_def be_val_be_bytes by (simp del: of_nat_unat)
    then show ?thesis using True uint_content_minimal [of v] len by (simp add: int_content_def del: of_nat_unat)
  next
    case False
    then show ?thesis using neg_trim_minimal [OF ne] int_val_be_bytes [of v] by (simp add: int_content_def)
  qed
  then show "int_min (int_content v)" "int_val (int_content v) = sint v" "length (int_content v) \<le> 9" by blast+
qed

lemma works_add_asn1_int64:
  assumes S: "ch \<in> S" "a \<notin> S"
  shows "does m a S (CBB_add_asn1_int64 m a ch v) (Some (der 2 (int_content v))) []"
proof (cases "sint v \<ge> 0")
  case True
  then show ?thesis using works_add_asn1_uint64 [OF S] by (simp add: CBB_add_asn1_int64_def int_content_def)
next
  case False
  let ?bs = "le_bytes64 v"
  have "rev [0..<Suc 7] = [7, 6, 5, 4, 3, 2, 1, 0]" by (simp add: upt_rec)
  moreover have "map ((!) ?bs) (rev [0..<8]) = rev (map ((!) ?bs) [0..<length ?bs])"
    by (simp add: rev_map le_bytes64_def)
  ultimately have all: "map ((!) ?bs) (rev [0..<Suc 7]) = be_bytes 8 (unat v)"
    unfolding map_nth by (simp add: le_bytes64_def)
  have "CBB_add_asn1_int64 m a ch v = andthen (CBB_add_asn1 m a ch CBS_ASN1_INTEGER)
      (andthen (add_seq m ch (int_content v) succeed) (CBB_flush m a))"
    using False neg_trim_start [of ?bs 7] unfolding all
    unfolding CBB_add_asn1_int64_def Let_def add_bytes_down_seq int_content_def by (simp del: upt_Suc)
  moreover have "length (int_content v) \<le> 0xfffffffe" using int_content_minimal(3) [of v] by simp
  ultimately show ?thesis
    using works_element [OF works_add_seq_succeed S, of "int_content v" m CBS_ASN1_INTEGER] by simp
qed

lemma works_add_asn1_octet_string:
  assumes S: "ch \<in> S" "a \<notin> S" and n: "n \<le> length p" "n \<le> 0xfffffffe"
  shows "does m a S (CBB_add_asn1_octet_string m a ch p n) (Some (der 4 (take n p))) []"
proof -
  have "n < size_mod" using n by simp
  then have "works m ch S [] (CBB_add_bytes m ch p n) (Some (take n p)) []"
    using works_add_bytes [OF n(1)] by blast
  from works_element [OF this S, of CBS_ASN1_OCTETSTRING] n show ?thesis
    unfolding CBB_add_asn1_octet_string_def by simp
qed

lemma works_add_asn1_bool:
  assumes S: "ch \<in> S" "a \<notin> S"
  shows "does m a S (CBB_add_asn1_bool m a ch v) (Some (der 1 [if v \<noteq> 0 then 0xff else 0])) []"
  using works_element [OF works_u8 S, of "if v \<noteq> 0 then 0xff else 0" m CBS_ASN1_BOOLEAN]
  unfolding CBB_add_asn1_bool_def by simp

end
