(* ===== verification/Builder_Properties.thy ===== *)
theory Builder_Properties
  imports Builder_Asn1
begin

unbundle bit_operations_syntax

text \<open>
  Whole building sessions: from \<open>CBB_init\<close> through any operation to \<open>CBB_finish\<close>, and the
  round trips through the reader of \<open>cbs.c\<close>.
\<close>

lemma malloc_some_length: "OPENSSL_malloc m k n = Some b \<Longrightarrow> n < size_mod \<Longrightarrow> length b = n"
  by (simp add: OPENSSL_malloc_length)

lemma rep_init:
  assumes "CBB_init m a cap h0 = (True, h)" "cap < size_mod"
  shows "rep h a [] []" "\<not> cbb_is_child (hcbb h a)" "cb_can_resize (hbase h)"
  using assms
  by (auto simp: CBB_init_def cbb_init_def CBB_zero_def rep_def buf_ok_def Let_def
      split: option.splits if_splits dest: OPENSSL_malloc_length)

lemma init_generous:
  assumes "\<forall>k n. m k n \<noteq> None" "cap < 2 ^ 63"
  shows "\<exists>h. CBB_init m a cap h0 = (True, h) \<and> rep h a [] [] \<and> \<not> cbb_is_child (hcbb h a) \<and> generous m h"
proof -
  obtain b where b: "OPENSSL_malloc m (hallocs h0) cap = Some b" using malloc_generous [OF assms] by blast
  obtain c where c: "OPENSSL_malloc m (Suc (hallocs h0)) sizeof_cbb_buffer = Some c"
    using malloc_generous [OF assms(1), of sizeof_cbb_buffer] by (auto simp: sizeof_cbb_buffer_def)
  have "fst (CBB_init m a cap h0)" using b c by (simp add: CBB_init_def cbb_init_def Let_def)
  then obtain h where h: "CBB_init m a cap h0 = (True, h)" by (cases "CBB_init m a cap h0") auto
  have "cap < size_mod" using assms(2) by simp
  from rep_init [OF h this] h assms(1) show ?thesis by (auto simp: generous_def)
qed

lemma rep_init_fixed:
  assumes "CBB_init_fixed m a buf n h0 = (True, h)" "length buf = n" "n < size_mod"
  shows "rep h a [] []" "\<not> cbb_is_child (hcbb h a)"
  using assms
  by (auto simp: CBB_init_fixed_def cbb_init_def CBB_zero_def rep_def buf_ok_def
      split: option.splits if_splits prod.splits bool.splits)

lemma finish_cases:
  assumes "rep h a P fs" "\<not> cbb_is_child (hcbb h a)"
  obtains (fail) h' where "CBB_finish m a h = Some (None, h')"
      "\<not> (generous m h \<and> (\<exists>t. collapse fs = Some t \<and> length (P @ t) < 2 ^ 62))"
  | (success) h' t buf where "CBB_finish m a h = Some (Some (buf, length (P @ t)), h')"
      "collapse fs = Some t" "take (length (P @ t)) buf = P @ t" "length (P @ t) < size_mod"
      "length (P @ t) \<le> length buf" "\<not> cbb_base (hcbb h' a)"
  using assms(1)
proof (cases rule: flush_cases [where m = m])
  case (fail h')
  then show thesis using that(1) assms(2) by (simp add: CBB_finish_def)
next
  case (success h' t)
  have ok: "buf_ok h' (P @ t)" using success(3) by (simp add: rep_def)
  have "\<not> cbb_is_child (hcbb h' a)" using success(4) assms(2) by (auto simp: keeps_def)
  then show thesis using success(1,2) ok assms(2)
    by (intro that(2) [of "cb_buf (hbase h')" t]) (auto simp: CBB_finish_def buf_ok_def CBB_cleanup_def)
qed

lemma cbs_of_buffer:
  assumes "take n buf = X" "n = length X" "n < size_mod" "n \<le> length buf"
  shows "cbs_bytes (CBS_init buf n) = X" "cbs_wf (CBS_init buf n)"
  using assms by (simp_all add: cbs_bytes_def CBS_init_def cbs_wf_def)

text \<open>A session of one operation: init, the operation, finish.\<close>

definition session :: "allocator \<Rightarrow> nat \<Rightarrow> nat \<Rightarrow> (cbb_heap \<Rightarrow> cbb_result) \<Rightarrow> cbb_heap \<Rightarrow> (byte list \<times> nat) option option" where
  "session m a cap op h0 =
     (case CBB_init m a cap h0 of
        (False, _) \<Rightarrow> Some None
      | (True, h1) \<Rightarrow>
          (case op h1 of
             None \<Rightarrow> None
           | Some (False, _) \<Rightarrow> Some None
           | Some (True, h2) \<Rightarrow> map_option fst (CBB_finish m a h2)))"

lemma session_works:
  assumes op: "works m a S [] op (Some bs) fs" and cl: "collapse fs = Some t"
    and m: "\<forall>k n. m k n \<noteq> None" and cap: "cap < 2 ^ 63" and len: "length (bs @ t) < 2 ^ 62"
  shows "\<exists>buf. session m a cap op h0 = Some (Some (buf, length (bs @ t))) \<and>
    cbs_bytes (CBS_init buf (length (bs @ t))) = bs @ t \<and> cbs_wf (CBS_init buf (length (bs @ t)))"
proof -
  obtain h1 where h1: "CBB_init m a cap h0 = (True, h1)" "rep h1 a [] []" "\<not> cbb_is_child (hcbb h1 a)" "generous m h1"
    using init_generous [OF m cap] by blast
  from op h1(2) show ?thesis
  proof (cases rule: worksE)
    case (fail h')
    then show ?thesis using h1 len collapse_length [OF cl] by simp
  next
    case (success h2 t' bs')
    have b: "bs' = bs" "t' = []" using success by simp_all
    have r: "rep h2 a bs fs" using success(4) b by simp
    have g: "generous m h2" using generous_keeps [OF success(5)] h1(4) by simp
    have nc: "\<not> cbb_is_child (hcbb h2 a)" using success(5) h1(3) by (auto simp: keeps_def)
    from r nc show ?thesis
    proof (cases rule: finish_cases [where m = m])
      case (fail h')
      then show ?thesis using g cl len by simp
    next
      case (success h' t2 buf)
      then have [simp]: "t2 = t" using cl by simp
      have "session m a cap op h0 = Some (Some (buf, length (bs @ t)))"
        using h1(1) \<open>op h1 = Some (True, h2)\<close> success(1) by (simp add: session_def)
      moreover have "cbs_bytes (CBS_init buf (length (bs @ t))) = bs @ t" "cbs_wf (CBS_init buf (length (bs @ t)))"
        using success by (auto intro!: cbs_of_buffer)
      ultimately show ?thesis by blast
    qed
  qed
qed

lemma session_overflow:
  assumes op: "works m a S [] op (Some bs) fs" and cl: "collapse fs = None" and cap: "cap < size_mod"
  shows "session m a cap op h0 = Some None"
proof (cases "CBB_init m a cap h0")
  case (Pair ok h1)
  show ?thesis
  proof (cases ok)
    case True
    then have "CBB_init m a cap h0 = (True, h1)" using Pair by simp
    note h1 = rep_init [OF this cap]
    from op h1(1) show ?thesis
    proof (cases rule: worksE)
      case (fail h')
      then show ?thesis using Pair True by (simp add: session_def)
    next
      case (success h2 t bs')
      have "\<not> cbb_is_child (hcbb h2 a)" using success(5) h1(2) by (auto simp: keeps_def)
      with success(4) show ?thesis
      proof (cases rule: finish_cases [where m = m])
        case (fail h')
        then show ?thesis using Pair True success(1) by (simp add: session_def)
      qed (use cl in simp)
    qed
  qed (use Pair in \<open>simp add: session_def\<close>)
qed

text \<open>An operation that reports failure whatever the builder holds.\<close>

definition fails :: "nat \<Rightarrow> (cbb_heap \<Rightarrow> cbb_result) \<Rightarrow> bool" where
  "fails a op \<longleftrightarrow> (\<forall>h P. rep h a P [] \<longrightarrow> (\<exists>h'. op h = Some (False, h')))"

lemma fails_then:
  assumes "works m a S [] f (Some bs) []" "fails a g"
  shows "fails a (andthen f g)"
  unfolding fails_def
proof (intro allI impI)
  fix h P assume "rep h a P []"
  with assms(1) show "\<exists>h'. andthen f g h = Some (False, h')"
  proof (cases rule: worksE)
    case (fail h')
    then show ?thesis by (simp add: andthen_def)
  next
    case (success h' t bs')
    then show ?thesis using assms(2) unfolding fails_def by (auto simp: andthen_def)
  qed
qed

lemma fails_before: "fails a f \<Longrightarrow> fails a (andthen f g)"
  unfolding fails_def andthen_def by fastforce

lemma session_fails:
  assumes "fails a op" "cap < size_mod"
  shows "session m a cap op h = Some None"
proof (cases "CBB_init m a cap h")
  case (Pair ok h1)
  show ?thesis
  proof (cases ok)
    case True
    then have "rep h1 a [] []" using rep_init(1) [of m a cap h h1] Pair assms(2) by simp
    then obtain h2 where "op h1 = Some (False, h2)" using assms(1) by (auto simp: fails_def)
    then show ?thesis using Pair True by (simp add: session_def)
  qed (use Pair in \<open>simp add: session_def\<close>)
qed

lemma cbs_get_length_prefixed_eq:
  assumes "cbs_bytes c = be_bytes k (length body) @ body @ rest" "length body < 256 ^ k" "k \<le> 8" "cbs_wf c"
  shows "\<exists>out. cbs_get_length_prefixed c k = (Some out, adv (k + length body) c) \<and> cbs_bytes out = body \<and> cbs_wf out"
proof -
  have "take k (cbs_bytes c) = be_bytes k (length body)" using assms(1) by simp
  then have v: "be_val (take k (cbs_bytes c)) = length body" using assms(2) by (simp add: be_val_be_bytes)
  have "length body < size_mod" using length_cbs_bytes_bound [OF assms(4)] assms(1) by simp
  then have u: "unat (word_of_nat (length body) :: u64) = length body" by (simp add: unat_of_nat)
  have "cbs_get_u c k = (Some (word_of_nat (length body)), adv k c)"
    using assms(1,3,4) v by (subst cbs_get_u_eq) simp_all
  moreover have b: "cbs_bytes (adv k c) = body @ rest" using assms(1) by simp
  ultimately show ?thesis
    using assms(4) u by (auto simp: cbs_get_length_prefixed_def CBS_get_bytes_eq cbs_bytes_view cbs_wf_view)
qed

subsection \<open>Properties\<close>

text \<open>
  C4: \<open>CBB_flush\<close> implements the closing of length prefixes. On every heap that represents a
  builder with open prefixes it returns; on success the bytes are those of closing every
  prefix around its contents, innermost first, and no child is left; on failure the error
  flag is set, and with a growable buffer and a working allocator that only happens when
  the contents do not fit a prefix.
\<close>

theorem CBB_flush_closes:
  assumes "rep h a P fs"
  shows "case CBB_flush m a h of
      None \<Rightarrow> False
    | Some (True, h') \<Rightarrow> (\<exists>t. collapse fs = Some t \<and> rep h' a (P @ t) [])
    | Some (False, h') \<Rightarrow> cb_error (hbase h') \<and>
        \<not> (generous m h \<and> (\<exists>t. collapse fs = Some t \<and> length (P @ t) < 2 ^ 62))"
  using assms
proof (cases rule: flush_cases [where m = m])
  case (fail h')
  then show ?thesis unfolding fail(1) by simp
next
  case (success h' t)
  then show ?thesis by simp
qed

definition empty_heap :: cbb_heap where
  "empty_heap = \<lparr>hbase = \<lparr>cb_buf = [], cb_len = 0, cb_cap = 0, cb_can_resize = True, cb_error = False\<rparr>,
     hcbb = (\<lambda>_. CBB_zero), hallocs = 0\<rparr>"

definition child_heap :: cbb_heap where
  "child_heap = empty_heap\<lparr>hbase := \<lparr>cb_buf = [7, 0, 8, 9], cb_len = 4, cb_cap = 4, cb_can_resize = True, cb_error = False\<rparr>,
     hcbb := (\<lambda>x. if x = 0 then CBB_zero\<lparr>cbb_base := True, cbb_child := Some 1\<rparr>
       else CBB_zero\<lparr>cbb_base := True, cbb_offset := 1, cbb_pending_len_len := 1, cbb_is_child := True\<rparr>)\<rparr>"

lemma rep_child_heap: "rep child_heap 0 [7] [(1, Len_prefix 1, [8, 9])]"
  by (simp add: rep_def buf_ok_def child_heap_def empty_heap_def CBB_zero_def)

theorem CBB_flush_closes_witness:
  "case CBB_flush zero_alloc 0 child_heap of
      None \<Rightarrow> False
    | Some (True, h') \<Rightarrow> rep h' 0 [7, 2, 8, 9] []
    | Some (False, h') \<Rightarrow> False"
  using CBB_flush_closes [OF rep_child_heap, of zero_alloc] zero_alloc_ok
  by (auto simp: close_def generous_def child_heap_def split: option.splits prod.splits bool.splits)

text \<open>
  C5: writing to a builder anywhere in a chain. With \<open>a\<close> an open child of \<open>r\<close> (through the
  prefixes \<open>fs\<close>) that itself has open children \<open>gs\<close>, \<open>CBB_add_bytes\<close> on \<open>a\<close> returns and, if it
  succeeds, closes \<open>gs\<close> into \<open>a\<close>, appends the bytes to the contents of \<open>a\<close> and changes
  nothing else in the whole structure seen from \<open>r\<close>.
\<close>

theorem CBB_add_bytes_refines:
  assumes "rep h r P (fs @ (a, p, body) # gs)" "n \<le> length bs" "n < size_mod"
  shows "case CBB_add_bytes m a bs n h of
      None \<Rightarrow> False
    | Some (True, h') \<Rightarrow> (\<exists>t. collapse gs = Some t \<and> rep h' r P (fs @ [(a, p, body @ t @ take n bs)]))
    | Some (False, h') \<Rightarrow> cb_error (hbase h')"
proof -
  have "works m a {} gs (CBB_add_bytes m a bs n) (Some (take n bs)) []"
    using works_add_bytes [OF assms(2,3)] by blast
  from this rep_descend [OF assms(1)] show ?thesis
  proof (cases rule: worksE)
    case (fail h')
    then show ?thesis by simp
  next
    case (success h' t bs')
    then show ?thesis using rep_focus [OF assms(1), of h' "t @ take n bs" "[]" "{}"] by simp
  qed
qed

theorem CBB_add_bytes_refines_witness:
  "case CBB_add_bytes zero_alloc 1 [5, 6] 2 child_heap of
      None \<Rightarrow> False
    | Some (True, h') \<Rightarrow> rep h' 0 [7] [(1, Len_prefix 1, [8, 9, 5, 6])]
    | Some (False, h') \<Rightarrow> cb_error (hbase h')"
  using CBB_add_bytes_refines [of child_heap 0 "[7]" "[]" 1 "Len_prefix 1" "[8, 9]" "[]" 2 "[5, 6]" zero_alloc] rep_child_heap
  by (auto split: option.splits prod.splits bool.splits)

text \<open>
  C6: what \<open>CBB_add_asn1_int64\<close> writes, \<open>CBS_get_asn1_int64\<close> reads back: a session that
  initialises a builder, adds an INTEGER and finishes succeeds for every 64-bit value when
  memory can be allocated, and the reader returns the value and consumes everything.
\<close>

theorem asn1_int64_roundtrip:
  assumes "\<forall>k n. m k n \<noteq> None" "cap < 2 ^ 63" "ch \<noteq> a"
  shows "\<exists>buf n c'. session m a cap (CBB_add_asn1_int64 m a ch v) h0 = Some (Some (buf, n)) \<and>
    CBS_get_asn1_int64 (CBS_init buf n) = (Some v, c') \<and> cbs_bytes c' = []"
proof -
  have w: "works m a {ch} [] (CBB_add_asn1_int64 m a ch v) (Some (der 2 (int_content v))) []"
    using works_add_asn1_int64 [of ch "{ch}" a] assms(3) by blast
  have "length (der 2 (int_content v)) \<le> 11 + 9"
    using int_content_minimal(3) [of v] length_tag_bytes [of 2] nbytes_le [of "length (int_content v)" 4]
    by (auto simp: length_der length_der_header length_len_bytes)
  then have len: "length (der 2 (int_content v) @ []) < 2 ^ 62" by simp
  from session_works [OF w _ assms(1,2) len, of h0] obtain buf n where
    s: "session m a cap (CBB_add_asn1_int64 m a ch v) h0 = Some (Some (buf, n))"
    "cbs_bytes (CBS_init buf n) = der 2 (int_content v) @ []" "cbs_wf (CBS_init buf n)"
    by auto
  from CBS_get_asn1_int64_complete [OF s(2) int_content_minimal(1,2) s(3)] s show ?thesis by auto
qed

theorem asn1_int64_roundtrip_witness:
  "\<exists>buf n c'. session zero_alloc 0 16 (CBB_add_asn1_int64 zero_alloc 0 1 (- 129)) empty_heap = Some (Some (buf, n)) \<and>
    CBS_get_asn1_int64 (CBS_init buf n) = (Some (- 129), c') \<and> cbs_bytes c' = []"
  using asn1_int64_roundtrip [OF zero_alloc_ok, of 16 1 0 "- 129" empty_heap] by simp

text \<open>
  C7: length-prefixed data. Building a \<open>k\<close>-byte length prefix around \<open>n\<close> bytes and finishing
  fails if and only if \<open>n\<close> does not fit \<open>k\<close> bytes; otherwise \<open>cbs_get_length_prefixed\<close> returns
  exactly those bytes and nothing remains.
\<close>

theorem length_prefixed_roundtrip:
  assumes "\<forall>k n. m k n \<noteq> None" "cap < 2 ^ 63" "ch \<noteq> a" "0 < k" "k \<le> 8" "n \<le> length bs" "n < 2 ^ 61"
  shows "case session m a cap (andthen (cbb_add_length_prefixed m a ch k) (CBB_add_bytes m ch bs n)) h0 of
      None \<Rightarrow> False
    | Some None \<Rightarrow> 256 ^ k \<le> n
    | Some (Some (buf, l)) \<Rightarrow> n < 256 ^ k \<and>
        (\<exists>out c'. cbs_get_length_prefixed (CBS_init buf l) k = (Some out, c') \<and>
           cbs_bytes out = take n bs \<and> cbs_bytes c' = [])"
proof -
  have n: "n < size_mod" using assms(7) by simp
  have "works m a {ch} [] (cbb_add_length_prefixed m a ch k) (Some []) [(ch, Len_prefix k, [])]"
    using works_add_length_prefixed [of ch a k "{ch}"] assms(3-5) by blast
  moreover have "works m ch {ch} [] (CBB_add_bytes m ch bs n) (Some (take n bs)) []"
    using works_add_bytes [OF assms(6) n] by blast
  ultimately have w: "works m a {ch} [] (andthen (cbb_add_length_prefixed m a ch k) (CBB_add_bytes m ch bs n))
      (Some []) [(ch, Len_prefix k, take n bs)]"
    using assms(3) by (intro works_fill) auto
  have l: "length (take n bs) = n" using assms(6) by simp
  show ?thesis
  proof (cases "n < 256 ^ k")
    case True
    have cl: "collapse [(ch, Len_prefix k, take n bs)] = Some (be_bytes k n @ take n bs)"
      using True l by (simp add: close_def)
    have "length ([] @ be_bytes k n @ take n bs) < 2 ^ 62" using assms(5,7) l by simp
    from session_works [OF w cl assms(1,2) this] obtain buf where
      s: "session m a cap (andthen (cbb_add_length_prefixed m a ch k) (CBB_add_bytes m ch bs n)) h0 =
        Some (Some (buf, length ([] @ be_bytes k n @ take n bs)))"
      "cbs_bytes (CBS_init buf (length ([] @ be_bytes k n @ take n bs))) = [] @ be_bytes k n @ take n bs"
      "cbs_wf (CBS_init buf (length ([] @ be_bytes k n @ take n bs)))" by blast
    have "cbs_bytes (CBS_init buf (length ([] @ be_bytes k n @ take n bs))) = be_bytes k (length (take n bs)) @ take n bs @ []"
      unfolding s(2) l by simp
    from cbs_get_length_prefixed_eq [OF this _ assms(5) s(3)] True l s(2)
    show ?thesis unfolding s(1) by auto
  next
    case False
    have "collapse [(ch, Len_prefix k, take n bs)] = None" using False l by (simp add: close_def)
    moreover have "cap < size_mod" using assms(2) by simp
    ultimately have "session m a cap (andthen (cbb_add_length_prefixed m a ch k) (CBB_add_bytes m ch bs n)) h0 = Some None"
      by (rule session_overflow [OF w])
    then show ?thesis using False by simp
  qed
qed

theorem length_prefixed_roundtrip_witness:
  "case session zero_alloc 0 0 (andthen (cbb_add_length_prefixed zero_alloc 0 1 2) (CBB_add_bytes zero_alloc 1 [1, 2, 3] 3)) empty_heap of
      None \<Rightarrow> False
    | Some None \<Rightarrow> False
    | Some (Some (buf, l)) \<Rightarrow> \<exists>out c'. cbs_get_length_prefixed (CBS_init buf l) 2 = (Some out, c') \<and>
           cbs_bytes out = [1, 2, 3] \<and> cbs_bytes c' = []"
  using length_prefixed_roundtrip [OF zero_alloc_ok, of 0 1 0 2 3 "[1, 2, 3]" empty_heap]
  by (auto split: option.splits prod.splits)

text \<open>
  C8: an element built with \<open>CBB_add_asn1\<close> is the distinguished encoding of its tag and
  contents: for every 32-bit tag and contents of at most \<open>0xfffffffe\<close> bytes the session
  succeeds and \<open>CBS_get_any_asn1\<close> returns tag and contents and nothing remains.
\<close>

theorem asn1_element_roundtrip:
  assumes "\<forall>k n. m k n \<noteq> None" "cap < 2 ^ 63" "ch \<noteq> a" "n \<le> length bs" "n \<le> 0xfffffffe"
  shows "\<exists>buf l out c'. session m a cap (andthen (CBB_add_asn1 m a ch tag) (CBB_add_bytes m ch bs n)) h0 = Some (Some (buf, l)) \<and>
    CBS_get_any_asn1 (CBS_init buf l) = (Some (out, tag), c') \<and> cbs_bytes out = take n bs \<and> cbs_bytes c' = []"
proof -
  have n: "n < size_mod" using assms(5) by simp
  have "works m a {ch} [] (CBB_add_asn1 m a ch tag) (Some (tag_bytes (unat tag))) [(ch, Asn1_prefix, [])]"
    using works_add_asn1 [of ch a "{ch}"] assms(3) by blast
  moreover have "works m ch {ch} [] (CBB_add_bytes m ch bs n) (Some (take n bs)) []"
    using works_add_bytes [OF assms(4) n] by blast
  ultimately have w: "works m a {ch} [] (andthen (CBB_add_asn1 m a ch tag) (CBB_add_bytes m ch bs n))
      (Some (tag_bytes (unat tag))) [(ch, Asn1_prefix, take n bs)]"
    using assms(3) by (intro works_fill) auto
  have l: "length (take n bs) = n" using assms(4) by simp
  let ?t = "len_bytes n @ take n bs"
  have cl: "collapse [(ch, Asn1_prefix, take n bs)] = Some ?t"
    using assms(5) l by (simp add: close_def)
  have "nbytes n \<le> 4" using assms(5) by (intro nbytes_le) simp
  then have "length (tag_bytes (unat tag) @ ?t) < 2 ^ 62"
    using assms(5) l length_tag_bytes [of "unat tag"] by (simp add: length_len_bytes)
  from session_works [OF w cl assms(1,2) this] obtain buf k where
    s: "session m a cap (andthen (CBB_add_asn1 m a ch tag) (CBB_add_bytes m ch bs n)) h0 = Some (Some (buf, k))"
    "cbs_bytes (CBS_init buf k) = tag_bytes (unat tag) @ ?t" "cbs_wf (CBS_init buf k)" by blast
  have "cbs_bytes (CBS_init buf k) = der (unat tag) (take n bs) @ []"
    unfolding s(2) der_def der_header_def l by simp
  from CBS_get_any_asn1_complete [OF _ _ this s(3)] l assms(5) unsigned_less [of tag, where ?'a = nat] this s(1)
  show ?thesis by auto
qed

theorem asn1_element_roundtrip_witness:
  "\<exists>buf l out c'. session zero_alloc 0 4 (andthen (CBB_add_asn1 zero_alloc 0 1 0xa0000100) (CBB_add_bytes zero_alloc 1 [1, 2] 2)) empty_heap
      = Some (Some (buf, l)) \<and>
    CBS_get_any_asn1 (CBS_init buf l) = (Some (out, 0xa0000100), c') \<and> cbs_bytes out = [1, 2] \<and> cbs_bytes c' = []"
  using asn1_element_roundtrip [OF zero_alloc_ok, of 4 1 0 2 "[1, 2]" "0xa0000100" empty_heap] by simp

end
