(* ===== verification/Unicode.thy ===== *)
theory Unicode
  imports Builder_Properties
begin

unbundle bit_operations_syntax

text \<open>
  The character readers and writers of \<open>crypto/bytestring/unicode.c\<close>: UTF-8, Latin-1, UCS-2
  and UTF-32. The lemmas show that the UTF-8 decoder accepts exactly the shortest
  encodings of valid code points, and that the encoder writes them.
\<close>

definition is_valid_code_point :: "u32 \<Rightarrow> bool" where
  "is_valid_code_point v \<longleftrightarrow>
     \<not> (v > 0x10ffff \<or> v AND 0xfffe = 0xfffe \<or> v \<ge> 0xfdd0 \<and> v \<le> 0xfdef \<or> v \<ge> 0xd800 \<and> v \<le> 0xdfff)"

definition BOTTOM_BITS :: "nat \<Rightarrow> byte" where
  "BOTTOM_BITS n = ucast (push_bit n (1 :: u32) - 1)"

definition TOP_BITS :: "nat \<Rightarrow> byte" where
  "TOP_BITS n = NOT (BOTTOM_BITS (8 - n))"

text \<open>The continuation loop: how many bytes are left, reader, value so far.\<close>

fun utf8_continuation :: "nat \<Rightarrow> CBS \<Rightarrow> u32 \<Rightarrow> u32 read" where
  "utf8_continuation 0 cbs v = (Some v, cbs)"
| "utf8_continuation (Suc n) cbs v =
     (case CBS_get_u8 cbs of
        (None, c') \<Rightarrow> (None, c')
      | (Some c, c') \<Rightarrow>
          if c AND TOP_BITS 2 \<noteq> TOP_BITS 1 then (None, c')
          else utf8_continuation n c' (push_bit 6 v OR ucast (c AND BOTTOM_BITS 6)))"

definition cbs_get_utf8 :: "CBS \<Rightarrow> u32 read" where
  "cbs_get_utf8 cbs =
     (case CBS_get_u8 cbs of
        (None, cbs1) \<Rightarrow> (None, cbs1)
      | (Some c, cbs1) \<Rightarrow>
          if c \<le> 0x7f then (Some (ucast c), cbs1)
          else
            (let finish = (\<lambda>v n lower_bound.
                   case utf8_continuation n cbs1 v of
                     (None, cbs2) \<Rightarrow> (None, cbs2)
                   | (Some v', cbs2) \<Rightarrow>
                       if \<not> is_valid_code_point v' \<or> v' < lower_bound then (None, cbs2) else (Some v', cbs2))
             in if c AND TOP_BITS 3 = TOP_BITS 2 then finish (ucast (c AND BOTTOM_BITS 5)) 1 0x80
                else if c AND TOP_BITS 4 = TOP_BITS 3 then finish (ucast (c AND BOTTOM_BITS 4)) 2 0x800
                else if c AND TOP_BITS 5 = TOP_BITS 4 then finish (ucast (c AND BOTTOM_BITS 3)) 3 0x10000
                else (None, cbs1)))"

definition cbs_get_latin1 :: "CBS \<Rightarrow> u32 read" where
  "cbs_get_latin1 cbs =
     (case CBS_get_u8 cbs of (None, c) \<Rightarrow> (None, c) | (Some v, c) \<Rightarrow> (Some (ucast v), c))"

definition cbs_get_ucs2_be :: "CBS \<Rightarrow> u32 read" where
  "cbs_get_ucs2_be cbs =
     (case CBS_get_u16 cbs of
        (None, c) \<Rightarrow> (None, c)
      | (Some v, c) \<Rightarrow> if \<not> is_valid_code_point (ucast v) then (None, c) else (Some (ucast v), c))"

definition cbs_get_utf32_be :: "CBS \<Rightarrow> u32 read" where
  "cbs_get_utf32_be cbs =
     (case CBS_get_u32 cbs of
        (None, c) \<Rightarrow> (None, c)
      | (Some v, c) \<Rightarrow> if is_valid_code_point v then (Some v, c) else (None, c))"

definition cbb_get_utf8_len :: "u32 \<Rightarrow> nat" where
  "cbb_get_utf8_len u =
     (if u \<le> 0x7f then 1 else if u \<le> 0x7ff then 2 else if u \<le> 0xffff then 3 else 4)"

definition cbb_add_utf8 :: "allocator \<Rightarrow> nat \<Rightarrow> u32 \<Rightarrow> cbb_heap \<Rightarrow> cbb_result" where
  "cbb_add_utf8 m a u h =
     (let low = (\<lambda>x :: u32. ucast (ucast (TOP_BITS 1) OR (x AND ucast (BOTTOM_BITS 6))) :: byte);
          lead = (\<lambda>n (x :: u32). ucast (ucast (TOP_BITS n) OR x) :: byte)
      in if \<not> is_valid_code_point u then Some (False, h)
         else if u \<le> 0x7f then CBB_add_u8 m a (ucast u) h
         else if u \<le> 0x7ff then
           andthen (CBB_add_u8 m a (lead 2 (drop_bit 6 u))) (CBB_add_u8 m a (low u)) h
         else if u \<le> 0xffff then
           andthen (CBB_add_u8 m a (lead 3 (drop_bit 12 u)))
             (andthen (CBB_add_u8 m a (low (drop_bit 6 u))) (CBB_add_u8 m a (low u))) h
         else if u \<le> 0x10ffff then
           andthen (CBB_add_u8 m a (lead 4 (drop_bit 18 u)))
             (andthen (CBB_add_u8 m a (low (drop_bit 12 u)))
               (andthen (CBB_add_u8 m a (low (drop_bit 6 u))) (CBB_add_u8 m a (low u)))) h
         else Some (False, h))"

definition cbb_add_latin1 :: "allocator \<Rightarrow> nat \<Rightarrow> u32 \<Rightarrow> cbb_heap \<Rightarrow> cbb_result" where
  "cbb_add_latin1 m a u h = (if u \<le> 0xff then CBB_add_u8 m a (ucast u) h else Some (False, h))"

definition cbb_add_ucs2_be :: "allocator \<Rightarrow> nat \<Rightarrow> u32 \<Rightarrow> cbb_heap \<Rightarrow> cbb_result" where
  "cbb_add_ucs2_be m a u h =
     (if u \<le> 0xffff \<and> is_valid_code_point u then CBB_add_u16 m a (ucast u) h else Some (False, h))"

definition cbb_add_utf32_be :: "allocator \<Rightarrow> nat \<Rightarrow> u32 \<Rightarrow> cbb_heap \<Rightarrow> cbb_result" where
  "cbb_add_utf32_be m a u h =
     (if is_valid_code_point u then CBB_add_u32 m a u h else Some (False, h))"

subsection \<open>Shortest UTF-8 encodings\<close>

definition utf8_bytes :: "nat \<Rightarrow> byte list" where
  "utf8_bytes u =
     (if u < 0x80 then [word_of_nat u]
      else if u < 0x800 then [word_of_nat (0xc0 + u div 64), word_of_nat (0x80 + u mod 64)]
      else if u < 0x10000 then
        [word_of_nat (0xe0 + u div 4096), word_of_nat (0x80 + u div 64 mod 64), word_of_nat (0x80 + u mod 64)]
      else
        [word_of_nat (0xf0 + u div 262144), word_of_nat (0x80 + u div 4096 mod 64),
         word_of_nat (0x80 + u div 64 mod 64), word_of_nat (0x80 + u mod 64)])"

lemma bits_consts:
  "TOP_BITS 1 = 0x80" "TOP_BITS (Suc 0) = 0x80" "TOP_BITS 2 = 0xc0" "TOP_BITS 3 = 0xe0" "TOP_BITS 4 = 0xf0" "TOP_BITS 5 = 0xf8"
  "BOTTOM_BITS 6 = 0x3f" "BOTTOM_BITS 5 = 0x1f" "BOTTOM_BITS 4 = 0x0f" "BOTTOM_BITS 3 = 0x07"
  by (simp_all add: TOP_BITS_def BOTTOM_BITS_def push_bit_eq_mult)

text \<open>Masking off the low bits of a byte, as arithmetic.\<close>

lemma byte_and_top:
  assumes "k \<le> 8"
  shows "unat ((c :: byte) AND NOT (mask k)) = unat c div 2 ^ k * 2 ^ k"
proof -
  have "c AND NOT (mask k) = push_bit k (drop_bit k c)"
    by (rule bit_eqI) (auto simp: bit_simps)
  moreover have d: "unat (drop_bit k c) = unat c div 2 ^ k" unfolding unat_drop_bit_eq by (simp add: drop_bit_eq_div)
  moreover have "unat (drop_bit k c) * 2 ^ k < 2 ^ LENGTH(8)"
    unfolding d using byte_bound [of c] by (simp add: le_less_trans [OF div_times_less_eq_dividend])
  ultimately show ?thesis by (simp only: unat_push_bit)
qed

lemma byte_and_top_eq:
  assumes "k \<le> 8" "M = NOT (mask k)" "unat X = x * 2 ^ k"
  shows "(c :: byte) AND M = X \<longleftrightarrow> unat c div 2 ^ k = x"
proof -
  have "c AND M = X \<longleftrightarrow> unat (c AND M) = unat X" by (auto intro: word_eqI_unat)
  then show ?thesis unfolding assms(2,3) byte_and_top [OF assms(1)] by simp
qed

lemma utf8_patterns:
  "(c :: byte) AND 0xc0 = 0x80 \<longleftrightarrow> unat c div 64 = 2"
  "(c :: byte) AND 0xe0 = 0xc0 \<longleftrightarrow> unat c div 32 = 6"
  "(c :: byte) AND 0xf0 = 0xe0 \<longleftrightarrow> unat c div 16 = 14"
  "(c :: byte) AND 0xf8 = 0xf0 \<longleftrightarrow> unat c div 8 = 30"
  using byte_and_top_eq [of 6 "0xc0" "0x80" 2 c] byte_and_top_eq [of 5 "0xe0" "0xc0" 6 c]
    byte_and_top_eq [of 4 "0xf0" "0xe0" 14 c] byte_and_top_eq [of 3 "0xf8" "0xf0" 30 c]
  by (simp_all add: mask_eq_exp_minus_1)

lemma utf8_lows:
  "unat ((c :: byte) AND 0x3f) = unat c mod 64" "unat (c AND 0x1f) = unat c mod 32"
  "unat (c AND 0x0f) = unat c mod 16" "unat (c AND 0x07) = unat c mod 8"
  using unat_and_mask [of c 6] unat_and_mask [of c 5] unat_and_mask [of c 4] unat_and_mask [of c 3]
  by (simp_all add: mask_eq_exp_minus_1)

lemma unat_shl6_or:
  assumes "unat (v :: u32) < 2 ^ 26"
  shows "unat (push_bit 6 v OR ucast ((c :: byte) AND 0x3f)) = unat v * 64 + unat c mod 64"
proof -
  have m: "c AND 0x3f = take_bit 6 c" by (simp add: take_bit_eq_mask mask_eq_exp_minus_1)
  have "push_bit 6 v AND ucast (c AND 0x3f) = 0" unfolding m by (auto simp: bit_eq_iff bit_simps)
  moreover have "unat (push_bit 6 v) = unat v * 64" using assms by (simp add: unat_push_bit)
  moreover have "unat (ucast (c AND 0x3f) :: u32) = unat c mod 64" using utf8_lows(1) [of c] by simp
  ultimately show ?thesis by (simp add: unat_or_disjoint)
qed

text \<open>What the continuation loop computes from the bytes.\<close>

fun cont_val :: "nat \<Rightarrow> byte list \<Rightarrow> nat \<Rightarrow> nat option" where
  "cont_val 0 bs v = Some v"
| "cont_val (Suc n) [] v = None"
| "cont_val (Suc n) (c # bs) v = (if unat c div 64 = 2 then cont_val n bs (v * 64 + unat c mod 64) else None)"

lemma utf8_continuation_eq:
  assumes "cbs_wf cbs" "(unat v + 1) * 64 ^ n \<le> 2 ^ 32"
  shows "case cont_val n (cbs_bytes cbs) (unat v) of
      None \<Rightarrow> fst (utf8_continuation n cbs v) = None
    | Some w \<Rightarrow> utf8_continuation n cbs v = (Some (word_of_nat w), adv n cbs) \<and> w < 2 ^ 32"
  using assms
proof (induction n arbitrary: cbs v)
  case 0
  then show ?case using unsigned_less [of v, where ?'a = nat] by simp
next
  case (Suc n)
  show ?case
  proof (cases "cbs_bytes cbs")
    case Nil
    then show ?thesis using Suc.prems(1) by (simp add: CBS_get_u8_eq)
  next
    case (Cons c bs)
    have u8: "CBS_get_u8 cbs = (Some c, adv 1 cbs)" using Cons Suc.prems(1) by (simp add: CBS_get_u8_eq)
    let ?v = "push_bit 6 v OR ucast (c AND 0x3f) :: u32"
    have "(unat v + 1) * 64 \<le> (unat v + 1) * 64 ^ Suc n" by (intro mult_left_mono) simp_all
    then have "(unat v + 1) * 64 \<le> 2 ^ 32" using Suc.prems(2) by (rule order_trans)
    then have v: "unat v < 2 ^ 26" by simp
    have uv: "unat ?v = unat v * 64 + unat c mod 64" using v by (rule unat_shl6_or)
    show ?thesis
    proof (cases "unat c div 64 = 2")
      case True
      have "unat c mod 64 < 64" by (rule mod_less_divisor) simp
      then have "unat v * 64 + unat c mod 64 + 1 \<le> (unat v + 1) * 64" by simp
      then have "(unat v * 64 + unat c mod 64 + 1) * 64 ^ n \<le> (unat v + 1) * 64 * 64 ^ n" by (rule mult_right_mono) simp
      also have "\<dots> = (unat v + 1) * 64 ^ Suc n" by (simp only: power_Suc mult.assoc)
      also have "\<dots> \<le> 2 ^ 32" by (rule Suc.prems(2))
      finally have "(unat v * 64 + unat c mod 64 + 1) * 64 ^ n \<le> 2 ^ 32" .
      then have "case cont_val n (cbs_bytes (adv 1 cbs)) (unat ?v) of
          None \<Rightarrow> fst (utf8_continuation n (adv 1 cbs) ?v) = None
        | Some w \<Rightarrow> utf8_continuation n (adv 1 cbs) ?v = (Some (word_of_nat w), adv n (adv 1 cbs)) \<and> w < 2 ^ 32"
        using Suc.prems(1) uv by (intro Suc.IH) simp_all
      moreover have "utf8_continuation (Suc n) cbs v = utf8_continuation n (adv 1 cbs) ?v"
        using True u8 by (simp add: bits_consts utf8_patterns)
      moreover have "cont_val (Suc n) (cbs_bytes cbs) (unat v) = cont_val n (cbs_bytes (adv 1 cbs)) (unat ?v)"
        using True Cons uv by simp
      ultimately show ?thesis by (simp only: adv_adv plus_1_eq_Suc)
    next
      case False
      then show ?thesis using Cons u8 by (simp add: bits_consts utf8_patterns)
    qed
  qed
qed

lemma low_valid: "unat u < 0x80 \<Longrightarrow> is_valid_code_point u"
proof -
  assume u: "unat u < 0x80"
  then have "drop_bit 15 u = 0" using drop_bit_eq_0_iff [of 15 u] by simp
  then have "\<not> bit (drop_bit 15 u) 0" by simp
  then have "\<not> bit u 15" unfolding bit_drop_bit_eq by simp
  then have "\<not> bit (u AND 0xfffe) 15" by (simp add: bit_and_iff)
  moreover have "bit (0xfffe :: u32) 15" by simp
  ultimately have "u AND 0xfffe \<noteq> 0xfffe" by metis
  then show ?thesis using u by (simp add: is_valid_code_point_def word_less_nat_alt word_le_nat_alt)
qed

lemma valid_bound: "is_valid_code_point u \<Longrightarrow> unat u \<le> 0x10ffff"
  by (simp add: is_valid_code_point_def word_less_nat_alt)

text \<open>The decoder, by the range of the first byte.\<close>

definition utf8_multi :: "nat \<Rightarrow> nat \<Rightarrow> nat \<Rightarrow> CBS \<Rightarrow> byte list \<Rightarrow> u32 option" where
  "utf8_multi n v lower c bs =
     (case cont_val n bs v of
        None \<Rightarrow> None
      | Some w \<Rightarrow> if is_valid_code_point (word_of_nat w) \<and> lower \<le> w then Some (word_of_nat w) else None)"

lemma cbs_get_utf8_eq:
  assumes wf: "cbs_wf cbs" and b: "cbs_bytes cbs = c # bs"
  shows "cbs_get_utf8 cbs = (Some u, cbs') \<longleftrightarrow>
    (if unat c < 128 then u = ucast c \<and> cbs' = adv 1 cbs
     else if unat c div 32 = 6 then utf8_multi 1 (unat c mod 32) 0x80 cbs bs = Some u \<and> cbs' = adv 2 cbs
     else if unat c div 16 = 14 then utf8_multi 2 (unat c mod 16) 0x800 cbs bs = Some u \<and> cbs' = adv 3 cbs
     else if unat c div 8 = 30 then utf8_multi 3 (unat c mod 8) 0x10000 cbs bs = Some u \<and> cbs' = adv 4 cbs
     else False)"
proof -
  have u8: "CBS_get_u8 cbs = (Some c, adv 1 cbs)" using b wf by (simp add: CBS_get_u8_eq)
  have small: "c \<le> 0x7f \<longleftrightarrow> unat c < 128" by (auto simp: word_le_nat_alt)
  have fin: "(case utf8_continuation n (adv 1 cbs) (ucast x) of
        (None, cbs2) \<Rightarrow> (None, cbs2)
      | (Some v', cbs2) \<Rightarrow> if \<not> is_valid_code_point v' \<or> v' < lower then (None, cbs2) else (Some v', cbs2)) = (Some u, cbs')
      \<longleftrightarrow> utf8_multi n (unat x) (unat lower) cbs bs = Some u \<and> cbs' = adv (Suc n) cbs"
    if "(unat x + 1) * 64 ^ n \<le> 2 ^ 32" for n lower and x :: byte
  proof -
    have ux: "unat (ucast x :: u32) = unat x" by simp
    have bs: "cbs_bytes (adv 1 cbs) = bs" using b by simp
    have wf1: "cbs_wf (adv 1 cbs)" using wf by simp
    note eq = utf8_continuation_eq [OF wf1, of "ucast x" n, unfolded ux bs, OF that]
    show ?thesis
    proof (cases "cont_val n bs (unat x)")
      case None
      then show ?thesis using eq by (cases "utf8_continuation n (adv 1 cbs) (ucast x)") (simp add: utf8_multi_def)
    next
      case (Some w)
      then have e: "utf8_continuation n (adv 1 cbs) (ucast x) = (Some (word_of_nat w), adv n (adv 1 cbs))" "w < 2 ^ 32"
        using eq by simp_all
      have "unat (word_of_nat w :: u32) = w" using e(2) by (simp add: unat_of_nat)
      then have "word_of_nat w < lower \<longleftrightarrow> \<not> unat lower \<le> w" by (simp add: word_less_nat_alt not_le)
      then show ?thesis using Some unfolding e(1) by (auto simp: utf8_multi_def)
    qed
  qed
  have m: "(unat (c AND 0x1f) + 1) * 64 ^ 1 \<le> 2 ^ 32" "(unat (c AND 0x0f) + 1) * 64 ^ 2 \<le> 2 ^ 32"
    "(unat (c AND 0x07) + 1) * 64 ^ 3 \<le> 2 ^ 32"
    unfolding utf8_lows
    by (rule order_trans [of _ "32 * 64 ^ 1"], simp_all add: Suc_leI)
  have n: "unat (0x80 :: u32) = 0x80" "unat (0x800 :: u32) = 0x800" "unat (0x10000 :: u32) = 0x10000"
    "Suc 1 = 2" "Suc 2 = 3" "Suc 3 = 4" by simp_all
  note fins = fin [OF m(1), of "0x80", unfolded utf8_lows n] fin [OF m(2), of "0x800", unfolded utf8_lows n]
    fin [OF m(3), of "0x10000", unfolded utf8_lows n]
  show ?thesis
    unfolding cbs_get_utf8_def u8 prod.case option.case Let_def bits_consts utf8_patterns small
    by (cases "unat c < 128"; cases "unat c div 32 = 6"; cases "unat c div 16 = 14"; cases "unat c div 8 = 30";
        simp only: if_True if_False fins simp_thms; auto)
qed

lemma div_eq_bounds: "(x :: nat) div k = q \<Longrightarrow> x = q * k + x mod k"
  using div_mult_mod_eq [of x k] by simp

lemma horner64: "w = q * 64 + r \<Longrightarrow> (r :: nat) < 64 \<Longrightarrow> w div 64 = q" "w = q * 64 + r \<Longrightarrow> (r :: nat) < 64 \<Longrightarrow> w mod 64 = r"
  by simp_all

lemma horner_bounds:
  fixes x y z t :: nat
  shows "w = (x * 64 + y) * 64 + z \<Longrightarrow> x < 16 \<Longrightarrow> y < 64 \<Longrightarrow> z < 64 \<Longrightarrow> w < 0x10000"
    "w = ((x * 64 + y) * 64 + z) * 64 + t \<Longrightarrow> x < 8 \<Longrightarrow> y < 64 \<Longrightarrow> z < 64 \<Longrightarrow> t < 64 \<Longrightarrow> w < 2 ^ 32"
  by simp_all

lemma cont_val_length: "cont_val n bs v = Some w \<Longrightarrow> n \<le> length bs"
proof (induction n bs v rule: cont_val.induct)
  case (3 n c bs v)
  then show ?case by (simp split: if_splits)
qed simp_all

lemma utf8_multi_Some:
  assumes "utf8_multi n v lower cbs bs = Some u"
  obtains w where "cont_val n bs v = Some w" "is_valid_code_point u" "lower \<le> w" "u = word_of_nat w"
  using assms by (auto simp: utf8_multi_def split: option.splits if_splits)

lemma byte_eq_word: "unat (x :: byte) = n \<Longrightarrow> word_of_nat n = x"
  by auto

lemma unat_u32: "w < 2 ^ 32 \<Longrightarrow> unat (word_of_nat w :: u32) = w"
  by (simp add: unat_of_nat)

lemma utf8_bytes_cases:
  "u < 0x80 \<Longrightarrow> utf8_bytes u = [word_of_nat u]"
  "0x80 \<le> u \<Longrightarrow> u < 0x800 \<Longrightarrow> utf8_bytes u = [word_of_nat (0xc0 + u div 64), word_of_nat (0x80 + u mod 64)]"
  "0x800 \<le> u \<Longrightarrow> u < 0x10000 \<Longrightarrow> utf8_bytes u =
     [word_of_nat (0xe0 + u div 4096), word_of_nat (0x80 + u div 64 mod 64), word_of_nat (0x80 + u mod 64)]"
  "0x10000 \<le> u \<Longrightarrow> utf8_bytes u = [word_of_nat (0xf0 + u div 262144), word_of_nat (0x80 + u div 4096 mod 64),
     word_of_nat (0x80 + u div 64 mod 64), word_of_nat (0x80 + u mod 64)]"
  unfolding utf8_bytes_def by (simp_all del: of_nat_add)

lemma cont_val_cases:
  "unat d div 64 = 2 \<Longrightarrow> cont_val 1 (d # r) v = Some (v * 64 + unat d mod 64)"
  "unat d div 64 = 2 \<Longrightarrow> unat e div 64 = 2 \<Longrightarrow> cont_val 2 (d # e # r) v = Some ((v * 64 + unat d mod 64) * 64 + unat e mod 64)"
  "unat d div 64 = 2 \<Longrightarrow> unat e div 64 = 2 \<Longrightarrow> unat f div 64 = 2 \<Longrightarrow>
   cont_val 3 (d # e # f # r) v = Some (((v * 64 + unat d mod 64) * 64 + unat e mod 64) * 64 + unat f mod 64)"
  by (simp_all add: numeral_2_eq_2 numeral_3_eq_3)

lemma utf8_two:
  assumes "cont_val 1 bs (unat c mod 32) = Some w" "unat (c :: byte) div 32 = 6" "0x80 \<le> w"
  shows "c # bs = utf8_bytes w @ drop 1 bs \<and> w < 2 ^ 32"
proof -
  from cont_val_length [OF assms(1)] obtain d ds where ds: "bs = d # ds" by (cases bs) auto
  have d: "unat d div 64 = 2" "w = unat c mod 32 * 64 + unat d mod 64" using assms(1) ds by (auto split: if_splits)
  have cm: "unat c = 192 + unat c mod 32" "unat d = 128 + unat d mod 64" "unat c mod 32 < 32" "unat d mod 64 < 64"
    using div_eq_bounds [OF assms(2)] div_eq_bounds [OF d(1)] by simp_all
  have wb: "w < 0x800" "w div 64 = unat c mod 32" "w mod 64 = unat d mod 64" using d(2) cm(3,4) by simp_all
  have "utf8_bytes w = [c, d]"
    unfolding utf8_bytes_cases(2) [OF assms(3) wb(1)] wb by (simp only: byte_eq_word [OF cm(1)] byte_eq_word [OF cm(2)])
  then show ?thesis using ds wb(1) by simp
qed

lemma utf8_three:
  assumes "cont_val 2 bs (unat c mod 16) = Some w" "unat (c :: byte) div 16 = 14" "0x800 \<le> w"
  shows "c # bs = utf8_bytes w @ drop 2 bs \<and> w < 2 ^ 32"
proof -
  from cont_val_length [OF assms(1)] obtain d e ds where ds: "bs = d # e # ds" by (cases bs; cases "tl bs") auto
  have d: "unat d div 64 = 2" "unat e div 64 = 2" "w = (unat c mod 16 * 64 + unat d mod 64) * 64 + unat e mod 64"
    using assms(1) ds by (auto simp: numeral_2_eq_2 split: if_splits)
  have cm: "unat c = 224 + unat c mod 16" "unat d = 128 + unat d mod 64" "unat e = 128 + unat e mod 64"
    "unat c mod 16 < 16" "unat d mod 64 < 64" "unat e mod 64 < 64"
    using div_eq_bounds [OF assms(2)] div_eq_bounds [OF d(1)] div_eq_bounds [OF d(2)] by simp_all
  note w1 = horner64 [OF d(3) cm(6)]
  have "w div 4096 = w div 64 div 64" by (simp add: div_mult2_eq [symmetric])
  then have wb: "w div 4096 = unat c mod 16" "w div 64 mod 64 = unat d mod 64" "w mod 64 = unat e mod 64"
    using horner64 [OF w1(1) cm(5)] w1(2) by simp_all
  have lt: "w < 0x10000" using horner_bounds(1) [OF d(3) cm(4-6)] .
  have "utf8_bytes w = [c, d, e]" unfolding utf8_bytes_cases(3) [OF assms(3) lt] wb
    by (simp only: byte_eq_word [OF cm(1)] byte_eq_word [OF cm(2)] byte_eq_word [OF cm(3)])
  then show ?thesis using ds lt by simp
qed

lemma utf8_four:
  assumes "cont_val 3 bs (unat c mod 8) = Some w" "unat (c :: byte) div 8 = 30" "0x10000 \<le> w"
  shows "c # bs = utf8_bytes w @ drop 3 bs \<and> w < 2 ^ 32"
proof -
  from cont_val_length [OF assms(1)] obtain d e f ds where ds: "bs = d # e # f # ds"
    by (cases bs; cases "tl bs"; cases "tl (tl bs)") auto
  have d: "unat d div 64 = 2" "unat e div 64 = 2" "unat f div 64 = 2"
    "w = ((unat c mod 8 * 64 + unat d mod 64) * 64 + unat e mod 64) * 64 + unat f mod 64"
    using assms(1) ds by (auto simp: numeral_3_eq_3 split: if_splits)
  have cm: "unat c = 240 + unat c mod 8" "unat d = 128 + unat d mod 64" "unat e = 128 + unat e mod 64" "unat f = 128 + unat f mod 64"
    "unat c mod 8 < 8" "unat d mod 64 < 64" "unat e mod 64 < 64" "unat f mod 64 < 64"
    using div_eq_bounds [OF assms(2)] div_eq_bounds [OF d(1)] div_eq_bounds [OF d(2)] div_eq_bounds [OF d(3)] by simp_all
  note w1 = horner64 [OF d(4) cm(8)]
  have "w div 4096 = w div 64 div 64" by (simp add: div_mult2_eq [symmetric])
  then have w2: "w div 4096 = unat c mod 8 * 64 + unat d mod 64" "w div 64 mod 64 = unat e mod 64"
    using horner64 [OF w1(1) cm(7)] by simp_all
  have "w div 262144 = w div 4096 div 64" by (simp add: div_mult2_eq [symmetric])
  then have wb: "w div 262144 = unat c mod 8" "w div 4096 mod 64 = unat d mod 64"
    using horner64 [OF w2(1) cm(6)] by simp_all
  have "utf8_bytes w = [c, d, e, f]" unfolding utf8_bytes_cases(4) [OF assms(3)] wb w1(2) w2(2)
    by (simp only: byte_eq_word [OF cm(1)] byte_eq_word [OF cm(2)] byte_eq_word [OF cm(3)] byte_eq_word [OF cm(4)])
  moreover have "w < 2 ^ 32" using horner_bounds(2) [OF d(4) cm(5-8)] .
  ultimately show ?thesis using ds by simp
qed

lemma cbs_get_utf8_sound:
  assumes get: "cbs_get_utf8 cbs = (Some u, cbs')" and wf: "cbs_wf cbs"
  shows "is_valid_code_point u \<and> cbs_bytes cbs = utf8_bytes (unat u) @ cbs_bytes cbs' \<and> cbs_wf cbs'"
proof -
  obtain c bs where b: "cbs_bytes cbs = c # bs"
    using get wf by (cases "cbs_bytes cbs") (simp_all add: cbs_get_utf8_def CBS_get_u8_eq)
  note eq = get [unfolded cbs_get_utf8_eq [OF wf b]]
  have multi: "is_valid_code_point u \<and> cbs_bytes cbs = utf8_bytes (unat u) @ cbs_bytes cbs' \<and> cbs_wf cbs'"
    if "utf8_multi n v lower cbs bs = Some u" "cbs' = adv k cbs" "k = Suc n"
      and enc: "\<And>w. cont_val n bs v = Some w \<Longrightarrow> lower \<le> w \<Longrightarrow> c # bs = utf8_bytes w @ drop n bs \<and> w < 2 ^ 32" for n v lower k
  proof -
    from that(1) obtain w where w: "cont_val n bs v = Some w" "is_valid_code_point u" "lower \<le> w" "u = word_of_nat w"
      by (rule utf8_multi_Some)
    note e = enc [OF w(1,3)]
    have "unat u = w" unfolding w(4) using e by (intro unat_u32) blast
    moreover have "cbs_bytes cbs' = drop n bs" "cbs_wf cbs'" using that(2,3) b wf by simp_all
    ultimately show ?thesis using e w(2) b by metis
  qed
  show ?thesis
  proof (cases "unat c < 128")
    case True
    then have "u = ucast c" "cbs' = adv 1 cbs" using eq by simp_all
    then show ?thesis using True b wf by (simp add: low_valid utf8_bytes_def)
  next
    case False
    then consider
        "unat c div 32 = 6" "utf8_multi 1 (unat c mod 32) 0x80 cbs bs = Some u" "cbs' = adv 2 cbs"
      | "unat c div 16 = 14" "utf8_multi 2 (unat c mod 16) 0x800 cbs bs = Some u" "cbs' = adv 3 cbs"
      | "unat c div 8 = 30" "utf8_multi 3 (unat c mod 8) 0x10000 cbs bs = Some u" "cbs' = adv 4 cbs"
      using eq by (auto split: if_splits)
    then show ?thesis
    proof cases
      case 1
      show ?thesis by (rule multi [OF 1(2,3)]) (simp, rule utf8_two [OF _ 1(1)])
    next
      case 2
      show ?thesis by (rule multi [OF 2(2,3)]) (simp, rule utf8_three [OF _ 2(1)])
    next
      case 3
      show ?thesis by (rule multi [OF 3(2,3)]) (simp, rule utf8_four [OF _ 3(1)])
    qed
  qed
qed

lemma byte_parts:
  assumes "r < k" "q * k + r < 256"
  shows "unat (word_of_nat (q * k + r) :: byte) div k = q" "unat (word_of_nat (q * k + r) :: byte) mod k = r"
    "unat (word_of_nat (q * k + r) :: byte) = q * k + r"
proof -
  show u: "unat (word_of_nat (q * k + r) :: byte) = q * k + r" using assms(2) by (simp only: unat_byte_of_nat) simp
  show "unat (word_of_nat (q * k + r) :: byte) div k = q" "unat (word_of_nat (q * k + r) :: byte) mod k = r"
    unfolding u using assms(1) by simp_all
qed

lemma utf8_shape:
  assumes "u \<le> 0x10ffff"
  obtains (one) c where "u < 0x80" "utf8_bytes u = [c]" "unat c = u"
  | (two) c d where "0x80 \<le> u" "u < 0x800" "utf8_bytes u = [c, d]" "unat c div 32 = 6" "cont_val 1 (d # rest) (unat c mod 32) = Some u"
  | (three) c d e where "0x800 \<le> u" "u < 0x10000" "utf8_bytes u = [c, d, e]" "unat c div 16 = 14"
      "cont_val 2 (d # e # rest) (unat c mod 16) = Some u"
  | (four) c d e f where "0x10000 \<le> u" "utf8_bytes u = [c, d, e, f]" "unat c div 8 = 30"
      "cont_val 3 (d # e # f # rest) (unat c mod 8) = Some u"
proof -
  have low: "unat (word_of_nat (0x80 + x mod 64) :: byte) div 64 = 2" "unat (word_of_nat (0x80 + x mod 64) :: byte) mod 64 = x mod 64" for x
    using byte_parts [of "x mod 64" 64 2] by simp_all
  consider "u < 0x80" | "0x80 \<le> u" "u < 0x800" | "0x800 \<le> u" "u < 0x10000" | "0x10000 \<le> u" by linarith
  then show thesis
  proof cases
    case 1
    then show thesis by (intro one [of "word_of_nat u"]) (simp_all add: utf8_bytes_def unat_byte_of_nat)
  next
    case 2
    have "u div 64 < 32" using 2 by (simp add: div_less_iff_less_mult)
    then have c: "unat (word_of_nat (0xc0 + u div 64) :: byte) div 32 = 6" "unat (word_of_nat (0xc0 + u div 64) :: byte) mod 32 = u div 64"
      using byte_parts [of "u div 64" 32 6] by simp_all
    show thesis
      by (rule two [OF 2 utf8_bytes_cases(2) [OF 2] c(1)])
        (simp only: cont_val_cases(1) [OF low(1)] c(2) low(2) div_mult_mod_eq)
  next
    case 3
    have "u div 4096 < 16" using 3 by (simp add: div_less_iff_less_mult)
    then have c: "unat (word_of_nat (0xe0 + u div 4096) :: byte) div 16 = 14" "unat (word_of_nat (0xe0 + u div 4096) :: byte) mod 16 = u div 4096"
      using byte_parts [of "u div 4096" 16 14] by simp_all
    have "u div 4096 = u div 64 div 64" by (simp add: div_mult2_eq [symmetric])
    then have "u div 4096 * 64 + u div 64 mod 64 = u div 64" by simp
    then show thesis
      by (intro three [OF 3 utf8_bytes_cases(3) [OF 3] c(1)])
        (simp only: cont_val_cases(2) [OF low(1) low(1)] c(2) low(2) div_mult_mod_eq)
  next
    case 4
    have "u div 262144 < 8" using assms by (simp add: div_less_iff_less_mult)
    then have c: "unat (word_of_nat (0xf0 + u div 262144) :: byte) div 8 = 30" "unat (word_of_nat (0xf0 + u div 262144) :: byte) mod 8 = u div 262144"
      using byte_parts [of "u div 262144" 8 30] by simp_all
    have "u div 262144 = u div 4096 div 64" "u div 4096 = u div 64 div 64" by (simp_all add: div_mult2_eq [symmetric])
    then have "u div 262144 * 64 + u div 4096 mod 64 = u div 4096" "u div 4096 * 64 + u div 64 mod 64 = u div 64" by simp_all
    then show thesis
      by (intro four [OF 4 utf8_bytes_cases(4) [OF 4] c(1)])
        (simp only: cont_val_cases(3) [OF low(1) low(1) low(1)] c(2) low(2) div_mult_mod_eq)
  qed
qed

lemma cbs_get_utf8_complete:
  assumes u: "is_valid_code_point u" and b: "cbs_bytes cbs = utf8_bytes (unat u) @ rest" and wf: "cbs_wf cbs"
  shows "cbs_get_utf8 cbs = (Some u, adv (length (utf8_bytes (unat u))) cbs)"
  using valid_bound [OF u]
proof (cases rule: utf8_shape [where rest = rest])
  case (one c)
  have "ucast c = u" using one(3) by (intro word_eqI_unat) simp
  then show ?thesis using one b by (subst cbs_get_utf8_eq [OF wf, of c rest]) simp_all
next
  case (two c d)
  have bs: "cbs_bytes cbs = c # d # rest" using two b by simp
  have "\<not> unat c < 128" using div_eq_bounds [OF two(4)] by simp
  then show ?thesis using two(3-5) u two(1) by (subst cbs_get_utf8_eq [OF wf bs]) (simp add: utf8_multi_def numeral_2_eq_2 del: cont_val.simps)
next
  case (three c d e)
  have bs: "cbs_bytes cbs = c # d # e # rest" using three b by simp
  have "\<not> unat c < 128" "unat c div 32 \<noteq> 6" using div_eq_bounds [OF three(4)] by simp_all
  then show ?thesis using three(1,3-5) u by (subst cbs_get_utf8_eq [OF wf bs]) (simp add: utf8_multi_def numeral_3_eq_3 del: cont_val.simps)
next
  case (four c d e f)
  have bs: "cbs_bytes cbs = c # d # e # f # rest" using four b by simp
  have "\<not> unat c < 128" "unat c div 32 \<noteq> 6" "unat c div 16 \<noteq> 14" using div_eq_bounds [OF four(3)] by simp_all
  moreover have len: "length (utf8_bytes (unat u)) = 4" using four(2) by simp
  ultimately show ?thesis using four(1,3,4) u unfolding len cbs_get_utf8_eq [OF wf bs]
    by (simp add: utf8_multi_def del: cont_val.simps)
qed

subsection \<open>The encoder\<close>

lemma lead_byte:
  assumes "unat (x :: u32) < 2 ^ k" "T = push_bit k t" "unat T + unat x < 256"
  shows "(ucast (ucast (T :: byte) OR x) :: byte) = word_of_nat (unat T + unat x)"
proof (rule word_of_nat_eqI)
  have "ucast T AND x = 0"
    unfolding assms(2) by (rule bit_eqI) (use bit_below [OF assms(1)] in \<open>fastforce simp: bit_simps\<close>)
  then have "unat (ucast T OR x) = unat T + unat x" by (simp add: unat_or_disjoint)
  then show "unat (ucast (ucast T OR x) :: byte) = unat T + unat x"
    using assms(3) by (simp add: unsigned_ucast_eq take_bit_nat_eq_self)
qed

lemma utf8_low_byte:
  "(ucast (0x80 OR ((x :: u32) AND 0x3f)) :: byte) = word_of_nat (0x80 + unat x mod 64)"
proof -
  have "unat (x AND 0x3f) = unat x mod 64" using unat_and_mask [of x 6] by (simp add: mask_eq_exp_minus_1)
  moreover have "(0x80 :: byte) = push_bit 6 2" by (simp add: push_bit_eq_mult)
  moreover have "unat x mod 64 < 64" by simp
  ultimately show ?thesis using lead_byte [of "x AND 0x3f" 6 "0x80" 2] by simp
qed

lemma utf8_lead_byte:
  "unat (x :: u32) < 32 \<Longrightarrow> (ucast (ucast (0xc0 :: byte) OR x) :: byte) = word_of_nat (0xc0 + unat x)"
  "unat (x :: u32) < 16 \<Longrightarrow> (ucast (ucast (0xe0 :: byte) OR x) :: byte) = word_of_nat (0xe0 + unat x)"
  "unat (x :: u32) < 8 \<Longrightarrow> (ucast (ucast (0xf0 :: byte) OR x) :: byte) = word_of_nat (0xf0 + unat x)"
  using lead_byte [of x 5 "0xc0" 6] lead_byte [of x 4 "0xe0" 14] lead_byte [of x 3 "0xf0" 30]
  by (simp_all add: push_bit_eq_mult)

lemma drop_bit_u32: "unat (drop_bit n (u :: u32)) = unat u div 2 ^ n"
  unfolding unat_drop_bit_eq by (simp add: drop_bit_eq_div)

lemma cbb_add_utf8_seq:
  assumes "is_valid_code_point u"
  shows "cbb_add_utf8 m a u = add_seq m a (utf8_bytes (unat u)) succeed"
proof -
  have le: "u \<le> 0x7f \<longleftrightarrow> unat u < 0x80" "u \<le> 0x7ff \<longleftrightarrow> unat u < 0x800" "u \<le> 0xffff \<longleftrightarrow> unat u < 0x10000"
    "u \<le> 0x10ffff" using valid_bound [OF assms] by (auto simp: word_le_nat_alt)
  have d: "unat (drop_bit 6 u) = unat u div 64" "unat (drop_bit 12 u) = unat u div 4096" "unat (drop_bit 18 u) = unat u div 262144"
    by (simp_all add: drop_bit_u32)
  consider "unat u < 0x80" | "0x80 \<le> unat u" "unat u < 0x800" | "0x800 \<le> unat u" "unat u < 0x10000" | "0x10000 \<le> unat u" by linarith
  then show ?thesis
  proof cases
    case 1
    then show ?thesis using assms le by (intro ext) (simp add: cbb_add_utf8_def utf8_bytes_cases(1))
  next
    case 2
    then have "unat (drop_bit 6 u) < 32" by (simp add: d div_less_iff_less_mult)
    with 2 show ?thesis using assms le utf8_lead_byte(1) [of "drop_bit 6 u"]
      by (intro ext) (simp add: cbb_add_utf8_def utf8_bytes_cases(2) bits_consts utf8_low_byte d Let_def del: of_nat_add)
  next
    case 3
    then have "unat (drop_bit 12 u) < 16" by (simp add: d div_less_iff_less_mult)
    with 3 show ?thesis using assms le utf8_lead_byte(2) [of "drop_bit 12 u"]
      by (intro ext) (simp add: cbb_add_utf8_def utf8_bytes_cases(3) bits_consts utf8_low_byte d Let_def del: of_nat_add)
  next
    case 4
    then have "unat (drop_bit 18 u) < 8" using valid_bound [OF assms] by (simp add: d div_less_iff_less_mult)
    with 4 show ?thesis using assms le utf8_lead_byte(3) [of "drop_bit 18 u"]
      by (intro ext) (simp add: cbb_add_utf8_def utf8_bytes_cases(4) bits_consts utf8_low_byte d Let_def del: of_nat_add)
  qed
qed

lemma length_utf8_bytes: "is_valid_code_point u \<Longrightarrow> length (utf8_bytes (unat u)) = cbb_get_utf8_len u"
  by (simp add: utf8_bytes_def cbb_get_utf8_len_def word_le_nat_alt not_less_eq_eq)

subsection \<open>Properties\<close>

text \<open>
  C9: the UTF-8 decoder is exact: \<open>cbs_get_utf8\<close> returns code point \<open>u\<close> and leaves \<open>rest\<close> if
  and only if \<open>u\<close> is a valid code point (no surrogate, no noncharacter, at most \<open>0x10ffff\<close>)
  and the input is the shortest UTF-8 encoding of \<open>u\<close> followed by \<open>rest\<close>; overlong and
  truncated sequences are rejected.
\<close>

theorem cbs_get_utf8_exact:
  assumes "cbs_wf cbs"
  shows "(\<exists>cbs'. cbs_get_utf8 cbs = (Some u, cbs') \<and> cbs_bytes cbs' = rest) \<longleftrightarrow>
    is_valid_code_point u \<and> cbs_bytes cbs = utf8_bytes (unat u) @ rest"
  using cbs_get_utf8_sound [OF _ assms] cbs_get_utf8_complete [OF _ _ assms] by fastforce

theorem cbs_get_utf8_exact_witness:
  "\<exists>cbs'. cbs_get_utf8 (CBS_init [0xe2, 0x82, 0xac, 0x21] 4) = (Some 0x20ac, cbs') \<and> cbs_bytes cbs' = [0x21]"
  using cbs_get_utf8_exact [of "CBS_init [0xe2, 0x82, 0xac, 0x21] 4" "0x20ac" "[0x21]"]
  by (simp add: cbs_wf_def CBS_init_def cbs_bytes_def utf8_bytes_def is_valid_code_point_def)

text \<open>
  UTF-8 round trip. Writing any valid code point with \<open>cbb_add_utf8\<close> succeeds when memory
  can be allocated, writes \<open>cbb_get_utf8_len\<close> bytes, and \<open>cbs_get_utf8\<close> reads the code point
  back from them.
\<close>

theorem utf8_roundtrip:
  assumes "is_valid_code_point u" "\<forall>k n. m k n \<noteq> None" "cap < 2 ^ 63"
  shows "\<exists>buf cbs'. session m a cap (cbb_add_utf8 m a u) h0 = Some (Some (buf, cbb_get_utf8_len u)) \<and>
    cbs_get_utf8 (CBS_init buf (cbb_get_utf8_len u)) = (Some u, cbs') \<and> cbs_bytes cbs' = []"
proof -
  have w: "works m a {} [] (cbb_add_utf8 m a u) (Some (utf8_bytes (unat u))) []"
    unfolding cbb_add_utf8_seq [OF assms(1)] by (rule works_add_seq_succeed)
  note len = length_utf8_bytes [OF assms(1)]
  have "length (utf8_bytes (unat u) @ []) < 2 ^ 62" by (simp add: len cbb_get_utf8_len_def)
  from session_works [OF w _ assms(2,3) this, of h0] obtain buf where
    "session m a cap (cbb_add_utf8 m a u) h0 = Some (Some (buf, cbb_get_utf8_len u))"
    "cbs_bytes (CBS_init buf (cbb_get_utf8_len u)) = utf8_bytes (unat u) @ []" "cbs_wf (CBS_init buf (cbb_get_utf8_len u))"
    by (auto simp: len)
  then show ?thesis using cbs_get_utf8_complete [OF assms(1)] by auto
qed

theorem utf8_roundtrip_witness:
  "\<exists>buf cbs'. session zero_alloc 0 0 (cbb_add_utf8 zero_alloc 0 0x1f600) empty_heap = Some (Some (buf, cbb_get_utf8_len 0x1f600)) \<and>
    cbs_get_utf8 (CBS_init buf (cbb_get_utf8_len 0x1f600)) = (Some 0x1f600, cbs') \<and> cbs_bytes cbs' = []"
  using utf8_roundtrip [OF _ zero_alloc_ok, of "0x1f600" 0 0 empty_heap]
  by (simp add: is_valid_code_point_def)

end
