(* ===== verification/Constant_Time.thy ===== *)
theory Constant_Time
  imports Prelude
begin

unbundle bit_operations_syntax

text \<open>
  The branch-free comparison helpers of \<open>crypto/internal.h\<close> on the 64-bit \<open>crypto_word_t\<close>.
  \<open>value_barrier_w\<close> only constrains the compiler and is the identity. The lemmas show that
  every mask is all ones or zero according to the comparison it names, and that the select
  helpers choose by such a mask.
\<close>

definition constant_time_msb_w :: "u64 \<Rightarrow> u64" where
  "constant_time_msb_w a = 0 - drop_bit (64 - 1) a"

definition constant_time_lt_w :: "u64 \<Rightarrow> u64 \<Rightarrow> u64" where
  "constant_time_lt_w a b = constant_time_msb_w (a XOR ((a XOR b) OR ((a - b) XOR a)))"

definition constant_time_lt_8 :: "u64 \<Rightarrow> u64 \<Rightarrow> byte" where
  "constant_time_lt_8 a b = ucast (constant_time_lt_w a b)"

definition constant_time_ge_w :: "u64 \<Rightarrow> u64 \<Rightarrow> u64" where
  "constant_time_ge_w a b = NOT (constant_time_lt_w a b)"

definition constant_time_ge_8 :: "u64 \<Rightarrow> u64 \<Rightarrow> byte" where
  "constant_time_ge_8 a b = ucast (constant_time_ge_w a b)"

definition constant_time_is_zero_w :: "u64 \<Rightarrow> u64" where
  "constant_time_is_zero_w a = constant_time_msb_w (NOT a AND (a - 1))"

definition constant_time_is_zero_8 :: "u64 \<Rightarrow> byte" where
  "constant_time_is_zero_8 a = ucast (constant_time_is_zero_w a)"

definition constant_time_eq_w :: "u64 \<Rightarrow> u64 \<Rightarrow> u64" where
  "constant_time_eq_w a b = constant_time_is_zero_w (a XOR b)"

definition constant_time_eq_8 :: "u64 \<Rightarrow> u64 \<Rightarrow> byte" where
  "constant_time_eq_8 a b = ucast (constant_time_eq_w a b)"

definition constant_time_select_w :: "u64 \<Rightarrow> u64 \<Rightarrow> u64 \<Rightarrow> u64" where
  "constant_time_select_w mask_w a b = (mask_w AND a) OR (NOT mask_w AND b)"

definition constant_time_select_8 :: "byte \<Rightarrow> byte \<Rightarrow> byte \<Rightarrow> byte" where
  "constant_time_select_8 mask_w a b = ucast (constant_time_select_w (ucast mask_w) (ucast a) (ucast b))"

subsection \<open>Masks\<close>

lemma drop_bit_63: "drop_bit 63 (a :: u64) = (if bit a 63 then 1 else 0)"
proof (rule bit_eqI)
  fix n
  have "\<not> bit a (63 + n)" if "0 < n" using that bit_imp_le_length [of a "63 + n"] by auto
  then show "bit (drop_bit 63 a) n = bit (if bit a 63 then 1 else 0 :: u64) n"
    by (cases "n = 0") (auto simp: bit_drop_bit_eq bit_1_iff)
qed

lemma msb_bit: "constant_time_msb_w a = (if bit a 63 then - 1 else 0)"
  by (simp add: constant_time_msb_w_def drop_bit_63)

lemma bit_63_iff: "bit (a :: u64) 63 \<longleftrightarrow> 2 ^ 63 \<le> unat a"
proof
  assume "bit a 63"
  then show "2 ^ 63 \<le> unat a" using bit_below [of a 63 63] by (auto simp: not_less [symmetric])
next
  assume a: "2 ^ 63 \<le> unat a"
  show "bit a 63"
  proof (rule ccontr)
    assume n: "\<not> bit a 63"
    then have "drop_bit 63 a = 0" by (simp add: drop_bit_63)
    then show False using a drop_bit_eq_0_iff [of 63 a] by simp
  qed
qed

lemma unat_sub_u64: "unat ((a :: u64) - b) = (if unat b \<le> unat a then unat a - unat b else 2 ^ 64 + unat a - unat b)"
proof (cases "unat b \<le> unat a")
  case True
  then show ?thesis by (simp add: unat_sub_if_size word_size)
next
  case False
  then show ?thesis by (simp add: unat_sub_if_size word_size)
qed

lemma constant_time_is_zero_w_eq: "constant_time_is_zero_w a = (if a = 0 then - 1 else 0)"
proof (cases "a = 0")
  case False
  then have "0 < unat a" by (simp add: unat_gt_0)
  then have u: "unat (a - 1) = unat a - 1" by (simp add: unat_sub_u64)
  have "\<not> (\<not> bit a 63 \<and> bit (a - 1) 63)" unfolding bit_63_iff u by linarith
  then show ?thesis using False by (simp add: constant_time_is_zero_w_def msb_bit bit_simps)
qed (simp add: constant_time_is_zero_w_def msb_bit)

lemma constant_time_eq_w_eq: "constant_time_eq_w a b = (if a = b then - 1 else 0)"
proof -
  have "a XOR b = 0 \<longleftrightarrow> a = b" by (auto simp: bit_eq_iff bit_simps)
  then show ?thesis by (simp add: constant_time_eq_w_def constant_time_is_zero_w_eq)
qed

lemma constant_time_lt_w_eq: "constant_time_lt_w a b = (if a < b then - 1 else 0)"
proof -
  have bits: "unat a < 2 ^ 64" "unat b < 2 ^ 64"
    using unsigned_less [of a, where ?'a = nat] unsigned_less [of b, where ?'a = nat] by simp_all
  have "bit (a XOR ((a XOR b) OR ((a - b) XOR a))) 63 \<longleftrightarrow> (if bit a 63 = bit b 63 then bit (a - b) 63 else bit b 63)"
    by (auto simp: bit_simps)
  also have "\<dots> \<longleftrightarrow> unat a < unat b"
    unfolding bit_63_iff unat_sub_u64 using bits by auto
  finally show ?thesis by (simp add: constant_time_lt_w_def msb_bit word_less_nat_alt)
qed

lemma byte_ones: "(0xff :: byte) = - 1"
  by simp

lemma byte_of_mask [simp]: "(ucast (- 1 :: u64) :: byte) = 0xff"
  unfolding byte_ones by (rule bit_eqI) (simp add: bit_simps)

lemma constant_time_8_eq:
  "constant_time_lt_8 a b = (if a < b then 0xff else 0)"
  "constant_time_ge_8 a b = (if a < b then 0 else 0xff)"
  "constant_time_eq_8 a b = (if a = b then 0xff else 0)"
  "constant_time_is_zero_8 a = (if a = 0 then 0xff else 0)"
  by (simp_all add: constant_time_lt_8_def constant_time_ge_8_def constant_time_ge_w_def constant_time_eq_8_def
      constant_time_is_zero_8_def constant_time_lt_w_eq constant_time_eq_w_eq constant_time_is_zero_w_eq)

lemma constant_time_select_8_eq [simp]:
  "constant_time_select_8 0xff a b = a" "constant_time_select_8 0 a b = b"
proof -
  show "constant_time_select_8 0xff a b = a"
    unfolding constant_time_select_8_def constant_time_select_w_def byte_ones
    by (rule bit_eqI) (auto simp: bit_simps)
  show "constant_time_select_8 0 a b = b"
    unfolding constant_time_select_8_def constant_time_select_w_def
    by (rule bit_eqI) (auto simp: bit_simps)
qed

text \<open>
  C10: the branch-free comparisons decide what they name. For all 64-bit words \<open>a\<close> and \<open>b\<close> the
  masks for less-than, greater-or-equal, equality and zero are all ones exactly when the
  comparison holds and zero otherwise, and \<open>constant_time_select_w\<close> on such a mask picks its
  second or third argument.
\<close>

theorem constant_time_comparisons:
  "constant_time_lt_w a b = (if a < b then - 1 else 0) \<and>
   constant_time_ge_w a b = (if b \<le> a then - 1 else 0) \<and>
   constant_time_eq_w a b = (if a = b then - 1 else 0) \<and>
   constant_time_is_zero_w a = (if a = 0 then - 1 else 0) \<and>
   constant_time_select_w (constant_time_lt_w a b) x y = (if a < b then x else y)"
  by (auto simp: constant_time_lt_w_eq constant_time_ge_w_def constant_time_eq_w_eq constant_time_is_zero_w_eq
      constant_time_select_w_def not_less)

end
