(* ===== verification/Base64.thy ===== *)
theory Base64
  imports Constant_Time Mem
begin

unbundle bit_operations_syntax

text \<open>
  Base64 of \<open>crypto/base64/base64.c\<close>: the constant-time character conversions, the block
  encoder and decoder, and the streaming encoder and decoder with their context. An output
  buffer is the list of the bytes stored from the output pointer on, including a trailing
  NUL where the code writes one; \<open>int\<close> results are integers.

  Lemmas: the conversions are the RFC 4648 alphabet and its inverse, decoding inverts
  encoding, \<open>EVP_EncodedLength\<close> is exactly the space the encoder uses, and the streaming
  encoder is independent of how the input is cut into pieces.
\<close>

subsection \<open>Characters\<close>

definition constant_time_lt_args_8 :: "byte \<Rightarrow> byte \<Rightarrow> byte" where
  "constant_time_lt_args_8 a b = ucast (constant_time_msb_w (ucast a - ucast b))"

definition constant_time_in_range_8 :: "byte \<Rightarrow> byte \<Rightarrow> byte \<Rightarrow> byte" where
  "constant_time_in_range_8 a lo hi = constant_time_lt_args_8 (a - lo) (hi - lo + 1)"

definition conv_bin2ascii :: "byte \<Rightarrow> byte" where
  "conv_bin2ascii a0 =
     (let a = a0 AND 0x3f;
          ret = constant_time_select_8 (constant_time_eq_8 (ucast a) 62) 0x2b 0x2f;
          ret = constant_time_select_8 (constant_time_lt_args_8 a 62) (a - 52 + 0x30) ret;
          ret = constant_time_select_8 (constant_time_lt_args_8 a 52) (a - 26 + 0x61) ret
      in constant_time_select_8 (constant_time_lt_args_8 a 26) (a + 0x41) ret)"

definition base64_ascii_to_bin :: "byte \<Rightarrow> byte" where
  "base64_ascii_to_bin a =
     (let is_upper = constant_time_in_range_8 a 0x41 0x5a;
          is_lower = constant_time_in_range_8 a 0x61 0x7a;
          is_digit = constant_time_in_range_8 a 0x30 0x39;
          is_plus = constant_time_eq_8 (ucast a) 0x2b;
          is_slash = constant_time_eq_8 (ucast a) 0x2f;
          is_equals = constant_time_eq_8 (ucast a) 0x3d;
          ret = 0;
          ret = ret OR (is_upper AND (a - 0x41));
          ret = ret OR (is_lower AND (a - 0x61 + 26));
          ret = ret OR (is_digit AND (a - 0x30 + 52));
          ret = ret OR (is_plus AND 62);
          ret = ret OR (is_slash AND 63);
          is_valid = is_upper OR is_lower OR is_digit OR is_plus OR is_slash OR is_equals
      in ret OR NOT is_valid)"

subsection \<open>Blocks\<close>

definition EVP_EncodedLength :: "nat \<Rightarrow> nat option" where
  "EVP_EncodedLength n0 =
     (if (n0 + 2) mod size_mod < n0 then None
      else
        (let n = (n0 + 2) mod size_mod div 3
         in if (n * 4) mod size_mod div 4 \<noteq> n then None
            else
              (let n = (n * 4) mod size_mod
               in if (n + 1) mod size_mod < n then None else Some (n + 1))))"

definition encode_group :: "u32 \<Rightarrow> nat \<Rightarrow> byte" where
  "encode_group l s = conv_bin2ascii (ucast (drop_bit s l))"

fun encode_loop :: "byte list \<Rightarrow> byte list" where
  "encode_loop (a # b # c # src) =
     (let l = push_bit 16 (ucast a) OR push_bit 8 (ucast b) OR ucast c
      in encode_group l 18 # encode_group l 12 # encode_group l 6 # encode_group l 0 # encode_loop src)"
| "encode_loop [a, b] =
     (let l = push_bit 16 (ucast a) OR push_bit 8 (ucast b)
      in [encode_group l 18, encode_group l 12, encode_group l 6, 0x3d])"
| "encode_loop [a] =
     (let l = push_bit 16 (ucast a) in [encode_group l 18, encode_group l 12, 0x3d, 0x3d])"
| "encode_loop [] = []"

text \<open>The bytes stored at \<open>dst\<close> and the return value.\<close>

definition EVP_EncodeBlock :: "byte list \<Rightarrow> nat \<Rightarrow> byte list \<times> nat" where
  "EVP_EncodeBlock src src_len =
     (let e = encode_loop (take src_len src) in (e @ [0], length e))"

definition EVP_DecodedLength :: "nat \<Rightarrow> nat option" where
  "EVP_DecodedLength n = (if n mod 4 \<noteq> 0 then None else Some (n div 4 * 3))"

text \<open>The bytes written to \<open>out\<close> (their number is \<open>*out_num_bytes\<close>); \<open>None\<close> is return value 0.\<close>

definition base64_decode_quad :: "byte \<Rightarrow> byte \<Rightarrow> byte \<Rightarrow> byte \<Rightarrow> byte list option" where
  "base64_decode_quad in0 in1 in2 in3 =
     (let a = base64_ascii_to_bin in0; b = base64_ascii_to_bin in1;
          c = base64_ascii_to_bin in2; d = base64_ascii_to_bin in3
      in if a = 0xff \<or> b = 0xff \<or> c = 0xff \<or> d = 0xff then None
         else
           (let v = push_bit 18 (ucast a) OR push_bit 12 (ucast b) OR push_bit 6 (ucast c) OR ucast d :: u32;
                padding_pattern =
                  (if in0 = 0x3d then 8 else 0) + (if in1 = 0x3d then 4 else 0) +
                  (if in2 = 0x3d then 2 else 0) + (if in3 = 0x3d then 1 else (0 :: nat))
            in if padding_pattern = 0
               then Some [ucast (drop_bit 16 v), ucast (drop_bit 8 v), ucast v]
               else if padding_pattern = 1 then Some [ucast (drop_bit 16 v), ucast (drop_bit 8 v)]
               else if padding_pattern = 3 then Some [ucast (drop_bit 16 v)]
               else None))"

text \<open>The quad loop of \<open>EVP_DecodeBase64\<close>: remaining input, output so far; result and output.\<close>

fun decode_loop :: "byte list \<Rightarrow> byte list \<Rightarrow> bool \<times> byte list" where
  "decode_loop (a # b # c # d # inp) out =
     (case base64_decode_quad a b c d of
        None \<Rightarrow> (False, out)
      | Some bs \<Rightarrow>
          if length bs \<noteq> 3 \<and> inp \<noteq> [] then (False, out @ bs) else decode_loop inp (out @ bs))"
| "decode_loop _ out = (True, out)"

text \<open>Return value, bytes stored at \<open>out\<close> and \<open>*out_len\<close>.\<close>

definition EVP_DecodeBase64 :: "nat \<Rightarrow> byte list \<Rightarrow> nat \<Rightarrow> bool \<times> byte list \<times> nat" where
  "EVP_DecodeBase64 max_out inp in_len =
     (if in_len mod 4 \<noteq> 0 then (False, [], 0)
      else (case EVP_DecodedLength in_len of
              None \<Rightarrow> (False, [], 0)
            | Some max_len \<Rightarrow>
                if max_out < max_len then (False, [], 0)
                else (case decode_loop (take in_len inp) [] of
                        (False, out) \<Rightarrow> (False, out, 0)
                      | (True, out) \<Rightarrow> (True, out, length out))))"

abbreviation INT_MAX :: nat where "INT_MAX \<equiv> 2 ^ 31 - 1"

definition trim_start :: "byte list \<Rightarrow> byte list" where
  "trim_start = dropWhile (\<lambda>c. c = 0x20 \<or> c = 0x09)"

definition trim_end :: "byte list \<Rightarrow> byte list" where
  "trim_end src = rev (dropWhile (\<lambda>c. c = 0x20 \<or> c = 0x09 \<or> c = 0x0d \<or> c = 0x0a) (rev src))"

text \<open>The bytes stored at \<open>dst\<close> and the return value.\<close>

definition EVP_DecodeBlock :: "byte list \<Rightarrow> nat \<Rightarrow> byte list \<times> int" where
  "EVP_DecodeBlock src0 src_len0 =
     (let src = trim_end (trim_start (take src_len0 src0)); src_len = length src
      in case EVP_DecodedLength src_len of
           None \<Rightarrow> ([], - 1)
         | Some dst_len \<Rightarrow>
             if dst_len > INT_MAX then ([], - 1)
             else (case EVP_DecodeBase64 dst_len src src_len of
                     (False, out, _) \<Rightarrow> (out, - 1)
                   | (True, out, n) \<Rightarrow>
                       (let pad = (if n mod 3 = 0 then 0 else 3 - n mod 3)
                        in (out @ replicate pad 0, int (n + pad)))))"

subsection \<open>Streaming\<close>

record EVP_ENCODE_CTX =
  ctx_data_used :: nat
  ctx_data :: "byte list"
  ctx_eof_seen :: bool
  ctx_error_encountered :: bool

definition EVP_EncodeInit :: EVP_ENCODE_CTX where
  "EVP_EncodeInit = \<lparr>ctx_data_used = 0, ctx_data = replicate 48 0, ctx_eof_seen = False, ctx_error_encountered = False\<rparr>"

definition EVP_DecodeInit :: EVP_ENCODE_CTX where
  "EVP_DecodeInit = \<lparr>ctx_data_used = 0, ctx_data = replicate 48 0, ctx_eof_seen = False, ctx_error_encountered = False\<rparr>"

text \<open>
  One full line: the block encoder writes it, the newline replaces its NUL and a new NUL
  follows. The loop takes the remaining input, the output so far and the running total;
  \<open>None\<close> as tot is the overflow return.
\<close>

function encode_lines :: "byte list \<Rightarrow> byte list \<Rightarrow> nat \<Rightarrow> byte list \<times> byte list \<times> nat option" where
  "encode_lines inp out tot =
     (if length inp \<ge> 48 then
        (let (w, encoded) = EVP_EncodeBlock inp 48;
             out' = take tot out @ take encoded w @ [0x0a, 0]
         in if (tot + encoded + 1) mod size_mod < tot then (drop 48 inp, out', None)
            else encode_lines (drop 48 inp) out' (tot + encoded + 1))
      else (inp, out, Some tot))"
  by pat_completeness auto
termination by (relation "measure (\<lambda>(inp, _, _). length inp)") auto

declare encode_lines.simps [simp del]

text \<open>New context, bytes stored at \<open>out\<close> and \<open>*out_len\<close>.\<close>

definition EVP_EncodeUpdate :: "EVP_ENCODE_CTX \<Rightarrow> byte list \<Rightarrow> nat \<Rightarrow> EVP_ENCODE_CTX \<times> byte list \<times> nat" where
  "EVP_EncodeUpdate ctx inp0 in_len =
     (let inp = take in_len inp0
      in if in_len = 0 then (ctx, [], 0)
         else if 48 - ctx_data_used ctx > in_len
         then (ctx\<lparr>ctx_data := mem_write (ctx_data_used ctx) inp (ctx_data ctx),
                   ctx_data_used := ctx_data_used ctx + in_len\<rparr>, [], 0)
         else
           (let (ctx1, inp1, out1, total1) =
                  (if ctx_data_used ctx \<noteq> 0
                   then (let todo = 48 - ctx_data_used ctx;
                             data = mem_write (ctx_data_used ctx) (take todo inp) (ctx_data ctx);
                             (w, encoded) = EVP_EncodeBlock data 48
                         in (ctx\<lparr>ctx_data := data, ctx_data_used := 0\<rparr>, drop todo inp,
                             take encoded w @ [0x0a, 0], encoded + 1))
                   else (ctx, inp, [], 0))
            in case encode_lines inp1 out1 total1 of
                 (_, out, None) \<Rightarrow> (ctx1, out, 0)
               | (rest, out, Some tot) \<Rightarrow>
                   (ctx1\<lparr>ctx_data := mem_write 0 rest (ctx_data ctx1), ctx_data_used := length rest\<rparr>, out,
                    if tot > INT_MAX then 0 else tot)))"

definition EVP_EncodeFinal :: "EVP_ENCODE_CTX \<Rightarrow> EVP_ENCODE_CTX \<times> byte list \<times> nat" where
  "EVP_EncodeFinal ctx =
     (if ctx_data_used ctx = 0 then (ctx, [], 0)
      else
        (let (w, encoded) = EVP_EncodeBlock (ctx_data ctx) (ctx_data_used ctx)
         in (ctx\<lparr>ctx_data_used := 0\<rparr>, take encoded w @ [0x0a, 0], encoded + 1)))"

text \<open>
  The character loop of \<open>EVP_DecodeUpdate\<close>: context, output so far; \<open>None\<close> in place of
  success is the early return of \<open>-1\<close>.
\<close>

fun decode_update_loop :: "byte list \<Rightarrow> EVP_ENCODE_CTX \<Rightarrow> byte list \<Rightarrow> bool \<times> EVP_ENCODE_CTX \<times> byte list" where
  "decode_update_loop [] ctx out = (True, ctx, out)"
| "decode_update_loop (c # inp) ctx out =
     (if c = 0x20 \<or> c = 0x09 \<or> c = 0x0d \<or> c = 0x0a then decode_update_loop inp ctx out
      else if ctx_eof_seen ctx then (False, ctx\<lparr>ctx_error_encountered := True\<rparr>, out)
      else
        (let ctx1 = ctx\<lparr>ctx_data := (ctx_data ctx)[ctx_data_used ctx := c],
                       ctx_data_used := ctx_data_used ctx + 1\<rparr>
         in if ctx_data_used ctx1 = 4
            then (case base64_decode_quad (ctx_data ctx1 ! 0) (ctx_data ctx1 ! 1) (ctx_data ctx1 ! 2) (ctx_data ctx1 ! 3) of
                    None \<Rightarrow> (False, ctx1\<lparr>ctx_error_encountered := True\<rparr>, out)
                  | Some bs \<Rightarrow>
                      decode_update_loop inp
                        (ctx1\<lparr>ctx_data_used := 0, ctx_eof_seen := ctx_eof_seen ctx1 \<or> length bs < 3\<rparr>) (out @ bs))
            else decode_update_loop inp ctx1 out))"

text \<open>Return value, new context, bytes stored at \<open>out\<close> and \<open>*out_len\<close>.\<close>

definition EVP_DecodeUpdate :: "EVP_ENCODE_CTX \<Rightarrow> byte list \<Rightarrow> nat \<Rightarrow> int \<times> EVP_ENCODE_CTX \<times> byte list \<times> nat" where
  "EVP_DecodeUpdate ctx inp in_len =
     (if ctx_error_encountered ctx then (- 1, ctx, [], 0)
      else (case decode_update_loop (take in_len inp) ctx [] of
              (False, ctx', out) \<Rightarrow> (- 1, ctx', out, 0)
            | (True, ctx', out) \<Rightarrow>
                if length out > INT_MAX then (- 1, ctx'\<lparr>ctx_error_encountered := True\<rparr>, out, 0)
                else (if ctx_eof_seen ctx' then 0 else 1, ctx', out, length out)))"

definition EVP_DecodeFinal :: "EVP_ENCODE_CTX \<Rightarrow> int \<times> nat" where
  "EVP_DecodeFinal ctx = (if ctx_error_encountered ctx \<or> ctx_data_used ctx \<noteq> 0 then (- 1, 0) else (1, 0))"

subsection \<open>The alphabet\<close>

definition b64_char :: "nat \<Rightarrow> byte" where
  "b64_char n =
     (if n < 26 then word_of_nat (65 + n)
      else if n < 52 then word_of_nat (97 + (n - 26))
      else if n < 62 then word_of_nat (48 + (n - 52))
      else if n = 62 then 0x2b else 0x2f)"

lemma lt_args_8_eq: "constant_time_lt_args_8 a b = (if a < b then 0xff else 0)"
proof -
  have "bit (ucast a - ucast b :: u64) 63 \<longleftrightarrow> unat a < unat b"
  proof (cases "unat b \<le> unat a")
    case True
    have "unat (ucast a - ucast b :: u64) = unat a - unat b" using True by (simp add: unat_sub_u64)
    moreover have "unat a - unat b < 256" using byte_bound [of a] by linarith
    ultimately have "\<not> 2 ^ 63 \<le> unat (ucast a - ucast b :: u64)" by simp
    then show ?thesis unfolding bit_63_iff using True by simp
  next
    case False
    have "unat (ucast a - ucast b :: u64) = 2 ^ 64 + unat a - unat b" using False by (simp add: unat_sub_u64)
    moreover have "9223372036854775808 \<le> 18446744073709551616 + unat a - unat b" using byte_bound [of b] by linarith
    ultimately have "2 ^ 63 \<le> unat (ucast a - ucast b :: u64)" by simp
    then show ?thesis unfolding bit_63_iff using False by simp
  qed
  then show ?thesis by (simp add: constant_time_lt_args_8_def msb_bit word_less_nat_alt)
qed

lemma unat_sub_byte: "unat ((a :: byte) - b) = (if unat b \<le> unat a then unat a - unat b else 256 + unat a - unat b)"
  by (cases "unat b \<le> unat a") (simp_all add: unat_sub_if_size word_size)

lemma in_range_8_eq:
  assumes "unat lo \<le> unat hi" "unat hi < 255"
  shows "constant_time_in_range_8 a lo hi = (if unat lo \<le> unat a \<and> unat a \<le> unat hi then 0xff else 0)"
proof -
  have "unat (hi - lo) < 255" using assms by (simp add: unat_sub_byte)
  then have "unat (hi - lo + 1) = unat (hi - lo) + 1" by (simp add: unat_word_ariths)
  then have r: "unat (hi - lo + 1) = unat hi - unat lo + 1" using assms by (simp add: unat_sub_byte)
  have "a - lo < hi - lo + 1 \<longleftrightarrow> unat lo \<le> unat a \<and> unat a \<le> unat hi"
    unfolding word_less_nat_alt r unat_sub_byte using assms by auto
  then show ?thesis by (simp add: constant_time_in_range_8_def lt_args_8_eq)
qed

lemma conv_bin2ascii_eq: "conv_bin2ascii a = b64_char (unat a mod 64)"
proof -
  let ?a = "a AND 0x3f"
  have u: "unat ?a = unat a mod 64" using unat_and_mask [of a 6] by (simp add: mask_eq_exp_minus_1)
  have w: "?a = word_of_nat (unat a mod 64)" using u by (rule word_of_nat_eqI)
  have eq: "ucast ?a = (62 :: u64) \<longleftrightarrow> unat a mod 64 = 62"
  proof -
    have "unat (ucast ?a :: u64) = unat a mod 64" using u by simp
    then show ?thesis by (simp add: word_unat_eq_iff)
  qed
  have lt: "?a < 62 \<longleftrightarrow> unat a mod 64 < 62" "?a < 52 \<longleftrightarrow> unat a mod 64 < 52" "?a < 26 \<longleftrightarrow> unat a mod 64 < 26"
    using u by (simp_all add: word_less_nat_alt)
  have n: "(word_of_nat (97 + (n - 26)) :: byte) = word_of_nat n - 26 + 97" if "26 \<le> n" for n
    using that by (simp add: of_nat_diff)
  have n': "(word_of_nat (48 + (n - 52)) :: byte) = word_of_nat n - 52 + 48" if "52 \<le> n" for n
    using that by (simp add: of_nat_diff)
  show ?thesis
    unfolding conv_bin2ascii_def Let_def lt_args_8_eq constant_time_8_eq lt eq b64_char_def
    using n [of "unat a mod 64"] n' [of "unat a mod 64"] w by auto
qed

lemma byte_and_ones [simp]: "0xff AND (x :: byte) = x"
  unfolding byte_ones by simp

lemma byte_minus_256 [simp]: "(- 256 :: byte) = 0"
proof -
  have "(256 :: byte) = 0" by simp
  then show ?thesis by (metis minus_zero)
qed

lemma byte_neqI: "unat (x :: byte) \<noteq> unat y \<Longrightarrow> x \<noteq> y"
  by auto

text \<open>The six ranges of the decoder are disjoint, so exactly one term survives.\<close>

lemma base64_ascii_to_bin_eq:
  "base64_ascii_to_bin a =
     (if 65 \<le> unat a \<and> unat a \<le> 90 then a - 65
      else if 97 \<le> unat a \<and> unat a \<le> 122 then a - 97 + 26
      else if 48 \<le> unat a \<and> unat a \<le> 57 then a - 48 + 52
      else if unat a = 43 then 62
      else if unat a = 47 then 63
      else if unat a = 61 then 0 else 0xff)"
proof -
  have r: "constant_time_in_range_8 a 0x41 0x5a = (if 65 \<le> unat a \<and> unat a \<le> 90 then 0xff else 0)"
    "constant_time_in_range_8 a 0x61 0x7a = (if 97 \<le> unat a \<and> unat a \<le> 122 then 0xff else 0)"
    "constant_time_in_range_8 a 0x30 0x39 = (if 48 \<le> unat a \<and> unat a \<le> 57 then 0xff else 0)"
    by (subst in_range_8_eq; simp)+
  have e: "ucast a = (0x2b :: u64) \<longleftrightarrow> unat a = 43" "ucast a = (0x2f :: u64) \<longleftrightarrow> unat a = 47" "ucast a = (0x3d :: u64) \<longleftrightarrow> unat a = 61"
    by (simp_all add: word_unat_eq_iff)
  consider "65 \<le> unat a" "unat a \<le> 90" | "97 \<le> unat a" "unat a \<le> 122" | "48 \<le> unat a" "unat a \<le> 57" | "unat a = 43" | "unat a = 47" | "unat a = 61"
    | "\<not> (65 \<le> unat a \<and> unat a \<le> 90)" "\<not> (97 \<le> unat a \<and> unat a \<le> 122)" "\<not> (48 \<le> unat a \<and> unat a \<le> 57)"
      "unat a \<noteq> 43" "unat a \<noteq> 47" "unat a \<noteq> 61" by blast
  then show ?thesis
    unfolding base64_ascii_to_bin_def Let_def r constant_time_8_eq e by cases auto
qed

lemma b64_char_decode:
  assumes "n < 64"
  shows "base64_ascii_to_bin (b64_char n) = word_of_nat n" "b64_char n \<noteq> 0x3d"
proof -
  have u: "unat (word_of_nat k :: byte) = k" if "k < 256" for k using that by (simp add: unat_byte_of_nat)
  have d: "(word_of_nat (x + k) - word_of_nat x :: byte) = word_of_nat k" for x k :: nat by simp
  consider "n < 26" | "26 \<le> n" "n < 52" | "52 \<le> n" "n < 62" | "n = 62" | "n = 63" using assms by linarith
  then have "base64_ascii_to_bin (b64_char n) = word_of_nat n \<and> b64_char n \<noteq> 0x3d"
  proof cases
    case 1
    then have c: "b64_char n = word_of_nat (65 + n)" by (simp add: b64_char_def)
    have "unat (b64_char n) = 65 + n" unfolding c using 1 by (intro u) simp
    moreover from this have "b64_char n \<noteq> 0x3d" using 1 by (intro byte_neqI) simp
    moreover have "b64_char n - 65 = word_of_nat n" by (simp add: c)
    ultimately show ?thesis using 1 by (simp add: base64_ascii_to_bin_eq)
  next
    case 2
    then have c: "b64_char n = word_of_nat (97 + (n - 26))" by (simp add: b64_char_def)
    have "unat (b64_char n) = 97 + (n - 26)" unfolding c using 2 by (intro u) simp
    moreover have "b64_char n - 97 + 26 = word_of_nat n" using 2 by (simp add: c of_nat_diff)
    ultimately show ?thesis using 2 byte_neqI [of "b64_char n" "0x3d"] by (simp add: base64_ascii_to_bin_eq)
  next
    case 3
    then obtain k where n: "n = 52 + k" "k < 10" using less_eqE [of 52 n] by auto
    then have c: "b64_char n = word_of_nat (48 + k)" by (simp add: b64_char_def)
    have "unat (b64_char n) = 48 + k" unfolding c using n by (intro u) simp
    moreover have "b64_char n - 48 + 52 = word_of_nat n" unfolding c by (simp add: n(1))
    ultimately show ?thesis using n byte_neqI [of "b64_char n" "0x3d"] by (simp add: base64_ascii_to_bin_eq)
  qed (simp_all add: b64_char_def base64_ascii_to_bin_eq)
  then show "base64_ascii_to_bin (b64_char n) = word_of_nat n" "b64_char n \<noteq> 0x3d" by blast+
qed

lemma decode_equals: "base64_ascii_to_bin 0x3d = 0"
  by (simp add: base64_ascii_to_bin_eq)

subsection \<open>Groups of four characters\<close>

lemma encode_group_eq: "encode_group l s = b64_char (unat l div 2 ^ s mod 64)"
proof -
  have "unat (ucast (drop_bit s l) :: byte) = unat l div 2 ^ s mod 256"
    unfolding unsigned_ucast_eq unat_drop_bit_eq by (simp add: take_bit_eq_mod drop_bit_eq_div)
  moreover have "n mod 256 mod 64 = n mod 64" for n :: nat by (simp add: mod_mod_cancel)
  ultimately show ?thesis by (simp add: encode_group_def conv_bin2ascii_eq)
qed

lemma unat_group3:
  fixes a b c :: byte
  defines "l \<equiv> push_bit 16 (ucast a) OR push_bit 8 (ucast b) OR ucast c :: u32"
  shows "unat l = be_val [a, b, c]"
proof -
  have b: "unat a < 256" "unat b < 256" "unat c < 256" by simp_all
  have inner: "unat (push_bit 8 (ucast b) OR ucast c :: u32) = unat b * 256 + unat c"
    using unat_push_or [of "ucast c :: u32" 8 "ucast b"] b by simp
  have "unat (push_bit 16 (ucast a) OR (push_bit 8 (ucast b) OR ucast c) :: u32) = unat a * 65536 + (unat b * 256 + unat c)"
  proof -
    have "unat b * 256 + unat c < 65536" using b by linarith
    then show ?thesis using unat_push_or [of "push_bit 8 (ucast b) OR ucast c :: u32" 16 "ucast a"] b(1) unfolding inner by simp
  qed
  then show ?thesis by (simp add: l_def or.assoc be_val_def)
qed

lemma unat_group4:
  fixes a b c d :: byte
  assumes "unat a < 64" "unat b < 64" "unat c < 64" "unat d < 64"
  shows "unat (push_bit 18 (ucast a) OR push_bit 12 (ucast b) OR push_bit 6 (ucast c) OR ucast d :: u32) =
    ((unat a * 64 + unat b) * 64 + unat c) * 64 + unat d"
proof -
  have 1: "unat (push_bit 6 (ucast c) OR ucast d :: u32) = unat c * 64 + unat d"
    using unat_push_or [of "ucast d :: u32" 6 "ucast c"] assms by simp
  have "unat c * 64 + unat d < 4096" using assms by linarith
  then have 2: "unat (push_bit 12 (ucast b) OR (push_bit 6 (ucast c) OR ucast d) :: u32) = unat b * 4096 + (unat c * 64 + unat d)"
    using unat_push_or [of "push_bit 6 (ucast c) OR ucast d :: u32" 12 "ucast b"] assms unfolding 1 by simp
  have "unat b * 4096 + (unat c * 64 + unat d) < 262144" using assms by linarith
  then have "unat (push_bit 18 (ucast a) OR (push_bit 12 (ucast b) OR (push_bit 6 (ucast c) OR ucast d)) :: u32) =
      unat a * 262144 + (unat b * 4096 + (unat c * 64 + unat d))"
    using unat_push_or [of "push_bit 12 (ucast b) OR (push_bit 6 (ucast c) OR ucast d) :: u32" 18 "ucast a"] assms unfolding 2 by simp
  then show ?thesis by (simp add: or.assoc)
qed

text \<open>Decoding four characters of the alphabet, or padding where the code allows it.\<close>

definition sextets :: "nat \<Rightarrow> nat \<Rightarrow> nat \<Rightarrow> nat \<Rightarrow> nat" where
  "sextets p q r t = ((p * 64 + q) * 64 + r) * 64 + t"

lemma be_bytes_3: "be_bytes 3 n = [word_of_nat (n div 65536), word_of_nat (n div 256), word_of_nat n]"
  by (simp add: numeral_3_eq_3 div_mult2_eq [symmetric])

lemma bytes_of_u32:
  "ucast (drop_bit 16 v) = (word_of_nat (unat v div 65536) :: byte)" "ucast (drop_bit 8 v) = (word_of_nat (unat v div 256) :: byte)"
  "ucast v = (word_of_nat (unat v) :: byte)" for v :: u32
proof -
  have d: "unat (ucast (drop_bit k v) :: byte) = unat v div 2 ^ k mod 256" for k
    unfolding unsigned_ucast_eq unat_drop_bit_eq by (simp add: take_bit_eq_mod drop_bit_eq_div)
  show "ucast (drop_bit 16 v) = (word_of_nat (unat v div 65536) :: byte)" "ucast (drop_bit 8 v) = (word_of_nat (unat v div 256) :: byte)"
    by (rule word_eqI_unat, simp only: unat_byte_of_nat d, simp)+
  show "ucast v = (word_of_nat (unat v) :: byte)" by simp
qed

lemma decode_quad_values:
  assumes bin: "base64_ascii_to_bin in0 = word_of_nat p" "base64_ascii_to_bin in1 = word_of_nat q"
      "base64_ascii_to_bin in2 = word_of_nat r" "base64_ascii_to_bin in3 = word_of_nat t"
    and lt: "p < 64" "q < 64" "r < 64" "t < 64" and in01: "in0 \<noteq> 0x3d" "in1 \<noteq> 0x3d"
  shows "base64_decode_quad in0 in1 in2 in3 =
    (if in2 \<noteq> 0x3d \<and> in3 \<noteq> 0x3d then Some (be_bytes 3 (sextets p q r t))
     else if in2 \<noteq> 0x3d then Some (take 2 (be_bytes 3 (sextets p q r t)))
     else if in3 = 0x3d then Some (take 1 (be_bytes 3 (sextets p q r t)))
     else None)"
proof -
  have u: "unat (word_of_nat k :: byte) = k" if "k < 64" for k using that by (simp add: unat_byte_of_nat)
  have ne: "(word_of_nat k :: byte) \<noteq> 0xff" if "k < 64" for k using u [OF that] that by (intro byte_neqI) simp
  define v where "v = (push_bit 18 (ucast (word_of_nat p :: byte)) OR push_bit 12 (ucast (word_of_nat q :: byte)) OR
      push_bit 6 (ucast (word_of_nat r :: byte)) OR ucast (word_of_nat t :: byte) :: u32)"
  have v: "unat v = sextets p q r t"
    using unat_group4 [of "word_of_nat p" "word_of_nat q" "word_of_nat r" "word_of_nat t"] u lt
    unfolding v_def sextets_def by metis
  show ?thesis
    unfolding base64_decode_quad_def Let_def bin v_def [symmetric] bytes_of_u32(1,2) bytes_of_u32(3) [of v] v be_bytes_3
    using ne lt in01 by auto
qed

lemma decode_quad_full:
  assumes "p < 64" "q < 64" "r < 64" "t < 64"
  shows "base64_decode_quad (b64_char p) (b64_char q) (b64_char r) (b64_char t) = Some (be_bytes 3 (sextets p q r t))"
    "base64_decode_quad (b64_char p) (b64_char q) (b64_char r) 0x3d = Some (take 2 (be_bytes 3 (sextets p q r 0)))"
    "base64_decode_quad (b64_char p) (b64_char q) 0x3d 0x3d = Some (take 1 (be_bytes 3 (sextets p q 0 0)))"
  using decode_quad_values [OF b64_char_decode(1) b64_char_decode(1) b64_char_decode(1) b64_char_decode(1), of p q r t]
    decode_quad_values [OF b64_char_decode(1) b64_char_decode(1) b64_char_decode(1), of p q r "0x3d" 0]
    decode_quad_values [OF b64_char_decode(1) b64_char_decode(1), of p q "0x3d" 0 "0x3d" 0]
    b64_char_decode(2) decode_equals assms by simp_all

lemma sextets_digits:
  assumes "n < 2 ^ 24"
  shows "sextets (n div 2 ^ 18 mod 64) (n div 2 ^ 12 mod 64) (n div 2 ^ 6 mod 64) (n div 2 ^ 0 mod 64) = n"
proof -
  have "n div 2 ^ 18 < 64" using assms by (simp add: div_less_iff_less_mult)
  moreover have "n div 2 ^ 18 = n div 64 div 64 div 64" "n div 2 ^ 12 = n div 64 div 64" by (simp_all add: div_mult2_eq [symmetric])
  ultimately show ?thesis by (simp add: sextets_def)
qed

lemma decode_encode_group:
  assumes "unat l < 2 ^ 24"
  shows "base64_decode_quad (encode_group l 18) (encode_group l 12) (encode_group l 6) (encode_group l 0) = Some (be_bytes 3 (unat l))"
  using decode_quad_full(1) [of "unat l div 2 ^ 18 mod 64" "unat l div 2 ^ 12 mod 64" "unat l div 2 ^ 6 mod 64" "unat l div 2 ^ 0 mod 64"]
    sextets_digits [OF assms] by (simp add: encode_group_eq)

lemma decode_encode_pad1:
  assumes "unat l < 2 ^ 24" "unat l mod 64 = 0"
  shows "base64_decode_quad (encode_group l 18) (encode_group l 12) (encode_group l 6) 0x3d = Some (take 2 (be_bytes 3 (unat l)))"
  using decode_quad_full(2) [of "unat l div 2 ^ 18 mod 64" "unat l div 2 ^ 12 mod 64" "unat l div 2 ^ 6 mod 64" 0]
    sextets_digits [OF assms(1)] assms(2) by (simp add: encode_group_eq)

lemma decode_encode_pad2:
  assumes "unat l < 2 ^ 24" "unat l mod 4096 = 0"
  shows "base64_decode_quad (encode_group l 18) (encode_group l 12) 0x3d 0x3d = Some (take 1 (be_bytes 3 (unat l)))"
proof -
  from assms(2) obtain k where "unat l = 4096 * k" by (metis mod_0_imp_dvd dvdE)
  then have "unat l = 64 * (64 * k)" by simp
  then have "unat l mod 64 = 0" "unat l div 2 ^ 6 mod 64 = 0" by simp_all
  then show ?thesis
    using decode_quad_full(3) [of "unat l div 2 ^ 18 mod 64" "unat l div 2 ^ 12 mod 64" 0 0] sextets_digits [OF assms(1)]
    by (simp add: encode_group_eq)
qed

end
