(* ===== verification/Base64_Properties.thy ===== *)
theory Base64_Properties
  imports Base64
begin

unbundle bit_operations_syntax

text \<open>
  Properties of the Base64 functions: exact output size, the round trip through the block
  functions, and the streaming functions as a refinement of one transformation of the whole
  input, whatever pieces it arrives in.
\<close>

subsection \<open>Blocks\<close>

lemma length_encode_loop: "length (encode_loop xs) = 4 * ((length xs + 2) div 3)"
proof (induction xs rule: encode_loop.induct)
  case (1 a b c src)
  moreover have "(length (a # b # c # src) + 2) div 3 = (length src + 2) div 3 + 1" by simp
  ultimately show ?case by (simp add: Let_def del: div_mult_self1 div_mult_self2)
qed (simp_all add: Let_def)

lemma encode_loop_Nil [simp]: "encode_loop xs = [] \<longleftrightarrow> xs = []"
  by (cases xs rule: encode_loop.cases) (simp_all add: Let_def)

lemma unat_group2:
  "unat (push_bit 16 (ucast a) OR push_bit 8 (ucast b) :: u32) = be_val [a, b, 0]"
  "unat (push_bit 16 (ucast (a :: byte)) :: u32) = be_val [a, 0, 0]" for a b :: byte
  using unat_group3 [of a b 0] unat_group3 [of a 0 0] by simp_all

lemma be_val_3: "be_val [a, b, c] = unat a * 65536 + unat b * 256 + unat c"
  by (simp add: be_val_def)

lemma be_val_3_lt: "be_val [a, b, c] < 2 ^ 24"
  using be_val_bound [of "[a, b, c]"] by simp

lemma be_bytes_val_3: "be_bytes 3 (be_val [a, b, c]) = [a, b, c]"
  using be_bytes_be_val [of "[a, b, c]"] by (simp only: length_Cons list.size(3) numeral_3_eq_3)

lemma quad_3:
  assumes "unat l = be_val [a, b, c]"
  shows "base64_decode_quad (encode_group l 18) (encode_group l 12) (encode_group l 6) (encode_group l 0) = Some [a, b, c]"
  using decode_encode_group [of l] unfolding assms be_bytes_val_3 using be_val_3_lt by blast

lemma quad_2:
  assumes "unat l = be_val [a, b, 0]"
  shows "base64_decode_quad (encode_group l 18) (encode_group l 12) (encode_group l 6) 0x3d = Some [a, b]"
proof -
  have "be_val [a, b, 0] = 64 * (unat a * 1024 + unat b * 4)" by (simp add: be_val_3)
  then have "be_val [a, b, 0] mod 64 = 0" by simp
  then show ?thesis using decode_encode_pad1 [of l] be_val_3_lt [of a b 0] unfolding assms be_bytes_val_3 by simp
qed

lemma quad_1:
  assumes "unat l = be_val [a, 0, 0]"
  shows "base64_decode_quad (encode_group l 18) (encode_group l 12) 0x3d 0x3d = Some [a]"
proof -
  have "be_val [a, 0, 0] = 4096 * (unat a * 16)" by (simp add: be_val_3)
  then have "be_val [a, 0, 0] mod 4096 = 0" by simp
  then show ?thesis using decode_encode_pad2 [of l] be_val_3_lt [of a 0 0] unfolding assms be_bytes_val_3 by simp
qed

lemma decode_loop_encode: "decode_loop (encode_loop xs) out = (True, out @ xs)"
proof (induction xs arbitrary: out rule: encode_loop.induct)
  case (1 a b c src)
  then show ?case using quad_3 [OF unat_group3] by (simp add: Let_def)
next
  case (2 a b)
  then show ?case using quad_2 [OF unat_group2(1)] by (simp add: Let_def)
next
  case (3 a)
  then show ?case using quad_1 [OF unat_group2(2)] by (simp add: Let_def)
qed simp

lemma b64_char_range: "n < 64 \<Longrightarrow> 43 \<le> unat (b64_char n)"
proof -
  assume n: "n < 64"
  have u: "k \<le> unat (word_of_nat (k + m) :: byte)" if "k + m < 256" for k m
    using that unat_byte_of_nat [of "k + m"] by (simp del: of_nat_add)
  consider "n < 26" | "26 \<le> n" "n < 52" | "52 \<le> n" "n < 62" | "n = 62" | "n = 63" using n by linarith
  then show ?thesis
  proof cases
    case 1
    then show ?thesis using u [of 65 n] by (simp add: b64_char_def del: of_nat_add)
  next
    case 2
    then show ?thesis using u [of 97 "n - 26"] by (simp add: b64_char_def del: of_nat_add of_nat_diff)
  next
    case 3
    then have b: "b64_char n = word_of_nat (48 + (n - 52))" by (simp add: b64_char_def)
    have "48 + (n - 52) < 256" using 3 by linarith
    then have "48 \<le> unat (b64_char n)" unfolding b by (rule u)
    then show ?thesis by linarith
  qed (simp_all add: b64_char_def)
qed

abbreviation b64_space :: "byte \<Rightarrow> bool" where
  "b64_space c \<equiv> c = 0x20 \<or> c = 0x09 \<or> c = 0x0d \<or> c = 0x0a"

lemma group_not_space: "\<not> b64_space (encode_group l s)"
  using b64_char_range [of "unat l div 2 ^ s mod 64"] by (auto simp: encode_group_eq)

lemma encode_not_space: "c \<in> set (encode_loop xs) \<Longrightarrow> \<not> b64_space c"
proof (induction xs rule: encode_loop.induct)
  case (1 a b c src)
  then show ?case using group_not_space by (auto simp: Let_def)
next
  case (2 a b)
  then show ?case using group_not_space by (auto simp: Let_def)
next
  case (3 a)
  then show ?case using group_not_space by (auto simp: Let_def)
qed simp

lemma dropWhile_none: "(\<And>x. x \<in> set xs \<Longrightarrow> \<not> P x) \<Longrightarrow> dropWhile P xs = xs"
  by (cases xs) auto

lemma trim_encoded: "trim_end (trim_start (encode_loop xs)) = encode_loop xs"
proof -
  have "trim_start (encode_loop xs) = encode_loop xs"
    unfolding trim_start_def using encode_not_space by (blast intro: dropWhile_none)
  moreover have "dropWhile b64_space (rev (encode_loop xs)) = rev (encode_loop xs)"
    using encode_not_space by (intro dropWhile_none) auto
  ultimately show ?thesis by (simp add: trim_end_def)
qed

text \<open>The zero bytes \<open>EVP_DecodeBlock\<close> adds to a decoded block.\<close>

definition pad3 :: "nat \<Rightarrow> nat" where
  "pad3 n = (if n mod 3 = 0 then 0 else 3 - n mod 3)"

lemma EVP_EncodedLength_cases:
  assumes "n < size_mod"
  shows "EVP_EncodedLength n = (if 4 * ((n + 2) div 3) + 1 < size_mod then Some (4 * ((n + 2) div 3) + 1) else None)"
proof (cases "n + 2 < size_mod")
  case False
  then have "(n + 2) mod size_mod = n + 2 - size_mod" using assms by (simp add: mod_if)
  moreover have "n + 2 - size_mod < n" using False assms by simp
  moreover have "\<not> 4 * ((n + 2) div 3) + 1 < size_mod" using False by simp
  ultimately show ?thesis by (simp add: EVP_EncodedLength_def)
next
  case True
  define k where "k = (n + 2) div 3"
  have k: "k < size_mod" using True unfolding k_def by simp
  have start: "EVP_EncodedLength n = (if (k * 4) mod size_mod div 4 \<noteq> k then None
      else (let n = (k * 4) mod size_mod in if (n + 1) mod size_mod < n then None else Some (n + 1)))"
    using True by (simp add: EVP_EncodedLength_def k_def Let_def)
  show ?thesis
  proof (cases "k * 4 < size_mod")
    case True
    moreover have "(k * 4 + 1) mod size_mod = k * 4 + 1 \<or> k * 4 + 1 = size_mod" using True by auto
    moreover have "k * 4 + 1 \<noteq> size_mod" by simp presburger
    ultimately show ?thesis unfolding start k_def [symmetric] by (auto simp: Let_def)
  next
    case False
    have "(k * 4) mod size_mod < size_mod" by simp
    then have "(k * 4) mod size_mod div 4 < k" using False by (simp add: div_less_iff_less_mult)
    then show ?thesis unfolding start k_def [symmetric] using False by simp
  qed
qed

text \<open>
  \<open>EVP_EncodedLength\<close> is the space \<open>EVP_EncodeBlock\<close> uses, to the byte. For every input
  that a 64-bit machine can hold, it returns the number of bytes the encoder stores, the final
  NUL included, or fails, exactly when that number does not fit \<open>size_t\<close>; the encoder returns
  the number of characters without the NUL.
\<close>

theorem EVP_EncodedLength_exact:
  assumes "length xs < size_mod" and "EVP_EncodeBlock xs (length xs) = (w, n)"
  shows "EVP_EncodedLength (length xs) = (if length w < size_mod then Some (length w) else None)
    \<and> length w = n + 1 \<and> last w = 0"
  using assms(2) EVP_EncodedLength_cases [OF assms(1)]
  by (auto simp: EVP_EncodeBlock_def Let_def length_encode_loop)

theorem EVP_EncodedLength_exact_witness:
  "EVP_EncodedLength (length [0x41, 0x42, 0x43, 0x44 :: byte]) = Some 9"
  using EVP_EncodedLength_exact [of "[0x41, 0x42, 0x43, 0x44]", OF _ surjective_pairing]
  by (simp add: EVP_EncodeBlock_def Let_def length_encode_loop)

text \<open>
  C11: \<open>EVP_DecodeBase64\<close> inverts \<open>EVP_EncodeBlock\<close>: decoding what the encoder stored
  for any input succeeds with exactly that input, given an output buffer of the size
  \<open>EVP_DecodedLength\<close> asks for. \<open>EVP_DecodeBlock\<close>, which does not tell how much padding there was, returns
  the input followed by zeros up to a multiple of three, as long as that length fits \<open>int\<close>.
\<close>

theorem base64_block_roundtrip:
  assumes "EVP_EncodeBlock xs (length xs) = (w, n)"
  shows "(\<exists>max_out. EVP_DecodedLength n = Some max_out \<and>
      EVP_DecodeBase64 max_out w n = (True, xs, length xs)) \<and>
    (length xs + 2 \<le> INT_MAX \<longrightarrow>
      EVP_DecodeBlock w n = (xs @ replicate (pad3 (length xs)) 0, int (length xs + pad3 (length xs))))"
proof -
  have w: "w = encode_loop xs @ [0]" "n = 4 * ((length xs + 2) div 3)" "take n w = encode_loop xs"
    using assms length_encode_loop [of xs] by (auto simp: EVP_EncodeBlock_def Let_def)
  have d: "EVP_DecodeBase64 (n div 4 * 3) v n = (True, xs, length xs)" if "take n v = encode_loop xs" for v
    unfolding EVP_DecodeBase64_def EVP_DecodedLength_def that using decode_loop_encode [of xs "[]"] by (simp add: w(2))
  have "n = length (encode_loop xs)" by (simp add: w(2) length_encode_loop)
  then have "EVP_DecodeBlock w n = (xs @ replicate (pad3 (length xs)) 0, int (length xs + pad3 (length xs)))"
    if "length xs + 2 \<le> INT_MAX"
    using that d [of "encode_loop xs"] unfolding EVP_DecodeBlock_def w(3) trim_encoded Let_def pad3_def
    by (simp add: EVP_DecodedLength_def w(2) length_encode_loop)
  then show ?thesis using d [OF w(3)] by (simp add: EVP_DecodedLength_def w(2))
qed

theorem base64_block_roundtrip_witness:
  "EVP_DecodeBlock (fst (EVP_EncodeBlock [0x41, 0x42, 0x43, 0x44] (length [0x41, 0x42, 0x43, 0x44 :: byte]))) 8 =
    ([0x41, 0x42, 0x43, 0x44, 0, 0], 6)"
proof -
  have "snd (EVP_EncodeBlock [0x41, 0x42, 0x43, 0x44] (length [0x41, 0x42, 0x43, 0x44 :: byte])) = 8"
    by (simp add: EVP_EncodeBlock_def Let_def)
  moreover have "pad3 (length [0x41, 0x42, 0x43, 0x44 :: byte]) = 2" by (simp add: pad3_def)
  moreover have "replicate 2 (0 :: byte) = [0, 0]" by (simp add: numeral_2_eq_2)
  ultimately show ?thesis
    using base64_block_roundtrip [of "[0x41, 0x42, 0x43, 0x44]", OF surjective_pairing] by simp
qed


subsection \<open>Streaming encoder\<close>

text \<open>
  The encoder as a transformation of the whole input: a line for every 48 bytes, the bytes
  left over, and the last line that \<open>EVP_EncodeFinal\<close> writes for them.
\<close>

function b64_lines :: "byte list \<Rightarrow> byte list" where
  "b64_lines xs = (if length xs < 48 then [] else encode_loop (take 48 xs) @ 0x0a # b64_lines (drop 48 xs))"
  by pat_completeness auto
termination by (relation "measure length") auto

declare b64_lines.simps [simp del]

definition b64_rest :: "byte list \<Rightarrow> byte list" where
  "b64_rest xs = drop (48 * (length xs div 48)) xs"

definition b64_tail :: "byte list \<Rightarrow> byte list" where
  "b64_tail xs = (if b64_rest xs = [] then [] else encode_loop (b64_rest xs) @ [0x0a])"

definition encode_inv :: "EVP_ENCODE_CTX \<Rightarrow> bool" where
  "encode_inv ctx \<longleftrightarrow> length (ctx_data ctx) = 48 \<and> ctx_data_used ctx < 48"

definition pending_input :: "EVP_ENCODE_CTX \<Rightarrow> byte list" where
  "pending_input ctx = take (ctx_data_used ctx) (ctx_data ctx)"

lemma length_pending: "encode_inv ctx \<Longrightarrow> length (pending_input ctx) = ctx_data_used ctx"
  by (simp add: encode_inv_def pending_input_def)

lemma length_line: "length xs = 48 \<Longrightarrow> length (encode_loop xs) = 64"
  by (simp add: length_encode_loop)

lemma b64_lines_short [simp]: "length xs < 48 \<Longrightarrow> b64_lines xs = []" "length xs < 48 \<Longrightarrow> b64_rest xs = xs"
  by (simp_all add: b64_lines.simps b64_rest_def)

lemma b64_lines_line:
  assumes "length l = 48"
  shows "b64_lines (l @ xs) = encode_loop l @ 0x0a # b64_lines xs" "b64_rest (l @ xs) = b64_rest xs"
proof -
  show "b64_lines (l @ xs) = encode_loop l @ 0x0a # b64_lines xs"
    using assms by (subst b64_lines.simps) simp
  have "(48 + length xs) div 48 = Suc (length xs div 48)" by simp
  then show "b64_rest (l @ xs) = b64_rest xs" using assms by (simp add: b64_rest_def)
qed

lemma length_b64_rest: "length (b64_rest xs) < 48"
  by (simp add: b64_rest_def minus_mult_div_eq_mod)

lemma length_b64_lines: "length (b64_lines xs) = 65 * (length xs div 48)"
proof (induction xs rule: b64_lines.induct)
  case (1 xs)
  show ?case
  proof (cases "length xs < 48")
    case False
    then have "length xs div 48 = Suc ((length xs - 48) div 48)" by (simp add: le_div_geq)
    then show ?thesis using 1 [OF False] False by (simp add: b64_lines.simps [of xs] length_line)
  qed simp
qed

lemma b64_lines_append: "b64_lines (xs @ ys) = b64_lines xs @ b64_lines (b64_rest xs @ ys)"
  and b64_rest_append: "b64_rest (xs @ ys) = b64_rest (b64_rest xs @ ys)"
proof -
  have "b64_lines (xs @ ys) = b64_lines xs @ b64_lines (b64_rest xs @ ys) \<and> b64_rest (xs @ ys) = b64_rest (b64_rest xs @ ys)"
  proof (induction xs rule: b64_lines.induct)
    case (1 xs)
    show ?case
    proof (cases "length xs < 48")
      case False
      then have x: "xs = take 48 xs @ drop 48 xs" "length (take 48 xs) = 48" by simp_all
      show ?thesis using 1 [OF False] b64_lines_line [OF x(2)] x(1) by (metis append.assoc append_Cons)
    qed simp
  qed
  then show "b64_lines (xs @ ys) = b64_lines xs @ b64_lines (b64_rest xs @ ys)" "b64_rest (xs @ ys) = b64_rest (b64_rest xs @ ys)" by blast+
qed

lemma EVP_EncodeBlock_line:
  assumes "48 \<le> length xs"
  shows "EVP_EncodeBlock xs 48 = (encode_loop (take 48 xs) @ [0], 64)"
  using assms length_line [of "take 48 xs"] by (simp add: EVP_EncodeBlock_def Let_def)

lemma encode_lines_eq:
  assumes "length out = tot \<or> length out = tot + 1" and "tot + 65 * (length inp div 48) < size_mod"
  shows "\<exists>out'. encode_lines inp out tot = (b64_rest inp, out', Some (tot + length (b64_lines inp))) \<and>
    take (tot + length (b64_lines inp)) out' = take tot out @ b64_lines inp"
  using assms
proof (induction inp out tot rule: encode_lines.induct)
  case (1 inp out tot)
  show ?case
  proof (cases "length inp < 48")
    case True
    then show ?thesis by (subst encode_lines.simps) simp
  next
    case False
    let ?out = "take tot out @ encode_loop (take 48 inp) @ [0x0a, 0]"
    let ?t = "tot + 64 + 1"
    have l: "length (encode_loop (take 48 inp)) = 64" using False by (intro length_line) simp
    have d: "length inp div 48 = Suc (length (drop 48 inp) div 48)" using False by (simp add: le_div_geq)
    then have nov: "\<not> ?t mod size_mod < tot" "?t + 65 * (length (drop 48 inp) div 48) < size_mod" using 1 (3) by simp_all
    have step: "encode_lines inp out tot = encode_lines (drop 48 inp) ?out ?t"
      using False nov l by (subst encode_lines.simps) (simp add: EVP_EncodeBlock_line)
    have lo: "length ?out = ?t \<or> length ?out = ?t + 1" using 1 (2) l by auto
    have ih: "\<exists>out'. encode_lines (drop 48 inp) ?out ?t = (b64_rest (drop 48 inp), out', Some (?t + length (b64_lines (drop 48 inp)))) \<and>
        take (?t + length (b64_lines (drop 48 inp))) out' = take ?t ?out @ b64_lines (drop 48 inp)"
      by (rule 1 (1) [of "EVP_EncodeBlock inp 48" "encode_loop (take 48 inp) @ [0]" 64 ?out, OF _ refl _ _ _ lo nov(2)]) (use False nov in \<open>auto simp: EVP_EncodeBlock_line l\<close>)
    have x: "inp = take 48 inp @ drop 48 inp" "length (take 48 inp) = 48" using False by simp_all
    have lines: "b64_lines inp = encode_loop (take 48 inp) @ 0x0a # b64_lines (drop 48 inp)" "b64_rest inp = b64_rest (drop 48 inp)"
      using b64_lines_line [OF x(2), of "drop 48 inp"] x(1) by simp_all
    have "take ?t ?out = take tot out @ encode_loop (take 48 inp) @ [0x0a]" using 1 (2) l by auto
    then show ?thesis using ih unfolding step lines by (simp add: l ac_simps)
  qed
qed


lemma pending_append: "mem_write k xs data = take k data @ xs @ drop (k + length xs) data"
  by (simp add: mem_write_def)

lemma b64_tail_pending:
  assumes "encode_inv ctx" "EVP_EncodeFinal ctx = (ctx', out, n)"
  shows "take n out = b64_tail (pending_input ctx) \<and> ctx_data_used ctx' = 0"
  using assms length_pending [OF assms(1)]
  by (auto simp: EVP_EncodeFinal_def EVP_EncodeBlock_def Let_def b64_tail_def pending_input_def encode_inv_def)

lemma EVP_EncodeUpdate_eq:
  assumes inv: "encode_inv ctx" and n: "n = length inp" and fits: "65 * ((length (pending_input ctx) + n) div 48) \<le> INT_MAX"
  shows "\<exists>ctx' out. EVP_EncodeUpdate ctx inp n = (ctx', out, length (b64_lines (pending_input ctx @ inp))) \<and>
    take (length (b64_lines (pending_input ctx @ inp))) out = b64_lines (pending_input ctx @ inp) \<and>
    encode_inv ctx' \<and> pending_input ctx' = b64_rest (pending_input ctx @ inp)"
proof -
  let ?all = "pending_input ctx @ inp"
  let ?u = "ctx_data_used ctx"
  have u: "length (pending_input ctx) = ?u" "?u < 48" "length (ctx_data ctx) = 48"
    using inv length_pending by (auto simp: encode_inv_def)
  have tot: "length (b64_lines ?all) \<le> INT_MAX" using fits by (simp add: length_b64_lines n)
  consider "n = 0" | "n \<noteq> 0" "n < 48 - ?u" | "n \<noteq> 0" "\<not> n < 48 - ?u" by blast
  then show ?thesis
  proof cases
    case 1
    then show ?thesis using n u inv by (simp add: EVP_EncodeUpdate_def)
  next
    case 2
    then show ?thesis using n u
      by (auto simp: EVP_EncodeUpdate_def encode_inv_def pending_input_def length_mem_write pending_append)
  next
    case 3
    define line where "line = (if ?u = 0 then [] else pending_input ctx @ take (48 - ?u) inp)"
    define rest where "rest = (if ?u = 0 then inp else drop (48 - ?u) inp)"
    define data where "data = (if ?u = 0 then ctx_data ctx else line)"
    have line: "?all = line @ rest" "line = [] \<or> length line = 48" using u 3 n by (auto simp: line_def rest_def)
    have data: "length data = 48" using u line by (auto simp: data_def line_def)
    have start: "(if ?u \<noteq> 0
             then (let todo = 48 - ?u; d = mem_write ?u (take todo inp) (ctx_data ctx); (w, encoded) = EVP_EncodeBlock d 48
                   in (ctx\<lparr>ctx_data := d, ctx_data_used := 0\<rparr>, drop todo inp, take encoded w @ [0x0a, 0], encoded + 1))
             else (ctx, inp, [], 0)) =
        (ctx\<lparr>ctx_data := data, ctx_data_used := 0\<rparr>, rest, b64_lines line @ (if ?u = 0 then [] else [0]), length (b64_lines line))"
    proof (cases "?u = 0")
      case False
      have "mem_write ?u (take (48 - ?u) inp) (ctx_data ctx) = line"
        using False u 3 n by (simp add: pending_append line_def pending_input_def)
      moreover have "b64_lines line = encode_loop line @ [0x0a]" "length line = 48"
        using b64_lines_line(1) [of line "[]"] False data by (auto simp: data_def)
      ultimately show ?thesis using False
        by (simp add: EVP_EncodeBlock_line [of line] length_line data_def rest_def)
    qed (simp add: line_def data_def rest_def)
    have lines: "b64_lines ?all = b64_lines line @ b64_lines rest" "b64_rest ?all = b64_rest rest"
      using line b64_lines_append [of line rest] b64_rest_append [of line rest] b64_lines_line(2) [of line "[]"] by auto
    obtain out' where out': "encode_lines rest (b64_lines line @ (if ?u = 0 then [] else [0])) (length (b64_lines line)) =
        (b64_rest rest, out', Some (length (b64_lines ?all)))" "take (length (b64_lines ?all)) out' = b64_lines ?all"
      using encode_lines_eq [of "b64_lines line @ (if ?u = 0 then [] else [0])" "length (b64_lines line)" rest] tot
      by (cases "?u = 0") (auto simp: lines length_b64_lines)
    have tk: "take n inp = inp" using n by simp
    let ?ctx' = "ctx\<lparr>ctx_data := mem_write 0 (b64_rest rest) data, ctx_data_used := length (b64_rest rest)\<rparr>"
    have "EVP_EncodeUpdate ctx inp n = (?ctx', out', length (b64_lines ?all))"
      unfolding EVP_EncodeUpdate_def tk Let_def [of inp] start
      unfolding Let_def prod.case out'(1) option.case
      using 3 tot by simp
    moreover have "encode_inv ?ctx'" "pending_input ?ctx' = b64_rest ?all"
      using length_b64_rest [of rest] data
      by (simp_all add: encode_inv_def pending_input_def length_mem_write pending_append lines(2) [unfolded pending_input_def])
    ultimately show ?thesis using out'(2) by blast
  qed
qed


text \<open>The calls a client makes: one update per piece of the input, then the end.\<close>

fun encode_stream :: "EVP_ENCODE_CTX \<Rightarrow> byte list list \<Rightarrow> byte list" where
  "encode_stream ctx [] = (let (_, out, n) = EVP_EncodeFinal ctx in take n out)"
| "encode_stream ctx (c # cs) =
     (let (ctx', out, n) = EVP_EncodeUpdate ctx c (length c) in take n out @ encode_stream ctx' cs)"

lemma encode_stream_eq:
  assumes "encode_inv ctx" "\<forall>c \<in> set cs. 65 * ((length c + 47) div 48) \<le> INT_MAX"
  shows "encode_stream ctx cs = b64_lines (pending_input ctx @ concat cs) @ b64_tail (pending_input ctx @ concat cs)"
  using assms
proof (induction cs arbitrary: ctx)
  case Nil
  obtain ctx' out n where f: "EVP_EncodeFinal ctx = (ctx', out, n)" by (cases "EVP_EncodeFinal ctx")
  have "length (pending_input ctx) < 48" using Nil length_pending [of ctx] by (simp add: encode_inv_def)
  then show ?case using b64_tail_pending [OF Nil(1) f] f by simp
next
  case (Cons c cs)
  have "(length (pending_input ctx) + length c) div 48 \<le> (length c + 47) div 48"
    using Cons(2) length_pending [of ctx] by (intro div_le_mono) (simp add: encode_inv_def)
  then have fits: "65 * ((length (pending_input ctx) + length c) div 48) \<le> INT_MAX" using Cons(3) by (force intro: order.trans)
  obtain ctx' out where up: "EVP_EncodeUpdate ctx c (length c) = (ctx', out, length (b64_lines (pending_input ctx @ c)))"
    "take (length (b64_lines (pending_input ctx @ c))) out = b64_lines (pending_input ctx @ c)"
    "encode_inv ctx'" "pending_input ctx' = b64_rest (pending_input ctx @ c)"
    using EVP_EncodeUpdate_eq [OF Cons(2) refl fits] by blast
  show ?case
    using Cons(1) [OF up(3)] Cons(3) up b64_lines_append [of "pending_input ctx @ c" "concat cs"]
      b64_rest_append [of "pending_input ctx @ c" "concat cs"] by (simp add: b64_tail_def)
qed

lemma encode_inv_init: "encode_inv EVP_EncodeInit" "pending_input EVP_EncodeInit = []"
  by (simp_all add: EVP_EncodeInit_def encode_inv_def pending_input_def)

text \<open>
  C12: the streaming encoder does not depend on how its input is cut into pieces. For any
  list of pieces whose output fits \<open>int\<close>, the characters produced by \<open>EVP_EncodeInit\<close>, one
  \<open>EVP_EncodeUpdate\<close> per piece and \<open>EVP_EncodeFinal\<close> are the encoding of the concatenated
  input in lines of 64 characters, each ended by a newline, the last line shorter when the
  input is not a multiple of 48 bytes.
\<close>

theorem encode_stream_refines:
  assumes "\<forall>c \<in> set cs. 65 * ((length c + 47) div 48) \<le> INT_MAX"
  shows "encode_stream EVP_EncodeInit cs = b64_lines (concat cs) @ b64_tail (concat cs)"
  using encode_stream_eq [OF encode_inv_init(1) assms] by (simp add: encode_inv_init)

theorem encode_stream_refines_witness:
  "encode_stream EVP_EncodeInit [[0x41], [], [0x42, 0x43, 0x44]] = encode_loop [0x41, 0x42, 0x43, 0x44] @ [0x0a]"
  using encode_stream_refines [of "[[0x41], [], [0x42, 0x43, 0x44]]"] by (simp add: b64_tail_def)

subsection \<open>Streaming decoder\<close>

definition decode_ready :: "EVP_ENCODE_CTX \<Rightarrow> bool" where
  "decode_ready ctx \<longleftrightarrow> length (ctx_data ctx) = 48 \<and> ctx_data_used ctx = 0 \<and> \<not> ctx_eof_seen ctx \<and> \<not> ctx_error_encountered ctx"

lemma decode_update_append:
  "decode_update_loop (xs @ ys) ctx out =
     (case decode_update_loop xs ctx out of
        (False, ctx', out') \<Rightarrow> (False, ctx', out')
      | (True, ctx', out') \<Rightarrow> decode_update_loop ys ctx' out')"
  by (induction xs ctx out rule: decode_update_loop.induct) (auto simp: Let_def split: option.split)

lemma decode_update_quad:
  assumes "decode_ready ctx" "\<not> b64_space a" "\<not> b64_space b" "\<not> b64_space c" "\<not> b64_space d"
    and q: "base64_decode_quad a b c d = Some bs"
  shows "\<exists>ctx'. length (ctx_data ctx') = 48 \<and> ctx_data_used ctx' = 0 \<and> ctx_eof_seen ctx' = (length bs < 3) \<and>
    \<not> ctx_error_encountered ctx' \<and>
    decode_update_loop (a # b # c # d # inp) ctx out = decode_update_loop inp ctx' (out @ bs)"
proof -
  obtain w x y z r where data: "ctx_data ctx = w # x # y # z # r"
    using assms(1) by (cases "ctx_data ctx" rule: encode_loop.cases; cases "drop 3 (ctx_data ctx)") (auto simp: decode_ready_def)
  let ?ctx = "ctx\<lparr>ctx_data := a # b # c # d # r, ctx_data_used := 0, ctx_eof_seen := length bs < 3\<rparr>"
  have "decode_update_loop (a # b # c # d # inp) ctx out = decode_update_loop inp ?ctx (out @ bs)"
    using assms data by (auto simp: decode_ready_def numeral_2_eq_2 numeral_3_eq_3)
  then show ?thesis using assms data by (intro exI [of _ ?ctx]) (auto simp: decode_ready_def)
qed

lemma pad_not_space: "\<not> b64_space 0x3d"
  by simp

lemma decode_update_encode:
  assumes "decode_ready ctx"
  shows "\<exists>ctx'. decode_update_loop (encode_loop xs @ inp) ctx out = decode_update_loop inp ctx' (out @ xs) \<and>
    length (ctx_data ctx') = 48 \<and> ctx_data_used ctx' = 0 \<and> \<not> ctx_error_encountered ctx' \<and>
    (if length xs mod 3 = 0 then decode_ready ctx' else ctx_eof_seen ctx')"
  using assms
proof (induction xs arbitrary: ctx out rule: encode_loop.induct)
  case (1 a b c src)
  define l :: u32 where "l = push_bit 16 (ucast a) OR push_bit 8 (ucast b) OR ucast c"
  have l: "encode_loop (a # b # c # src) = encode_group l 18 # encode_group l 12 # encode_group l 6 # encode_group l 0 # encode_loop src"
    by (simp add: l_def Let_def)
  obtain ctx' where c: "decode_ready ctx'"
    "decode_update_loop (encode_loop (a # b # c # src) @ inp) ctx out = decode_update_loop (encode_loop src @ inp) ctx' (out @ [a, b, c])"
    using decode_update_quad [OF 1 (2) group_not_space group_not_space group_not_space group_not_space quad_3 [OF unat_group3, of a b c, folded l_def],
        of "encode_loop src @ inp" out] unfolding l by (auto simp: decode_ready_def)
  have m: "length (a # b # c # src) mod 3 = length src mod 3" by simp
  show ?case using 1 (1) [OF l_def c(1), of "out @ [a, b, c]"] unfolding c(2) m by simp
next
  case (2 a b)
  define l :: u32 where "l = push_bit 16 (ucast a) OR push_bit 8 (ucast b)"
  have "encode_loop [a, b] @ inp = encode_group l 18 # encode_group l 12 # encode_group l 6 # 0x3d # inp" by (simp add: l_def Let_def)
  moreover have "length [a, b] mod 3 \<noteq> 0" "length [a, b] < 3" by simp_all
  ultimately show ?case
    using decode_update_quad [OF 2 group_not_space group_not_space group_not_space pad_not_space quad_2 [OF unat_group2(1), of a b, folded l_def],
        of inp out] by metis
next
  case (3 a)
  define l :: u32 where "l = push_bit 16 (ucast a)"
  have "encode_loop [a] @ inp = encode_group l 18 # encode_group l 12 # 0x3d # 0x3d # inp" by (simp add: l_def Let_def)
  moreover have "length [a] mod 3 \<noteq> 0" "length [a] < 3" by simp_all
  ultimately show ?case
    using decode_update_quad [OF 3 group_not_space group_not_space pad_not_space pad_not_space quad_1 [OF unat_group2(2), of a, folded l_def],
        of inp out] by metis
qed (auto simp: decode_ready_def)

lemma decode_update_lines:
  assumes "decode_ready ctx"
  shows "\<exists>ctx'. decode_update_loop (b64_lines xs @ inp) ctx out = decode_update_loop inp ctx' (out @ take (48 * (length xs div 48)) xs) \<and> decode_ready ctx'"
  using assms
proof (induction xs arbitrary: ctx out rule: b64_lines.induct)
  case (1 xs)
  show ?case
  proof (cases "length xs < 48")
    case False
    let ?ys = "drop 48 xs"
    have lines: "b64_lines xs = encode_loop (take 48 xs) @ 0x0a # b64_lines ?ys" using False by (subst b64_lines.simps) simp
    obtain ctx1 where c1: "decode_ready ctx1"
      "decode_update_loop (b64_lines xs @ inp) ctx out = decode_update_loop (b64_lines ?ys @ inp) ctx1 (out @ take 48 xs)"
      using decode_update_encode [OF 1 (2), of "take 48 xs" "0x0a # b64_lines ?ys @ inp" out] False unfolding lines by auto
    have "length xs div 48 = Suc (length ?ys div 48)" using False by (simp add: le_div_geq)
    then have "take (48 * (length xs div 48)) xs = take 48 xs @ take (48 * (length ?ys div 48)) ?ys" by (simp add: take_add)
    then show ?thesis using 1 (1) [OF False c1(1), of "out @ take 48 xs"] unfolding c1(2) by simp
  qed (use 1 (2) in auto)
qed

lemma decode_update_stream:
  "\<exists>ctx'. decode_update_loop (b64_lines xs @ b64_tail xs) EVP_DecodeInit [] = (True, ctx', xs) \<and>
    ctx_data_used ctx' = 0 \<and> \<not> ctx_error_encountered ctx' \<and> (length xs mod 3 \<noteq> 0 \<longrightarrow> ctx_eof_seen ctx')"
proof -
  have r: "decode_ready EVP_DecodeInit" by (simp add: decode_ready_def EVP_DecodeInit_def)
  obtain ctx1 where c: "decode_ready ctx1"
    "decode_update_loop (b64_lines xs @ b64_tail xs) EVP_DecodeInit [] = decode_update_loop (b64_tail xs) ctx1 (take (48 * (length xs div 48)) xs)"
    using decode_update_lines [OF r, of xs "b64_tail xs" "[]"] by auto
  obtain pre where pre: "take (48 * (length xs div 48)) xs = pre" "xs = pre @ b64_rest xs" by (simp add: b64_rest_def)
  have "length xs mod 3 = length (b64_rest xs) mod 3"
  proof -
    have "length xs = 3 * (16 * (length xs div 48)) + length (b64_rest xs)" by (simp add: b64_rest_def minus_mult_div_eq_mod)
    then show ?thesis by (metis mod_mult_self4)
  qed
  then show ?thesis
    using decode_update_encode [OF c(1), of "b64_rest xs" "[0x0a]" pre] c(1) pre(2)
    unfolding c(2) unfolding pre(1) b64_tail_def by (auto simp: decode_ready_def split: if_splits)
qed

lemma decode_update_shift:
  "decode_update_loop xs ctx (out1 @ out2) = (case decode_update_loop xs ctx out2 of (b, ctx', out') \<Rightarrow> (b, ctx', out1 @ out'))"
  by (induction xs arbitrary: ctx out2) (auto simp: Let_def split: option.split)

lemma decode_update_error:
  "decode_update_loop xs ctx out = (True, ctx', out') \<Longrightarrow> ctx_error_encountered ctx' = ctx_error_encountered ctx"
  by (induction xs arbitrary: ctx out) (auto simp: Let_def split: if_splits option.splits)

lemma quad_length: "base64_decode_quad a b c d = Some bs \<Longrightarrow> length bs \<le> 3"
  by (auto simp: base64_decode_quad_def Let_def split: if_splits)

lemma decode_update_length:
  "decode_update_loop xs ctx out = (b, ctx', out') \<Longrightarrow> length out' \<le> length out + 3 * length xs"
proof (induction xs arbitrary: ctx out)
  case (Cons c xs)
  have "length out + k + 3 * length xs \<le> length out + 3 * length (c # xs)" if "k \<le> 3" for k using that by simp
  then show ?case using Cons quad_length
    by (auto simp: Let_def split: if_splits option.splits dest!: Cons.IH intro: order.trans)
qed simp

text \<open>The calls of a decoding client: it stops at the first update that reports an error.\<close>

fun decode_stream :: "EVP_ENCODE_CTX \<Rightarrow> byte list list \<Rightarrow> byte list option" where
  "decode_stream ctx [] = (if fst (EVP_DecodeFinal ctx) = 1 then Some [] else None)"
| "decode_stream ctx (c # cs) =
     (let (ret, ctx', out, n) = EVP_DecodeUpdate ctx c (length c)
      in if ret < 0 then None else map_option (\<lambda>rest. take n out @ rest) (decode_stream ctx' cs))"

lemma decode_stream_eq:
  assumes "\<forall>c \<in> set cs. 3 * length c \<le> INT_MAX" "\<not> ctx_error_encountered ctx"
    and "decode_update_loop (concat cs) ctx [] = (True, ctx', out)" "ctx_data_used ctx' = 0" "\<not> ctx_error_encountered ctx'"
  shows "decode_stream ctx cs = Some out"
  using assms
proof (induction cs arbitrary: ctx out)
  case Nil
  then show ?case by (simp add: EVP_DecodeFinal_def)
next
  case (Cons c cs)
  obtain b ctx1 out1 where c: "decode_update_loop c ctx [] = (b, ctx1, out1)" by (metis prod_cases3)
  have "b" using Cons(4) c by (auto simp: decode_update_append split: bool.splits)
  then have rest: "decode_update_loop (concat cs) ctx1 (out1 @ []) = (True, ctx', out)"
    using Cons(4) c by (simp add: decode_update_append)
  have "\<not> ctx_error_encountered ctx1" using c \<open>b\<close> Cons(3) decode_update_error by metis
  obtain out2 where out2: "decode_update_loop (concat cs) ctx1 [] = (True, ctx', out2)" "out = out1 @ out2"
    using rest unfolding decode_update_shift by (auto split: prod.splits)
  have "length out1 \<le> INT_MAX" using decode_update_length [OF c] Cons(2) by (auto intro: order.trans)
  then show ?case using Cons(1) [of ctx1 out2] Cons.prems c \<open>b\<close> out2 \<open>\<not> ctx_error_encountered ctx1\<close>
    by (simp add: EVP_DecodeUpdate_def)
qed

text \<open>
  C13: streaming decoding inverts streaming encoding, with the input of both cut into pieces
  in any way. Every piece of the encoded text is accepted and the decoded bytes are those
  that were encoded, newlines being skipped.
\<close>

theorem base64_stream_roundtrip:
  assumes "\<forall>c \<in> set cs. 65 * ((length c + 47) div 48) \<le> INT_MAX" "\<forall>d \<in> set ds. 3 * length d \<le> INT_MAX"
    and "concat ds = encode_stream EVP_EncodeInit cs"
  shows "decode_stream EVP_DecodeInit ds = Some (concat cs)"
proof -
  have "concat ds = b64_lines (concat cs) @ b64_tail (concat cs)"
    using assms(3) encode_stream_eq [OF encode_inv_init(1) assms(1)] by (simp add: encode_inv_init)
  moreover have "\<not> ctx_error_encountered EVP_DecodeInit" by (simp add: EVP_DecodeInit_def)
  ultimately show ?thesis using decode_update_stream [of "concat cs"] assms(2) decode_stream_eq by metis
qed

theorem base64_stream_roundtrip_witness:
  "decode_stream EVP_DecodeInit [[0x51], [0x55, 0x4a, 0x44, 0x52, 0x41], [0x3d, 0x3d, 0x0a]] = Some [0x41, 0x42, 0x43, 0x44]"
proof -
  have "encode_stream EVP_EncodeInit [[0x41, 0x42], [0x43, 0x44]] = [0x51, 0x55, 0x4a, 0x44, 0x52, 0x41, 0x3d, 0x3d, 0x0a]"
    using encode_stream_eq [OF encode_inv_init(1), of "[[0x41, 0x42], [0x43, 0x44]]"]
    by (simp add: encode_inv_init b64_tail_def encode_group_eq b64_char_def)
  then show ?thesis
    using base64_stream_roundtrip [of "[[0x41, 0x42], [0x43, 0x44]]" "[[0x51], [0x55, 0x4a, 0x44, 0x52, 0x41], [0x3d, 0x3d, 0x0a]]"] by simp
qed

subsection \<open>Errors\<close>

text \<open>
  \<open>openssl/base64.h\<close> says that \<open>EVP_DecodeBlock\<close> strips trailing minuses and leading
  whitespace; the code strips only space and tab in front, and no minus at the end.
\<close>

lemma EVP_DecodeBlock_not_stripped:
  "snd (EVP_DecodeBlock [0x51, 0x55, 0x4a, 0x44] 4) = 3"
  "snd (EVP_DecodeBlock [0x51, 0x55, 0x4a, 0x44, 0x2d] 5) = - 1"
  "snd (EVP_DecodeBlock [0x0a, 0x51, 0x55, 0x4a, 0x44] 5) = - 1"
  by (simp_all add: EVP_DecodeBlock_def EVP_DecodedLength_def EVP_DecodeBase64_def base64_decode_quad_def
      base64_ascii_to_bin_eq trim_start_def trim_end_def Let_def)

text \<open>
  A client that goes on after errors: the return value and the reported length of every
  update, and the context at the end.
\<close>

fun decode_run :: "EVP_ENCODE_CTX \<Rightarrow> byte list list \<Rightarrow> (int \<times> nat) list \<times> EVP_ENCODE_CTX" where
  "decode_run ctx [] = ([], ctx)"
| "decode_run ctx (c # cs) =
     (let (ret, ctx', out, n) = EVP_DecodeUpdate ctx c (length c); (rs, ctx'') = decode_run ctx' cs in ((ret, n) # rs, ctx''))"

lemma decode_run_error: "ctx_error_encountered ctx \<Longrightarrow> decode_run ctx ds = (replicate (length ds) (- 1, 0), ctx)"
  by (induction ds) (simp_all add: EVP_DecodeUpdate_def)

lemma decode_loop_fails: "decode_update_loop xs ctx out = (False, ctx', out') \<Longrightarrow> ctx_error_encountered ctx'"
  by (induction xs arbitrary: ctx out) (auto simp: Let_def split: if_splits option.splits)

lemma decode_loop_after_end:
  "ctx_eof_seen ctx \<Longrightarrow> \<exists>c \<in> set xs. \<not> b64_space c \<Longrightarrow> \<exists>ctx' out'. decode_update_loop xs ctx out = (False, ctx', out')"
  by (induction xs arbitrary: out) auto

text \<open>The errors of a run are its last results, and there are some when the character loop fails on the whole text.\<close>

lemma decode_run_shape:
  assumes "\<not> ctx_error_encountered ctx" "decode_run ctx ds = (rs, ctx')"
  shows "\<exists>good n. rs = good @ replicate n (- 1, 0) \<and> (\<forall>(ret, k) \<in> set good. ret \<noteq> - 1) \<and>
    (n > 0 \<longrightarrow> ctx_error_encountered ctx') \<and> (\<not> fst (decode_update_loop (concat ds) ctx []) \<longrightarrow> n > 0)"
  using assms
proof (induction ds arbitrary: ctx rs)
  case (Cons d ds)
  obtain ret ctx1 out k where u: "EVP_DecodeUpdate ctx d (length d) = (ret, ctx1, out, k)" by (metis prod_cases4)
  obtain rs1 where rs1: "decode_run ctx1 ds = (rs1, ctx')" "rs = (ret, k) # rs1" using Cons.prems(2) u by (auto split: prod.splits)
  show ?case
  proof (cases "ret = - 1")
    case True
    then have "k = 0" "ctx_error_encountered ctx1"
      using u Cons.prems(1) by (auto simp: EVP_DecodeUpdate_def dest: decode_loop_fails split: if_splits prod.splits bool.splits)
    then have "rs = [] @ replicate (Suc (length ds)) (- 1, 0)" "ctx' = ctx1" using rs1 True decode_run_error [of ctx1 ds] by auto
    then show ?thesis using \<open>ctx_error_encountered ctx1\<close> by (intro exI [of _ "[]"] exI [of _ "Suc (length ds)"]) simp
  next
    case False
    then have loop: "decode_update_loop d ctx [] = (True, ctx1, out)"
      using u Cons.prems(1) by (auto simp: EVP_DecodeUpdate_def split: if_splits prod.splits bool.splits)
    then have ok: "\<not> ctx_error_encountered ctx1" using decode_update_error Cons.prems(1) by metis
    have "fst (decode_update_loop (concat (d # ds)) ctx []) = fst (decode_update_loop (concat ds) ctx1 [])"
      using decode_update_shift [of "concat ds" ctx1 out "[]"] by (simp add: decode_update_append loop split: prod.splits)
    moreover obtain good n where "rs1 = good @ replicate n (- 1, 0)" "\<forall>(ret, k) \<in> set good. ret \<noteq> - 1"
      "n > 0 \<longrightarrow> ctx_error_encountered ctx'" "\<not> fst (decode_update_loop (concat ds) ctx1 []) \<longrightarrow> n > 0"
      using Cons.IH [OF ok rs1(1)] by blast
    ultimately show ?thesis using rs1(2) False by (intro exI [of _ "(ret, k) # good"] exI [of _ n]) simp
  qed
qed simp

text \<open>
  C14: a decoding error is final, and data after the padding is one. Whatever pieces are fed to a
  fresh decoder, the updates that return \<open>-1\<close> are the last ones, they report no output, and after them
  \<open>EVP_DecodeFinal\<close> fails too. If the text begins with the encoding of bytes whose number is
  not a multiple of three, so that it ends in padding, and any character other
  than whitespace follows, some update does return \<open>-1\<close>, however the text is cut.
\<close>

theorem decode_error_sticky:
  assumes "decode_run EVP_DecodeInit ds = (rs, ctx)"
  shows "\<exists>good n. rs = good @ replicate n (- 1, 0) \<and> (\<forall>(ret, k) \<in> set good. ret \<noteq> - 1) \<and>
    (n > 0 \<longrightarrow> EVP_DecodeFinal ctx = (- 1, 0)) \<and>
    ((\<exists>cs junk. concat ds = encode_stream EVP_EncodeInit cs @ junk \<and> (\<forall>c \<in> set cs. 65 * ((length c + 47) div 48) \<le> INT_MAX) \<and>
        length (concat cs) mod 3 \<noteq> 0 \<and> (\<exists>c \<in> set junk. \<not> b64_space c)) \<longrightarrow> n > 0)"
proof -
  have init: "\<not> ctx_error_encountered EVP_DecodeInit" by (simp add: EVP_DecodeInit_def)
  have fails: "\<not> fst (decode_update_loop (concat ds) EVP_DecodeInit [])"
    if ds: "concat ds = encode_stream EVP_EncodeInit cs @ junk" and cs: "\<forall>c \<in> set cs. 65 * ((length c + 47) div 48) \<le> INT_MAX"
      and pad: "length (concat cs) mod 3 \<noteq> 0" and junk: "\<exists>c \<in> set junk. \<not> b64_space c" for cs junk
  proof -
    have e: "encode_stream EVP_EncodeInit cs = b64_lines (concat cs) @ b64_tail (concat cs)"
      using encode_stream_eq [OF encode_inv_init(1) cs] by (simp add: encode_inv_init)
    obtain ctx1 where "decode_update_loop (encode_stream EVP_EncodeInit cs) EVP_DecodeInit [] = (True, ctx1, concat cs)" "ctx_eof_seen ctx1"
      using decode_update_stream [of "concat cs"] pad unfolding e by auto
    then show ?thesis using decode_loop_after_end [OF _ junk, of ctx1 "concat cs"] unfolding ds decode_update_append by auto
  qed
  obtain good n where "rs = good @ replicate n (- 1, 0)" "\<forall>(ret, k) \<in> set good. ret \<noteq> - 1"
    "n > 0 \<longrightarrow> ctx_error_encountered ctx" "\<not> fst (decode_update_loop (concat ds) EVP_DecodeInit []) \<longrightarrow> n > 0"
    using decode_run_shape [OF init assms] by blast
  moreover from this have "n > 0 \<longrightarrow> EVP_DecodeFinal ctx = (- 1, 0)" by (simp add: EVP_DecodeFinal_def)
  ultimately show ?thesis using fails by blast
qed

text \<open>\<open>QQ==\<close>, a newline and \<open>QUJD\<close>, fed in three pieces.\<close>

theorem decode_error_sticky_witness:
  "\<exists>rs ctx good n. decode_run EVP_DecodeInit [[0x51, 0x51, 0x3d], [0x3d, 0x0a, 0x51, 0x55], [0x4a, 0x44]] = (rs, ctx) \<and>
     rs = good @ replicate n (- 1, 0) \<and> n > 0 \<and> EVP_DecodeFinal ctx = (- 1, 0)"
proof -
  let ?ds = "[[0x51, 0x51, 0x3d], [0x3d, 0x0a, 0x51, 0x55], [0x4a, 0x44]] :: byte list list"
  obtain rs ctx where run: "decode_run EVP_DecodeInit ?ds = (rs, ctx)" by (metis surj_pair)
  have "encode_stream EVP_EncodeInit [[0x41]] = [0x51, 0x51, 0x3d, 0x3d, 0x0a]"
    using encode_stream_eq [OF encode_inv_init(1), of "[[0x41]]"] by (simp add: encode_inv_init b64_tail_def encode_group_eq b64_char_def)
  then have "\<exists>cs junk. concat ?ds = encode_stream EVP_EncodeInit cs @ junk \<and> (\<forall>c \<in> set cs. 65 * ((length c + 47) div 48) \<le> INT_MAX) \<and>
      length (concat cs) mod 3 \<noteq> 0 \<and> (\<exists>c \<in> set junk. \<not> b64_space c)"
    by (intro exI [of _ "[[0x41]]"] exI [of _ "[0x51, 0x55, 0x4a, 0x44]"]) simp
  then show ?thesis using decode_error_sticky [OF run] run by blast
qed

end
