(* ===== verification/Stack.thy ===== *)
theory Stack
  imports Comparison
begin

text \<open>
  The pointer stacks of \<open>crypto/stack/stack.c\<close>. A pointer is a 64-bit word, \<open>NULL\<close> is zero;
  the array \<open>data\<close> is the list of its \<open>num_alloc\<close> cells, of which the first \<open>num\<close> are valid.
  A comparison function is the value of its function pointer, and \<open>call_cmp_func\<close> is the
  function the code is passed to call it with. A stack argument that may be \<open>NULL\<close> is an
  option; \<open>sk_push\<close> and \<open>sk_set_cmp_func\<close> dereference theirs unconditionally and take the
  record itself. Allocating functions take the allocator and the number of its calls so far,
  and return the new number.
\<close>

type_synonym ptr = u64

type_synonym stack_cmp_func = u64

abbreviation NULL :: ptr where "NULL \<equiv> 0"

record stack_st =
  st_num :: nat
  st_data :: "ptr list"
  st_sorted :: bool
  st_num_alloc :: nat
  st_comp :: stack_cmp_func

subsection \<open>Arrays of pointers in memory\<close>

definition ptr_bytes :: "ptr \<Rightarrow> byte list" where
  "ptr_bytes p = rev (be_bytes 8 (unat p))"

definition bytes_of_ptrs :: "ptr list \<Rightarrow> byte list" where
  "bytes_of_ptrs ps = concat (map ptr_bytes ps)"

function ptrs_of_bytes :: "byte list \<Rightarrow> ptr list" where
  "ptrs_of_bytes bs =
     (if length bs < 8 then [] else word_of_nat (be_val (rev (take 8 bs))) # ptrs_of_bytes (drop 8 bs))"
  by pat_completeness auto
termination by (relation "measure length") auto

declare ptrs_of_bytes.simps [simp del]

subsection \<open>Creation, access and destruction\<close>

definition sizeof_STACK :: nat where
  "sizeof_STACK = 40"

definition kMinSize :: nat where
  "kMinSize = 4"

definition sk_new :: "allocator \<Rightarrow> nat \<Rightarrow> stack_cmp_func \<Rightarrow> stack_st option \<times> nat" where
  "sk_new m k comp_func =
     (case OPENSSL_malloc m k sizeof_STACK of
        None \<Rightarrow> (None, k + 1)
      | Some _ \<Rightarrow>
          (case OPENSSL_malloc m (k + 1) (8 * kMinSize) of
             None \<Rightarrow> (None, k + 2)
           | Some _ \<Rightarrow>
               (Some \<lparr>st_num = 0, st_data = replicate kMinSize NULL, st_sorted = False,
                      st_num_alloc = kMinSize, st_comp = comp_func\<rparr>, k + 2)))"

definition sk_new_null :: "allocator \<Rightarrow> nat \<Rightarrow> stack_st option \<times> nat" where
  "sk_new_null m k = sk_new m k NULL"

definition sk_num :: "stack_st option \<Rightarrow> nat" where
  "sk_num sk = (case sk of None \<Rightarrow> 0 | Some s \<Rightarrow> st_num s)"

definition sk_zero :: "stack_st option \<Rightarrow> stack_st option" where
  "sk_zero sk =
     (case sk of
        None \<Rightarrow> None
      | Some s \<Rightarrow>
          if st_num s = 0 then Some s
          else Some (s\<lparr>st_data := mem_write 0 (replicate (st_num s) NULL) (st_data s), st_num := 0, st_sorted := False\<rparr>))"

definition sk_value :: "stack_st option \<Rightarrow> nat \<Rightarrow> ptr" where
  "sk_value sk i =
     (case sk of None \<Rightarrow> NULL | Some s \<Rightarrow> if i \<ge> st_num s then NULL else st_data s ! i)"

definition sk_set :: "stack_st option \<Rightarrow> nat \<Rightarrow> ptr \<Rightarrow> ptr \<times> stack_st option" where
  "sk_set sk i p =
     (case sk of
        None \<Rightarrow> (NULL, None)
      | Some s \<Rightarrow> if i \<ge> st_num s then (NULL, Some s) else (p, Some (s\<lparr>st_data := (st_data s)[i := p]\<rparr>)))"

text \<open>\<open>free_func\<close> acts on the state \<open>'s\<close> of the caller; the loop visits the cells in order.\<close>

fun free_each :: "(ptr \<Rightarrow> 's \<Rightarrow> 's) \<Rightarrow> ptr list \<Rightarrow> 's \<Rightarrow> 's" where
  "free_each free_func [] s = s"
| "free_each free_func (p # ps) s = free_each free_func ps (if p \<noteq> NULL then free_func p s else s)"

definition sk_pop_free_ex :: "(ptr \<Rightarrow> 's \<Rightarrow> 's) \<Rightarrow> stack_st option \<Rightarrow> 's \<Rightarrow> 's" where
  "sk_pop_free_ex free_func sk s =
     (case sk of None \<Rightarrow> s | Some st \<Rightarrow> free_each free_func (take (st_num st) (st_data st)) s)"

definition sk_pop_free :: "(ptr \<Rightarrow> 's \<Rightarrow> 's) \<Rightarrow> stack_st option \<Rightarrow> 's \<Rightarrow> 's" where
  "sk_pop_free free_func sk s = sk_pop_free_ex free_func sk s"

subsection \<open>Insertion and deletion\<close>

text \<open>The new capacity, or \<open>None\<close> when the size in bytes overflows.\<close>

definition sk_new_alloc :: "nat \<Rightarrow> (nat \<times> nat) option" where
  "sk_new_alloc num_alloc =
     (let overflow = (\<lambda>new_alloc alloc_size. new_alloc < num_alloc \<or> alloc_size div 8 \<noteq> new_alloc);
          new_alloc = (num_alloc * 2) mod size_mod;
          alloc_size = (new_alloc * 8) mod size_mod;
          new_alloc' = (if overflow new_alloc alloc_size then (num_alloc + 1) mod size_mod else new_alloc);
          alloc_size' = (if overflow new_alloc alloc_size then (new_alloc' * 8) mod size_mod else alloc_size)
      in if overflow new_alloc' alloc_size' then None else Some (new_alloc', alloc_size'))"

definition sk_grow :: "allocator \<Rightarrow> nat \<Rightarrow> stack_st \<Rightarrow> stack_st option \<times> nat" where
  "sk_grow m k s =
     (if st_num_alloc s \<le> (st_num s + 1) mod size_mod
      then (case sk_new_alloc (st_num_alloc s) of
              None \<Rightarrow> (None, k)
            | Some (new_alloc, alloc_size) \<Rightarrow>
                (case OPENSSL_realloc m k (Some (bytes_of_ptrs (st_data s))) alloc_size of
                   None \<Rightarrow> (None, k + 1)
                 | Some data \<Rightarrow> (Some (s\<lparr>st_data := ptrs_of_bytes data, st_num_alloc := new_alloc\<rparr>), k + 1)))
      else (Some s, k))"

definition sk_insert :: "allocator \<Rightarrow> nat \<Rightarrow> stack_st option \<Rightarrow> ptr \<Rightarrow> nat \<Rightarrow> nat \<times> stack_st option \<times> nat" where
  "sk_insert m k sk p where' =
     (case sk of
        None \<Rightarrow> (0, None, k)
      | Some s0 \<Rightarrow>
          (case sk_grow m k s0 of
             (None, k') \<Rightarrow> (0, Some s0, k')
           | (Some s, k') \<Rightarrow>
               (let data = (if where' \<ge> st_num s then (st_data s)[st_num s := p]
                            else (mem_move (where' + 1) where' (st_num s - where') (st_data s))[where' := p])
                in (st_num s + 1, Some (s\<lparr>st_data := data, st_num := st_num s + 1, st_sorted := False\<rparr>), k'))))"

definition sk_delete :: "stack_st option \<Rightarrow> nat \<Rightarrow> ptr \<times> stack_st option" where
  "sk_delete sk where' =
     (case sk of
        None \<Rightarrow> (NULL, None)
      | Some s \<Rightarrow>
          if where' \<ge> st_num s then (NULL, Some s)
          else (st_data s ! where',
                Some (s\<lparr>st_data := (if where' \<noteq> st_num s - 1
                                     then mem_move where' (where' + 1) (st_num s - where' - 1) (st_data s)
                                     else st_data s),
                        st_num := st_num s - 1\<rparr>)))"

text \<open>The pointer search loop that \<open>sk_delete_ptr\<close> and \<open>sk_find\<close> run from index \<open>i\<close>.\<close>

fun find_from :: "(ptr \<Rightarrow> bool) \<Rightarrow> ptr list \<Rightarrow> nat \<Rightarrow> nat option" where
  "find_from match [] i = None"
| "find_from match (q # qs) i = (if match q then Some i else find_from match qs (i + 1))"

definition sk_delete_ptr :: "stack_st option \<Rightarrow> ptr \<Rightarrow> ptr \<times> stack_st option" where
  "sk_delete_ptr sk p =
     (case sk of
        None \<Rightarrow> (NULL, None)
      | Some s \<Rightarrow>
          (case find_from (\<lambda>q. q = p) (take (st_num s) (st_data s)) 0 of
             None \<Rightarrow> (NULL, Some s)
           | Some i \<Rightarrow> sk_delete (Some s) i))"

subsection \<open>Searching and sorting\<close>

definition sk_is_sorted :: "stack_st option \<Rightarrow> bool" where
  "sk_is_sorted sk = (case sk of None \<Rightarrow> True | Some s \<Rightarrow> st_sorted s)"

text \<open>The binary search; \<open>r_at\<close> compares the key with the element at an index.\<close>

function bsearch :: "(nat \<Rightarrow> int) \<Rightarrow> nat \<Rightarrow> nat \<Rightarrow> nat option" where
  "bsearch r_at lo hi =
     (if lo < hi then
        (let mid = lo + (hi - lo - 1) div 2; r = r_at mid
         in if r > 0 then bsearch r_at (mid + 1) hi
            else if r < 0 then bsearch r_at lo mid
            else if hi - lo = 1 then Some mid
            else bsearch r_at lo (mid + 1))
      else None)"
  by pat_completeness auto
termination
  by (relation "measure (\<lambda>(_, lo, hi). hi - lo)") (auto simp: Let_def)

declare bsearch.simps [simp del]

definition sk_find :: "(stack_cmp_func \<Rightarrow> ptr \<Rightarrow> ptr \<Rightarrow> int) \<Rightarrow> stack_st option \<Rightarrow> ptr \<Rightarrow> nat option" where
  "sk_find call_cmp_func sk p =
     (case sk of
        None \<Rightarrow> None
      | Some s \<Rightarrow>
          if st_comp s = NULL then find_from (\<lambda>q. q = p) (take (st_num s) (st_data s)) 0
          else if p = NULL then None
          else if \<not> sk_is_sorted sk
          then find_from (\<lambda>elem. call_cmp_func (st_comp s) p elem = 0) (take (st_num s) (st_data s)) 0
          else bsearch (\<lambda>mid. call_cmp_func (st_comp s) p (st_data s ! mid)) 0 (st_num s))"

definition sk_shift :: "stack_st option \<Rightarrow> ptr \<times> stack_st option" where
  "sk_shift sk =
     (case sk of
        None \<Rightarrow> (NULL, None)
      | Some s \<Rightarrow> if st_num s = 0 then (NULL, Some s) else sk_delete (Some s) 0)"

definition sk_push :: "allocator \<Rightarrow> nat \<Rightarrow> stack_st \<Rightarrow> ptr \<Rightarrow> nat \<times> stack_st option \<times> nat" where
  "sk_push m k s p = sk_insert m k (Some s) p (st_num s)"

definition sk_pop :: "stack_st option \<Rightarrow> ptr \<times> stack_st option" where
  "sk_pop sk =
     (case sk of
        None \<Rightarrow> (NULL, None)
      | Some s \<Rightarrow> if st_num s = 0 then (NULL, Some s) else sk_delete (Some s) (st_num s - 1))"

definition sk_dup :: "allocator \<Rightarrow> nat \<Rightarrow> stack_st option \<Rightarrow> stack_st option \<times> nat" where
  "sk_dup m k sk =
     (case sk of
        None \<Rightarrow> (None, k)
      | Some s \<Rightarrow>
          (case OPENSSL_malloc m k sizeof_STACK of
             None \<Rightarrow> (None, k + 1)
           | Some _ \<Rightarrow>
               (case OPENSSL_malloc m (k + 1) ((8 * st_num_alloc s) mod size_mod) of
                  None \<Rightarrow> (None, k + 2)
                | Some data \<Rightarrow>
                    (Some \<lparr>st_num = st_num s,
                           st_data = mem_write 0 (take (st_num s) (st_data s)) (ptrs_of_bytes data),
                           st_sorted = st_sorted s, st_num_alloc = st_num_alloc s, st_comp = st_comp s\<rparr>, k + 2))))"

definition sk_sort ::
  "((ptr \<Rightarrow> ptr \<Rightarrow> int) \<Rightarrow> ptr list \<Rightarrow> ptr list) \<Rightarrow> (stack_cmp_func \<Rightarrow> ptr \<Rightarrow> ptr \<Rightarrow> int) \<Rightarrow> stack_st option \<Rightarrow> stack_st option" where
  "sk_sort qsort call_cmp_func sk =
     (case sk of
        None \<Rightarrow> None
      | Some s \<Rightarrow>
          if st_comp s = NULL \<or> st_sorted s then Some s
          else Some (s\<lparr>st_data := (if st_num s \<ge> 2
                                   then mem_write 0 (qsort (call_cmp_func (st_comp s)) (take (st_num s) (st_data s))) (st_data s)
                                   else st_data s),
                      st_sorted := True\<rparr>))"

definition sk_set_cmp_func :: "stack_st \<Rightarrow> stack_cmp_func \<Rightarrow> stack_cmp_func \<times> stack_st" where
  "sk_set_cmp_func s comp_func =
     (st_comp s, (if st_comp s \<noteq> comp_func then s\<lparr>st_sorted := False\<rparr> else s)\<lparr>st_comp := comp_func\<rparr>)"

text \<open>
  The copy loop: cells already copied, cells to copy, state of the caller. On failure the
  copies made so far are freed in order and the result is \<open>None\<close>.
\<close>

fun copy_each :: "(ptr \<Rightarrow> 's \<Rightarrow> ptr \<times> 's) \<Rightarrow> (ptr \<Rightarrow> 's \<Rightarrow> 's) \<Rightarrow> ptr list \<Rightarrow> ptr list \<Rightarrow> 's \<Rightarrow> ptr list option \<times> 's" where
  "copy_each copy_func free_func done_cells [] s = (Some done_cells, s)"
| "copy_each copy_func free_func done_cells (p # ps) s =
     (if p = NULL then copy_each copy_func free_func (done_cells @ [p]) ps s
      else (case copy_func p s of
              (q, s') \<Rightarrow>
                if q = NULL then (None, free_each free_func done_cells s')
                else copy_each copy_func free_func (done_cells @ [q]) ps s'))"

definition sk_deep_copy ::
  "allocator \<Rightarrow> nat \<Rightarrow> (ptr \<Rightarrow> 's \<Rightarrow> ptr \<times> 's) \<Rightarrow> (ptr \<Rightarrow> 's \<Rightarrow> 's) \<Rightarrow> stack_st option \<Rightarrow> 's \<Rightarrow> stack_st option \<times> 's \<times> nat" where
  "sk_deep_copy m k copy_func free_func sk s =
     (case sk_dup m k sk of
        (None, k') \<Rightarrow> (None, s, k')
      | (Some ret, k') \<Rightarrow>
          (case copy_each copy_func free_func [] (take (st_num ret) (st_data ret)) s of
             (None, s') \<Rightarrow> (None, s', k')
           | (Some cells, s') \<Rightarrow> (Some (ret\<lparr>st_data := mem_write 0 cells (st_data ret)\<rparr>), s', k')))"

end
