(* ===== verification/Stack_Properties.thy ===== *)
theory Stack_Properties
  imports Stack
begin

text \<open>
  The stack functions as operations on the list of valid pointers: insertion and deletion at
  an index, the search functions as the first match, and the invariant that the
  \<open>sorted\<close> flag tells the truth, over all sequences of operations.
\<close>

subsection \<open>Arrays of pointers\<close>

lemma length_ptr_bytes [simp]: "length (ptr_bytes p) = 8"
  by (simp add: ptr_bytes_def)

lemma ptr_bytes_back: "word_of_nat (be_val (rev (ptr_bytes p))) = p"
proof -
  have "unat p < 256 ^ 8" using unsigned_less [of p, where ?'a = nat] by simp
  then show ?thesis by (simp add: ptr_bytes_def be_val_be_bytes)
qed

lemma ptrs_of_bytes_append: "ptrs_of_bytes (bytes_of_ptrs ps @ bs) = ps @ ptrs_of_bytes bs"
proof (induction ps)
  case (Cons p ps)
  then show ?case
    using ptr_bytes_back [of p] by (subst ptrs_of_bytes.simps) (simp add: bytes_of_ptrs_def)
qed (simp add: bytes_of_ptrs_def)

lemma length_bytes_of_ptrs [simp]: "length (bytes_of_ptrs ps) = 8 * length ps"
  by (induction ps) (simp_all add: bytes_of_ptrs_def)

lemma length_ptrs_of_bytes [simp]: "length (ptrs_of_bytes bs) = length bs div 8"
proof (induction bs rule: ptrs_of_bytes.induct)
  case (1 bs)
  show ?case
  proof (cases "length bs < 8")
    case False
    then have "length bs div 8 = Suc ((length bs - 8) div 8)" by (simp add: le_div_geq)
    then show ?thesis using 1 [OF False] False by (subst ptrs_of_bytes.simps) simp
  qed (subst ptrs_of_bytes.simps, simp)
qed

lemma realloc_ptrs:
  assumes "OPENSSL_realloc m k (Some (bytes_of_ptrs ps)) (8 * n) = Some b" "length ps \<le> n"
  shows "\<exists>junk. ptrs_of_bytes b = ps @ junk \<and> length (ps @ junk) = n"
proof -
  obtain ret where ret: "OPENSSL_malloc m k (8 * n) = Some ret" "b = bytes_of_ptrs ps @ drop (8 * length ps) ret"
    using assms by (auto simp: OPENSSL_realloc_def Let_def split: option.splits if_splits)
  have "length ret = 8 * n" using OPENSSL_malloc_length [OF ret(1)] .
  then have "length (ptrs_of_bytes (drop (8 * length ps) ret)) = n - length ps"
    by (simp add: right_diff_distrib' [symmetric])
  then show ?thesis using assms(2) unfolding ret(2) ptrs_of_bytes_append by auto
qed

subsection \<open>State and abstraction\<close>

definition sk_elems :: "stack_st \<Rightarrow> ptr list" where
  "sk_elems s = take (st_num s) (st_data s)"

definition sk_ok :: "stack_st \<Rightarrow> bool" where
  "sk_ok s \<longleftrightarrow> length (st_data s) = st_num_alloc s \<and> st_num s < st_num_alloc s \<and> 8 * st_num_alloc s < size_mod"

lemma length_sk_elems: "sk_ok s \<Longrightarrow> length (sk_elems s) = st_num s"
  by (simp add: sk_ok_def sk_elems_def)

lemma sk_new_ok:
  assumes "sk_new m k c = (Some s, k')"
  shows "sk_ok s \<and> sk_elems s = [] \<and> \<not> st_sorted s \<and> st_comp s = c"
  using assms by (auto simp: sk_new_def sk_ok_def sk_elems_def kMinSize_def split: option.splits)

text \<open>Capacities grow at least by one and never wrap.\<close>

lemma sk_new_alloc_grows:
  assumes "sk_new_alloc n = Some (a, b)" "8 * n < size_mod" "0 < n"
  shows "b = 8 * a \<and> n < a \<and> 8 * a < size_mod"
proof -
  define M where "M = size_mod"
  have M: "0 < M" by (simp add: M_def)
  have "n * 2 < M" "n + 1 < M" using assms(2) by (simp_all add: M_def)
  then have small: "n * 2 mod M = n * 2" "(n + 1) mod M = n + 1" by simp_all
  define e where "e x = x * 8 mod M" for x
  have e: "x * 8 mod M = e x" for x by (simp add: e_def)
  have "(a = n * 2 \<or> a = n + 1) \<and> b = e a \<and> e a div 8 = a"
    using assms(1) unfolding sk_new_alloc_def Let_def M_def [symmetric] small e by (auto split: if_splits)
  then show ?thesis using times_8_exact [of a M] M assms(3) unfolding M_def [symmetric] e by auto
qed

lemma sk_grow_ok:
  assumes ok: "sk_ok s" and g: "sk_grow m k s = (Some s', k')"
  shows "sk_ok s' \<and> st_num s + 1 < st_num_alloc s' \<and> sk_elems s' = sk_elems s \<and> st_num s' = st_num s \<and> st_comp s' = st_comp s"
proof (cases "st_num_alloc s \<le> (st_num s + 1) mod size_mod")
  case True
  obtain a b d where a: "sk_new_alloc (st_num_alloc s) = Some (a, b)"
    and d: "OPENSSL_realloc m k (Some (bytes_of_ptrs (st_data s))) b = Some d"
    and s': "s' = s\<lparr>st_data := ptrs_of_bytes d, st_num_alloc := a\<rparr>"
    using g True by (auto simp: sk_grow_def split: option.splits)
  have b: "b = 8 * a" "st_num_alloc s < a" "8 * a < size_mod"
    using sk_new_alloc_grows [OF a] ok by (simp_all add: sk_ok_def)
  then obtain junk where "ptrs_of_bytes d = st_data s @ junk" "length (st_data s @ junk) = a"
    using realloc_ptrs [of m k "st_data s" a d] d ok by (auto simp: sk_ok_def)
  then show ?thesis using ok b by (auto simp: s' sk_ok_def sk_elems_def)
next
  case False
  moreover have "(st_num s + 1) mod size_mod = st_num s + 1" using ok by (simp add: sk_ok_def)
  ultimately show ?thesis using ok g by (auto simp: sk_grow_def)
qed

lemma sk_insert_ok:
  assumes ok: "sk_ok s" and ins: "sk_insert m k (Some s) p w = (ret, sk', k')"
  shows "ret = 0 \<and> sk' = Some s \<or>
    ret = st_num s + 1 \<and> (\<exists>s'. sk' = Some s' \<and> sk_ok s' \<and> sk_elems s' = take w (sk_elems s) @ p # drop w (sk_elems s) \<and>
      \<not> st_sorted s' \<and> st_comp s' = st_comp s)"
proof (cases "sk_grow m k s")
  case (Pair g k1)
  show ?thesis
  proof (cases g)
    case None
    then show ?thesis using ins Pair by (auto simp: sk_insert_def)
  next
    case (Some s1)
    have g: "sk_ok s1" "st_num s + 1 < st_num_alloc s1" "sk_elems s1 = sk_elems s" "st_num s1 = st_num s" "st_comp s1 = st_comp s"
      using sk_grow_ok [OF ok] Pair Some by auto
    define n where "n = st_num s"
    define rest where "rest = drop n (st_data s1)"
    have d: "st_data s1 = sk_elems s @ rest" "length (sk_elems s) = n" "2 \<le> length rest"
      using g(1,2,4) length_sk_elems [OF ok] append_take_drop_id [of n "st_data s1"] unfolding g(3) [symmetric]
      by (auto simp: n_def rest_def sk_ok_def sk_elems_def simp del: append_take_drop_id)
    define data where "data = (if w \<ge> n then (st_data s1)[n := p]
        else (mem_move (w + 1) w (n - w) (st_data s1))[w := p])"
    have data: "length data = length (st_data s1)" "take (Suc n) data = take w (sk_elems s) @ p # drop w (sk_elems s)"
    proof -
      obtain y ys where ys: "rest = y # ys" using d(3) by (cases rest) auto
      have "data = (take w (sk_elems s) @ p # drop w (sk_elems s)) @ ys"
      proof (cases "w \<ge> n")
        case True
        then show ?thesis using d ys by (simp add: data_def list_update_append)
      next
        case False
        then have "mem_move (w + 1) w (n - w) (st_data s1) = take (Suc w) (sk_elems s) @ drop w (sk_elems s) @ ys"
          using d ys by (simp add: mem_move_def mem_write_def)
        moreover have "take (Suc w) (sk_elems s) = take w (sk_elems s) @ [sk_elems s ! w]" using False d by (simp add: take_Suc_conv_app_nth)
        ultimately show ?thesis using False d by (simp add: data_def list_update_append)
      qed
      moreover have "length (take w (sk_elems s) @ p # drop w (sk_elems s)) = Suc n" using d by simp
      ultimately show "length data = length (st_data s1)" "take (Suc n) data = take w (sk_elems s) @ p # drop w (sk_elems s)"
        using d ys by (simp, metis append_eq_conv_conj)
    qed
    have "ret = n + 1" "sk' = Some (s1\<lparr>st_data := data, st_num := n + 1, st_sorted := False\<rparr>)"
      using ins Pair Some g(4) by (auto simp: sk_insert_def data_def n_def Let_def)
    then show ?thesis using data g by (auto simp: sk_ok_def sk_elems_def n_def)
  qed
qed

lemma sk_delete_ok:
  assumes ok: "sk_ok s" and w: "w < st_num s"
  shows "\<exists>s'. sk_delete (Some s) w = (sk_elems s ! w, Some s') \<and> sk_ok s' \<and>
    sk_elems s' = take w (sk_elems s) @ drop (Suc w) (sk_elems s) \<and> st_sorted s' = st_sorted s \<and> st_comp s' = st_comp s"
proof -
  define n where "n = st_num s"
  obtain rest where d: "st_data s = sk_elems s @ rest" "length (sk_elems s) = n"
    using length_sk_elems [OF ok] by (auto simp: sk_elems_def n_def intro: append_take_drop_id [symmetric])
  define data where "data = (if w \<noteq> n - 1 then mem_move w (w + 1) (n - w - 1) (st_data s) else st_data s)"
  have "length data = length (st_data s) \<and> take (n - 1) data = take w (sk_elems s) @ drop (Suc w) (sk_elems s)"
  proof (cases "w = n - 1")
    case True
    then show ?thesis using d w by (simp add: data_def n_def)
  next
    case False
    then have "data = take w (sk_elems s) @ drop (Suc w) (sk_elems s) @ drop (n - 1) (st_data s)"
      using d w by (simp add: data_def mem_move_def mem_write_def n_def)
    then show ?thesis using d w by (auto simp: n_def)
  qed
  moreover have "st_data s ! w = sk_elems s ! w" using d w by (simp add: n_def nth_append)
  ultimately show ?thesis using ok w by (auto simp: sk_delete_def sk_ok_def sk_elems_def data_def n_def)
qed

lemma sk_push_ok:
  assumes "sk_ok s" "sk_push m k s p = (ret, sk', k')"
  shows "ret = 0 \<and> sk' = Some s \<or>
    ret = st_num s + 1 \<and> (\<exists>s'. sk' = Some s' \<and> sk_ok s' \<and> sk_elems s' = sk_elems s @ [p] \<and> \<not> st_sorted s' \<and> st_comp s' = st_comp s)"
  using sk_insert_ok [OF assms(1) assms(2) [unfolded sk_push_def]] length_sk_elems [OF assms(1)] by auto

lemma sk_pop_ok:
  assumes "sk_ok s" "sk_elems s \<noteq> []"
  shows "\<exists>s'. sk_pop (Some s) = (last (sk_elems s), Some s') \<and> sk_ok s' \<and> sk_elems s' = butlast (sk_elems s)"
proof -
  have n: "0 < st_num s" using assms length_sk_elems [OF assms(1)] by (cases "st_num s") auto
  then have "drop (Suc (st_num s - 1)) (sk_elems s) = []" using length_sk_elems [OF assms(1)] by simp
  then show ?thesis
    using sk_delete_ok [OF assms(1), of "st_num s - 1"] n length_sk_elems [OF assms(1)] assms(2)
    by (auto simp: sk_pop_def last_conv_nth butlast_conv_take)
qed

lemma sk_shift_ok:
  assumes "sk_ok s" "sk_elems s \<noteq> []"
  shows "\<exists>s'. sk_shift (Some s) = (hd (sk_elems s), Some s') \<and> sk_ok s' \<and> sk_elems s' = tl (sk_elems s)"
proof -
  have n: "0 < st_num s" using assms length_sk_elems [OF assms(1)] by (cases "st_num s") auto
  then show ?thesis
    using sk_delete_ok [OF assms(1) n] assms(2) by (auto simp: sk_shift_def hd_conv_nth drop_Suc)
qed

subsection \<open>Queues and stacks\<close>

text \<open>What a client that appends at the end and takes from either end may rely on.\<close>

locale sequence =
  fixes inv :: "'s \<Rightarrow> bool" and elems :: "'s \<Rightarrow> 'a list"
    and push :: "'s \<Rightarrow> 'a \<Rightarrow> 's option" and pop shift :: "'s \<Rightarrow> 'a \<times> 's"
  assumes push: "inv s \<Longrightarrow> push s x = Some s' \<Longrightarrow> inv s' \<and> elems s' = elems s @ [x]"
    and pop: "inv s \<Longrightarrow> elems s \<noteq> [] \<Longrightarrow> pop s = (x, s') \<Longrightarrow> inv s' \<and> elems s = elems s' @ [x]"
    and shift: "inv s \<Longrightarrow> elems s \<noteq> [] \<Longrightarrow> shift s = (x, s') \<Longrightarrow> inv s' \<and> elems s = x # elems s'"

fun push_all :: "('s \<Rightarrow> 'a \<Rightarrow> 's option) \<Rightarrow> 's \<Rightarrow> 'a list \<Rightarrow> 's option" where
  "push_all push s [] = Some s"
| "push_all push s (x # xs) = (case push s x of None \<Rightarrow> None | Some s' \<Rightarrow> push_all push s' xs)"

primrec take_many :: "('s \<Rightarrow> 'a \<times> 's) \<Rightarrow> nat \<Rightarrow> 's \<Rightarrow> 'a list" where
  "take_many f 0 s = []"
| "take_many f (Suc n) s = (case f s of (x, s') \<Rightarrow> x # take_many f n s')"

context sequence
begin

lemma push_all_elems: "inv s \<Longrightarrow> push_all push s xs = Some s' \<Longrightarrow> inv s' \<and> elems s' = elems s @ xs"
  by (induction xs arbitrary: s) (auto dest: push split: option.splits)

lemma shifts: "inv s \<Longrightarrow> n \<le> length (elems s) \<Longrightarrow> take_many shift n s = take n (elems s)"
proof (induction n arbitrary: s)
  case (Suc n)
  obtain x s' where x: "shift s = (x, s')" by (cases "shift s")
  have "elems s \<noteq> []" using Suc(3) by auto
  then show ?case using shift [OF Suc(2) _ x] Suc x by auto
qed simp

lemma pops: "inv s \<Longrightarrow> n \<le> length (elems s) \<Longrightarrow> take_many pop n s = take n (rev (elems s))"
proof (induction n arbitrary: s)
  case (Suc n)
  obtain x s' where x: "pop s = (x, s')" by (cases "pop s")
  have "elems s \<noteq> []" using Suc(3) by auto
  then show ?case using pop [OF Suc(2) _ x] Suc x by auto
qed simp

lemma first_in_first_out: "inv s \<Longrightarrow> elems s = [] \<Longrightarrow> push_all push s xs = Some s' \<Longrightarrow> take_many shift (length xs) s' = xs"
  using push_all_elems [of s xs s'] shifts [of s' "length xs"] by simp

lemma last_in_first_out: "inv s \<Longrightarrow> elems s = [] \<Longrightarrow> push_all push s xs = Some s' \<Longrightarrow> take_many pop (length xs) s' = rev xs"
  using push_all_elems [of s xs s'] pops [of s' "length xs"] by simp

end

text \<open>The stack functions on a stack and the number of allocator calls made so far.\<close>

definition stack_push :: "allocator \<Rightarrow> stack_st \<times> nat \<Rightarrow> ptr \<Rightarrow> (stack_st \<times> nat) option" where
  "stack_push m st p =
     (case sk_push m (snd st) (fst st) p of (ret, sk', k') \<Rightarrow> if ret = 0 then None else map_option (\<lambda>s. (s, k')) sk')"

definition stack_take :: "(stack_st option \<Rightarrow> ptr \<times> stack_st option) \<Rightarrow> stack_st \<times> nat \<Rightarrow> ptr \<times> stack_st \<times> nat" where
  "stack_take f st = (case f (Some (fst st)) of (p, sk') \<Rightarrow> (p, the sk', snd st))"

interpretation sk_seq: sequence "\<lambda>st. sk_ok (fst st)" "\<lambda>st. sk_elems (fst st)" "stack_push m" "stack_take sk_pop" "stack_take sk_shift"
  for m
proof unfold_locales
  fix s x s'
  assume "sk_ok (fst s)" "stack_push m s x = Some s'"
  then show "sk_ok (fst s') \<and> sk_elems (fst s') = sk_elems (fst s) @ [x]"
    using sk_push_ok [of "fst s" m "snd s" x] by (force simp: stack_push_def split: prod.splits if_splits)
next
  fix s x s'
  assume "sk_ok (fst s)" "sk_elems (fst s) \<noteq> []" "stack_take sk_pop s = (x, s')"
  then show "sk_ok (fst s') \<and> sk_elems (fst s) = sk_elems (fst s') @ [x]"
    using sk_pop_ok [of "fst s"] by (auto simp: stack_take_def)
next
  fix s x s'
  assume "sk_ok (fst s)" "sk_elems (fst s) \<noteq> []" "stack_take sk_shift s = (x, s')"
  then show "sk_ok (fst s') \<and> sk_elems (fst s) = x # sk_elems (fst s')"
    using sk_shift_ok [of "fst s"] by (auto simp: stack_take_def)
qed


subsection \<open>Searching\<close>

lemma find_from_eq: "find_from f xs i = find (\<lambda>j. f (xs ! (j - i))) [i..<i + length xs]"
proof (induction xs arbitrary: i)
  case (Cons x xs)
  have "[i..<i + length (x # xs)] = i # [Suc i..<Suc i + length xs]" by (simp add: upt_rec)
  moreover have "find (\<lambda>j. f ((x # xs) ! (j - i))) [Suc i..<Suc i + length xs] = find (\<lambda>j. f (xs ! (j - Suc i))) [Suc i..<Suc i + length xs]"
    by (rule find_cong) (auto simp: nth_Cons')
  ultimately show ?case using Cons by simp
qed simp

lemma find_upt_split: "lo \<le> mid \<Longrightarrow> mid \<le> hi \<Longrightarrow>
    find P [lo..<hi] = (case find P [lo..<mid] of None \<Rightarrow> find P [mid..<hi] | Some i \<Rightarrow> Some i)"
proof -
  assume "lo \<le> mid" "mid \<le> hi"
  then have "[lo..<hi] = [lo..<mid] @ [mid..<hi]" using upt_add_eq_append [of lo mid "hi - mid"] by simp
  moreover have "find P (xs @ ys) = (case find P xs of None \<Rightarrow> find P ys | Some i \<Rightarrow> Some i)" for xs ys
    by (induction xs) auto
  ultimately show ?thesis by simp
qed

lemma find_none: "(\<And>i. lo \<le> i \<Longrightarrow> i < hi \<Longrightarrow> \<not> P i) \<Longrightarrow> find P [lo..<hi] = None"
  by (simp add: find_None_iff)

context comparison
begin

lemma bsearch_first:
  assumes "cmp_sorted xs" "hi \<le> length xs"
  shows "bsearch (\<lambda>i. cmp p (xs ! i)) lo hi = find (\<lambda>i. cmp p (xs ! i) = 0) [lo..<hi]"
  using assms(2)
proof (induction "\<lambda>i. cmp p (xs ! i)" lo hi rule: bsearch.induct)
  case (1 lo hi)
  let ?P = "\<lambda>i. cmp p (xs ! i) = 0"
  show ?case
  proof (cases "lo < hi")
    case True
    define mid where "mid = lo + (hi - lo - 1) div 2"
    have mid: "lo \<le> mid" "mid < hi" "hi - lo \<noteq> 1 \<Longrightarrow> mid + 1 < hi" using True unfolding mid_def by linarith+
    have step: "bsearch (\<lambda>i. cmp p (xs ! i)) lo hi =
        (if cmp p (xs ! mid) > 0 then bsearch (\<lambda>i. cmp p (xs ! i)) (mid + 1) hi
         else if cmp p (xs ! mid) < 0 then bsearch (\<lambda>i. cmp p (xs ! i)) lo mid
         else if hi - lo = 1 then Some mid else bsearch (\<lambda>i. cmp p (xs ! i)) lo (mid + 1))"
      using True by (subst bsearch.simps) (simp add: Let_def mid_def)
    have ih: "cmp p (xs ! mid) > 0 \<Longrightarrow> bsearch (\<lambda>i. cmp p (xs ! i)) (mid + 1) hi = find ?P [mid + 1..<hi]"
      "cmp p (xs ! mid) < 0 \<Longrightarrow> bsearch (\<lambda>i. cmp p (xs ! i)) lo mid = find ?P [lo..<mid]"
      "cmp p (xs ! mid) = 0 \<Longrightarrow> hi - lo \<noteq> 1 \<Longrightarrow> bsearch (\<lambda>i. cmp p (xs ! i)) lo (mid + 1) = find ?P [lo..<mid + 1]"
      using 1 (1-3) [OF True mid_def refl] 1 (4) mid by simp_all
    consider "cmp p (xs ! mid) > 0" | "cmp p (xs ! mid) < 0" | "cmp p (xs ! mid) = 0" by linarith
    then show ?thesis
    proof cases
      case 1
      have "\<not> ?P i" if "lo \<le> i" "i < mid + 1" for i
        using sorted_below [OF assms(1), of i mid p] that mid \<open>hi \<le> length xs\<close> 1 by simp
      then have "find ?P [lo..<hi] = find ?P [mid + 1..<hi]"
        using mid find_none [of lo "mid + 1" ?P] by (subst find_upt_split [of lo "mid + 1"]) auto
      then show ?thesis using step ih(1) 1 by simp
    next
      case 2
      have "\<not> ?P i" if "mid \<le> i" "i < hi" for i
        using sorted_above [OF assms(1), of mid i p] that mid \<open>hi \<le> length xs\<close> 2 by simp
      then have "find ?P [lo..<hi] = find ?P [lo..<mid]"
        using mid find_none [of mid hi ?P] by (subst find_upt_split [of lo mid]) (auto split: option.split)
      then show ?thesis using step ih(2) 2 by simp
    next
      case 3
      show ?thesis
      proof (cases "hi - lo = 1")
        case True
        then have "hi = Suc lo" "mid = lo" using mid by (simp_all add: mid_def)
        then show ?thesis using step True 3 by simp
      next
        case False
        have "find ?P [lo..<mid + 1] \<noteq> None" using 3 mid by (auto simp: find_None_iff)
        then have "find ?P [lo..<hi] = find ?P [lo..<mid + 1]"
          using mid by (subst find_upt_split [of lo "mid + 1"]) (auto split: option.split)
        then show ?thesis using step ih(3) 3 False by simp
      qed
    qed
  qed (simp add: bsearch.simps)
qed

end

subsection \<open>The sorted flag\<close>

type_synonym cmp_env = "stack_cmp_func \<Rightarrow> ptr \<Rightarrow> ptr \<Rightarrow> int"

definition sk_inv :: "cmp_env \<Rightarrow> stack_st \<Rightarrow> bool" where
  "sk_inv call s \<longleftrightarrow> sk_ok s \<and>
     (st_sorted s \<longrightarrow> st_comp s \<noteq> NULL \<and> sorted_wrt (\<lambda>x y. call (st_comp s) x y \<le> 0) (sk_elems s))"

text \<open>
  Every operation that changes a stack or makes a new one from it, except \<open>sk_set\<close>. The copy function of
  \<open>sk_deep_copy\<close> works on a state of its own, the objects that are alive.
\<close>

inductive stack_step ::
  "allocator \<Rightarrow> ((ptr \<Rightarrow> ptr \<Rightarrow> int) \<Rightarrow> ptr list \<Rightarrow> ptr list) \<Rightarrow> cmp_env \<Rightarrow> (ptr \<Rightarrow> 's \<Rightarrow> ptr \<times> 's) \<Rightarrow> (ptr \<Rightarrow> 's \<Rightarrow> 's) \<Rightarrow>
   stack_st \<times> nat \<Rightarrow> stack_st \<times> nat \<Rightarrow> bool"
  for m qsort call copy_func free_func where
  insert: "sk_insert m k (Some s) p w = (ret, Some s', k') \<Longrightarrow> stack_step m qsort call copy_func free_func (s, k) (s', k')"
| push: "sk_push m k s p = (ret, Some s', k') \<Longrightarrow> stack_step m qsort call copy_func free_func (s, k) (s', k')"
| delete: "sk_delete (Some s) w = (r, Some s') \<Longrightarrow> stack_step m qsort call copy_func free_func (s, k) (s', k)"
| delete_ptr: "sk_delete_ptr (Some s) p = (r, Some s') \<Longrightarrow> stack_step m qsort call copy_func free_func (s, k) (s', k)"
| pop: "sk_pop (Some s) = (r, Some s') \<Longrightarrow> stack_step m qsort call copy_func free_func (s, k) (s', k)"
| shift: "sk_shift (Some s) = (r, Some s') \<Longrightarrow> stack_step m qsort call copy_func free_func (s, k) (s', k)"
| zero: "sk_zero (Some s) = Some s' \<Longrightarrow> stack_step m qsort call copy_func free_func (s, k) (s', k)"
| sort: "sk_sort qsort call (Some s) = Some s' \<Longrightarrow> stack_step m qsort call copy_func free_func (s, k) (s', k)"
| set_cmp_func: "sk_set_cmp_func s c = (old, s') \<Longrightarrow> stack_step m qsort call copy_func free_func (s, k) (s', k)"
| dup: "sk_dup m k (Some s) = (Some s', k') \<Longrightarrow> stack_step m qsort call copy_func free_func (s, k) (s', k')"
| deep_copy: "sk_deep_copy m k copy_func free_func (Some s) w = (Some s', w', k') \<Longrightarrow>
    stack_step m qsort call copy_func free_func (s, k) (s', k')"

definition stack_reachable ::
  "allocator \<Rightarrow> ((ptr \<Rightarrow> ptr \<Rightarrow> int) \<Rightarrow> ptr list \<Rightarrow> ptr list) \<Rightarrow> cmp_env \<Rightarrow> (ptr \<Rightarrow> 's \<Rightarrow> ptr \<times> 's) \<Rightarrow> (ptr \<Rightarrow> 's \<Rightarrow> 's) \<Rightarrow>
   stack_st \<times> nat \<Rightarrow> bool" where
  "stack_reachable m qsort call copy_func free_func st \<longleftrightarrow>
     (\<exists>c k s0 k0. sk_new m k c = (Some s0, k0) \<and> (stack_step m qsort call copy_func free_func)\<^sup>*\<^sup>* (s0, k0) st)"

text \<open>Two pointers that every comparison function treats alike, and a copy function whose copies are like the originals.\<close>

definition alike :: "cmp_env \<Rightarrow> ptr \<Rightarrow> ptr \<Rightarrow> bool" where
  "alike call p q \<longleftrightarrow> (\<forall>c x. c \<noteq> NULL \<longrightarrow> call c q x = call c p x \<and> call c x q = call c x p)"

definition copies_alike :: "cmp_env \<Rightarrow> (ptr \<Rightarrow> 's \<Rightarrow> ptr \<times> 's) \<Rightarrow> bool" where
  "copies_alike call copy_func \<longleftrightarrow> (\<forall>p w. p \<noteq> NULL \<and> fst (copy_func p w) \<noteq> NULL \<longrightarrow> alike call p (fst (copy_func p w)))"

lemma copy_each_alike:
  assumes "copies_alike call copy_func"
  shows "copy_each copy_func free_func old ps w = (Some cells, w') \<Longrightarrow> \<exists>qs. cells = old @ qs \<and> list_all2 (alike call) ps qs"
proof (induction ps arbitrary: old w)
  case (Cons p ps)
  obtain q w1 where q: "copy_func p w = (q, w1)" by fastforce
  define r where "r = (if p = NULL then p else q)"
  have rest: "copy_each copy_func free_func (old @ [r]) ps (if p = NULL then w else w1) = (Some cells, w')"
    using Cons.prems q by (auto simp: r_def split: if_splits)
  have "alike call p r"
  proof (cases "p = NULL")
    case False
    then have "q \<noteq> NULL" using Cons.prems q by (auto split: if_splits)
    then have "alike call p (fst (copy_func p w))" using assms False q unfolding copies_alike_def by (metis fst_conv)
    then show ?thesis using False q by (simp add: r_def)
  qed (simp add: r_def alike_def)
  moreover obtain qs where "cells = (old @ [r]) @ qs" "list_all2 (alike call) ps qs" using Cons.IH [OF rest] by blast
  ultimately show ?case by (intro exI [of _ "r # qs"]) simp
qed simp

lemma sorted_alike:
  assumes "list_all2 (alike call) ps qs" "c \<noteq> NULL" "sorted_wrt (\<lambda>x y. call c x y \<le> 0) ps"
  shows "sorted_wrt (\<lambda>x y. call c x y \<le> 0) qs"
proof -
  have "call c (qs ! i) (qs ! j) = call c (ps ! i) (ps ! j)" if "i < length ps" "j < length ps" for i j
    using assms(1,2) that by (auto simp: list_all2_conv_all_nth alike_def)
  then show ?thesis using assms(3) list_all2_lengthD [OF assms(1)] by (auto simp: sorted_wrt_iff_nth_less)
qed

lemma inv_unsorted: "sk_ok s \<Longrightarrow> \<not> st_sorted s \<Longrightarrow> sk_inv call s"
  by (simp add: sk_inv_def)

lemma sorted_wrt_delete: "sorted_wrt P xs \<Longrightarrow> sorted_wrt P (take w xs @ drop (Suc w) xs)"
proof -
  assume "sorted_wrt P xs"
  then have "sorted_wrt P (take w xs @ drop w xs)" by simp
  then have "sorted_wrt P (take w xs @ take 1 (drop w xs) @ drop 1 (drop w xs))" by (simp only: append_take_drop_id)
  then show ?thesis by (auto simp: sorted_wrt_append)
qed

lemma inv_delete:
  assumes inv: "sk_inv call s" and del: "sk_delete (Some s) w = (r, Some s')"
  shows "sk_inv call s'"
proof (cases "w < st_num s")
  case True
  then show ?thesis using sk_delete_ok [OF _ True] inv del sorted_wrt_delete [of _ "sk_elems s" w] by (auto simp: sk_inv_def)
qed (use inv del in \<open>auto simp: sk_delete_def\<close>)

lemma inv_insert:
  assumes "sk_inv call s" "sk_insert m k (Some s) p w = (ret, Some s', k')"
  shows "sk_inv call s'"
  using sk_insert_ok [OF _ assms(2)] assms(1) by (auto simp: sk_inv_def)

lemma inv_sort:
  assumes inv: "sk_inv call s" and sort: "sk_sort qsort call (Some s) = Some s'"
    and q: "qsort_spec qsort" and c: "\<And>c. c \<noteq> NULL \<Longrightarrow> comparison (call c)"
  shows "sk_inv call s' \<and> mset (sk_elems s') = mset (sk_elems s) \<and> (st_comp s \<noteq> NULL \<longrightarrow> st_sorted s')"
proof (cases "st_comp s = NULL \<or> st_sorted s")
  case True
  then show ?thesis using inv sort by (auto simp: sk_sort_def)
next
  case False
  then have cmp: "comparison (call (st_comp s))" by (simp add: c)
  have len: "length (sk_elems s) = st_num s" "length (st_data s) = st_num_alloc s" "st_num s < st_num_alloc s"
    using inv length_sk_elems by (auto simp: sk_inv_def sk_ok_def)
  show ?thesis
  proof (cases "st_num s \<ge> 2")
    case True
    have "sk_elems s' = qsort (call (st_comp s)) (sk_elems s)" "sk_ok s'" "st_sorted s'" "st_comp s' = st_comp s"
      using sort False True inv len qsort_specD(3) [OF q cmp, of "sk_elems s"]
      by (auto simp: sk_sort_def sk_elems_def [symmetric] mem_write_def sk_inv_def sk_ok_def) (simp add: sk_elems_def)
    then show ?thesis using qsort_specD [OF q cmp] False by (simp add: sk_inv_def)
  next
    case small: False
    then have "sorted_wrt P (sk_elems s)" for P using len by (cases "sk_elems s" rule: remdups_adj.cases) auto
    then show ?thesis using sort False small inv by (auto simp: sk_sort_def sk_inv_def sk_ok_def sk_elems_def)
  qed
qed

lemma sk_dup_ok:
  assumes ok: "sk_ok s" and dup: "sk_dup m k (Some s) = (Some s', k')"
  shows "sk_ok s' \<and> sk_elems s' = sk_elems s \<and> st_sorted s' = st_sorted s \<and> st_comp s' = st_comp s"
proof -
  obtain data where d: "OPENSSL_malloc m (k + 1) (8 * st_num_alloc s mod size_mod) = Some data"
    "s' = \<lparr>st_num = st_num s, st_data = mem_write 0 (take (st_num s) (st_data s)) (ptrs_of_bytes data),
        st_sorted = st_sorted s, st_num_alloc = st_num_alloc s, st_comp = st_comp s\<rparr>"
    using dup by (auto simp: sk_dup_def split: option.splits)
  have "8 * st_num_alloc s mod size_mod = 8 * st_num_alloc s" using ok by (simp add: sk_ok_def)
  then have "length (ptrs_of_bytes data) = st_num_alloc s" using OPENSSL_malloc_length [OF d(1)] by simp
  then show ?thesis using ok unfolding d(2) by (auto simp: sk_ok_def sk_elems_def mem_write_def)
qed

lemma inv_dup: "sk_inv call s \<Longrightarrow> sk_dup m k (Some s) = (Some s', k') \<Longrightarrow> sk_inv call s'"
  using sk_dup_ok [of s m k s' k'] by (auto simp: sk_inv_def)

lemma inv_deep_copy:
  assumes "copies_alike call copy_func" "sk_inv call s" "sk_deep_copy m k copy_func free_func (Some s) w = (Some s', w', k')"
  shows "sk_inv call s'"
proof -
  obtain d cells where d: "sk_dup m k (Some s) = (Some d, k')" "copy_each copy_func free_func [] (sk_elems d) w = (Some cells, w')"
      "s' = d\<lparr>st_data := mem_write 0 cells (st_data d)\<rparr>"
    using assms(3) by (auto simp: sk_deep_copy_def sk_elems_def split: option.splits prod.splits)
  have inv: "sk_inv call d" using inv_dup [OF assms(2) d(1)] .
  then have ok: "sk_ok d" by (simp add: sk_inv_def)
  have like: "list_all2 (alike call) (sk_elems d) cells" using copy_each_alike [OF assms(1) d(2)] by auto
  then have len: "length cells = st_num d" using length_sk_elems [OF ok] by (simp add: list_all2_lengthD)
  have "sk_ok s'" "sk_elems s' = cells" using ok len unfolding d(3) by (auto simp: sk_ok_def sk_elems_def mem_write_def)
  then show ?thesis using inv sorted_alike [OF like] unfolding d(3) by (auto simp: sk_inv_def)
qed

lemma inv_step:
  assumes "stack_step m qsort call copy_func free_func st st'" "sk_inv call (fst st)"
    and "qsort_spec qsort" "\<And>c. c \<noteq> NULL \<Longrightarrow> comparison (call c)" "copies_alike call copy_func"
  shows "sk_inv call (fst st')"
  using assms
proof (induction rule: stack_step.induct)
  case (zero s s' k)
  then show ?case by (auto simp: sk_zero_def sk_inv_def sk_ok_def mem_write_def split: if_splits)
next
  case (set_cmp_func s c old s' k)
  then show ?case by (auto simp: sk_set_cmp_func_def sk_inv_def sk_ok_def sk_elems_def split: if_splits)
qed (auto simp: sk_push_def sk_delete_ptr_def sk_pop_def sk_shift_def split: option.splits if_splits
    dest: inv_insert inv_delete inv_sort inv_dup inv_deep_copy)

lemma inv_reachable:
  assumes "stack_reachable m qsort call copy_func free_func st"
    and "qsort_spec qsort" "\<And>c. c \<noteq> NULL \<Longrightarrow> comparison (call c)" "copies_alike call copy_func"
  shows "sk_inv call (fst st)"
proof -
  obtain c k s0 k0 where new: "sk_new m k c = (Some s0, k0)" and steps: "(stack_step m qsort call copy_func free_func)\<^sup>*\<^sup>* (s0, k0) st"
    using assms(1) by (auto simp: stack_reachable_def)
  show ?thesis using steps
  proof (induction rule: rtranclp_induct)
    case base
    then show ?case using sk_new_ok [OF new] by (simp add: inv_unsorted)
  next
    case (step y z)
    then show ?case using inv_step assms(2-4) by blast
  qed
qed

lemma sk_grow_generous:
  assumes "sk_ok s" "\<forall>k n. m k n \<noteq> None" "st_num_alloc s < 2 ^ 59"
  shows "fst (sk_grow m k s) \<noteq> None"
proof -
  have "sk_new_alloc (st_num_alloc s) = Some (st_num_alloc s * 2, st_num_alloc s * 2 * 8)"
    using assms(3) by (simp add: sk_new_alloc_def Let_def)
  moreover have "st_num_alloc s * 2 * 8 < 2 ^ 63" using assms(3) by simp
  ultimately show ?thesis
    using realloc_generous [OF assms(2), of "st_num_alloc s * 2 * 8" k "Some (bytes_of_ptrs (st_data s))"]
    by (auto simp: sk_grow_def split: option.splits)
qed

subsection \<open>Properties\<close>

text \<open>
  C15: the \<open>sorted\<close> flag of a stack tells the truth. In every state reached from \<open>sk_new\<close> by
  any sequence of insertions, deletions, sorting, copies, deep copies and changes of the comparison
  function, whether or not allocations fail, the number of elements is below the capacity,
  the array has exactly that capacity, its size in bytes does not overflow, and a stack whose
  flag is set is sorted by its comparison function. \<open>qsort\<close> is any function that
  meets its contract, the comparison functions are consistent, and the copy function given to \<open>sk_deep_copy\<close>
  makes copies that compare like their originals.
\<close>

theorem stack_invariant:
  assumes "stack_reachable m qsort call copy_func free_func st"
    and "qsort_spec qsort" "\<forall>c. c \<noteq> NULL \<longrightarrow> comparison (call c)" "copies_alike call copy_func"
  shows "sk_inv call (fst st)"
  using inv_reachable assms by blast

definition ptr_cmp :: cmp_env where
  "ptr_cmp c p q = int (unat p) - int (unat q)"

lemma comparison_ptr_cmp: "comparison (ptr_cmp c)"
  by unfold_locales (simp_all add: ptr_cmp_def del: of_nat_unat)

definition new_stack :: "stack_cmp_func \<Rightarrow> stack_st" where
  "new_stack c = \<lparr>st_num = 0, st_data = replicate 4 NULL, st_sorted = False, st_num_alloc = 4, st_comp = c\<rparr>"

lemma new_stack_eq: "sk_new zero_alloc 0 c = (Some (new_stack c), 2)"
  by (simp add: sk_new_def OPENSSL_malloc_def zero_alloc_def sizeof_STACK_def kMinSize_def OPENSSL_MALLOC_PREFIX_def new_stack_def)

lemma new_stack_ok: "sk_ok (new_stack c)" "sk_elems (new_stack c) = []" "st_num (new_stack c) = 0" "st_num_alloc (new_stack c) = 4"
  by (simp_all add: new_stack_def sk_ok_def sk_elems_def)

text \<open>Pointers compared by the low byte, copied to the address range above it: sorted, then deeply copied.\<close>

definition low_cmp :: cmp_env where
  "low_cmp c p q = int (unat p mod 256) - int (unat q mod 256)"

lemma comparison_low_cmp: "comparison (low_cmp c)"
  by unfold_locales (simp_all add: low_cmp_def del: of_nat_unat)

definition high_copy :: "ptr \<Rightarrow> unit \<Rightarrow> ptr \<times> unit" where
  "high_copy p w = (word_of_nat (256 + unat p mod 256), w)"

lemma copies_alike_high: "copies_alike low_cmp high_copy"
proof -
  have "unat (word_of_nat (256 + unat p mod 256) :: ptr) mod 256 = unat p mod 256" for p :: ptr
  proof -
    have "256 + unat p mod 256 < 2 ^ 64" using mod_less_divisor [of 256 "unat p"] by simp
    then have "unat (word_of_nat (256 + unat p mod 256) :: ptr) = 256 + unat p mod 256" by (simp add: unsigned_of_nat take_bit_nat_eq_self_iff del: of_nat_add)
    then show ?thesis by simp
  qed
  then show ?thesis by (simp add: copies_alike_def alike_def high_copy_def low_cmp_def)
qed

theorem stack_invariant_witness:
  "\<exists>s'. sk_deep_copy zero_alloc 2 high_copy (\<lambda>p w. w) (sk_sort insertion_sort low_cmp (Some (new_stack 5))) () = (Some s', (), 4) \<and> sk_inv low_cmp s'"
proof -
  let ?s = "the (sk_sort insertion_sort low_cmp (Some (new_stack 5)))"
  have sort: "sk_sort insertion_sort low_cmp (Some (new_stack 5)) = Some ?s" by (simp add: sk_sort_def)
  obtain s' where copy: "sk_deep_copy zero_alloc 2 high_copy (\<lambda>p w. w) (Some ?s) () = (Some s', (), 4)"
    by (simp add: sk_deep_copy_def sk_dup_def sk_sort_def new_stack_def OPENSSL_malloc_def zero_alloc_def OPENSSL_MALLOC_PREFIX_def sizeof_STACK_def)
  have "stack_reachable zero_alloc insertion_sort low_cmp high_copy (\<lambda>p w. w) (s', 4)"
    unfolding stack_reachable_def using new_stack_eq stack_step.sort [OF sort] stack_step.deep_copy [OF copy]
    by (meson converse_rtranclp_into_rtranclp rtranclp.rtrancl_refl)
  then have "sk_inv low_cmp (fst (s', 4 :: nat))"
    by (rule stack_invariant) (simp_all add: qsort_spec_insertion comparison_low_cmp copies_alike_high)
  then show ?thesis using copy sort by auto
qed

text \<open>
  C16: \<open>sk_insert\<close> refines insertion into a list. It either fails with return value 0 and the
  stack unchanged, or returns the new length and the elements are the old ones with the
  pointer inserted at the index (at the end when the index is beyond it), all other elements
  in order, the sorted flag cleared and the comparison function kept. It does not fail when
  the allocator does not and the capacity is below \<open>2\<^sup>5\<^sup>9\<close>.
\<close>

theorem sk_insert_refines:
  assumes "sk_ok s" "sk_insert m k (Some s) p w = (ret, sk', k')"
  shows "(ret = 0 \<and> sk' = Some s \<or>
      ret = length (sk_elems s) + 1 \<and> (\<exists>s'. sk' = Some s' \<and> sk_ok s' \<and>
        sk_elems s' = take w (sk_elems s) @ p # drop w (sk_elems s) \<and> \<not> st_sorted s' \<and> st_comp s' = st_comp s)) \<and>
    ((\<forall>k n. m k n \<noteq> None) \<and> st_num_alloc s < 2 ^ 59 \<longrightarrow> ret \<noteq> 0)"
  using sk_insert_ok [OF assms] length_sk_elems [OF assms(1)] sk_grow_generous [OF assms(1), of m k] assms(2)
  by (auto simp: sk_insert_def split: prod.splits option.splits)

theorem sk_insert_refines_witness:
  "\<exists>s' k'. sk_insert zero_alloc 2 (Some (new_stack 0)) 77 9 = (1, Some s', k') \<and> sk_elems s' = [77]"
proof -
  obtain ret sk' k' where i: "sk_insert zero_alloc 2 (Some (new_stack 0)) 77 9 = (ret, sk', k')" by (metis prod_cases3)
  show ?thesis
    using sk_insert_refines [OF new_stack_ok(1) i] zero_alloc_ok i by (auto simp: new_stack_ok)
qed

lemma find_from_first:
  "find_from f xs 0 = Some i \<longleftrightarrow> i < length xs \<and> f (xs ! i) \<and> (\<forall>j < i. \<not> f (xs ! j))"
  unfolding find_from_eq find_Some_iff
  by (auto simp: nth_append)

lemma remove1_first:
  "i < length xs \<Longrightarrow> xs ! i = p \<Longrightarrow> (\<And>j. j < i \<Longrightarrow> xs ! j \<noteq> p) \<Longrightarrow> remove1 p xs = take i xs @ drop (Suc i) xs"
proof (induction xs arbitrary: i)
  case (Cons x xs)
  show ?case
  proof (cases i)
    case (Suc j)
    have "xs ! j' \<noteq> p" if "j' < j" for j' using Cons(4) [of "Suc j'"] that Suc by simp
    then show ?thesis using Cons Suc Cons(4) [of 0] by auto
  qed (use Cons in simp)
qed simp

text \<open>
  \<open>sk_delete_ptr\<close> removes the first occurrence of the pointer: it returns the pointer and
  leaves the other elements in order, or returns \<open>NULL\<close> and changes nothing when the pointer
  is not on the stack. The sorted flag survives, and so does the order it stands for.
\<close>

theorem sk_delete_ptr_refines:
  assumes "sk_ok s"
  shows "\<exists>s'. sk_delete_ptr (Some s) p = (if p \<in> set (sk_elems s) then p else NULL, Some s') \<and> sk_ok s' \<and>
    sk_elems s' = remove1 p (sk_elems s) \<and> st_sorted s' = st_sorted s \<and> st_comp s' = st_comp s"
proof (cases "find_from (\<lambda>q. q = p) (sk_elems s) 0")
  case None
  then have "p \<notin> set (sk_elems s)" unfolding find_from_eq by (auto simp: find_None_iff in_set_conv_nth)
  then show ?thesis using None assms by (auto simp: sk_delete_ptr_def sk_elems_def [symmetric] remove1_idem)
next
  case (Some i)
  then have i: "i < length (sk_elems s)" "sk_elems s ! i = p" "\<And>j. j < i \<Longrightarrow> sk_elems s ! j \<noteq> p"
    unfolding find_from_first by blast+
  then have "p \<in> set (sk_elems s)" by (auto simp: in_set_conv_nth)
  then show ?thesis
    using sk_delete_ok [OF assms, of i] remove1_first [OF i] i length_sk_elems [OF assms] Some
    by (auto simp: sk_delete_ptr_def sk_elems_def [symmetric])
qed

definition stack_78 :: stack_st where
  "stack_78 = \<lparr>st_num = 3, st_data = [7, 8, 7, 0], st_sorted = False, st_num_alloc = 4, st_comp = 0\<rparr>"

lemma stack_78: "sk_ok stack_78" "sk_elems stack_78 = [7, 8, 7]"
  by (simp_all add: stack_78_def sk_ok_def sk_elems_def)

theorem sk_delete_ptr_refines_witness:
  "\<exists>s'. sk_delete_ptr (Some stack_78) 7 = (7, Some s') \<and> sk_elems s' = [8, 7]"
  using sk_delete_ptr_refines [OF stack_78(1), of 7] by (auto simp: stack_78(2))

lemma bsearch_cong: "(\<And>j. j < hi \<Longrightarrow> f j = g j) \<Longrightarrow> bsearch f lo hi = bsearch g lo hi"
proof (induction f lo hi rule: bsearch.induct)
  case (1 f lo hi)
  show ?case
  proof (cases "lo < hi")
    case True
    define mid where "mid = lo + (hi - lo - 1) div 2"
    have mid: "mid < hi" using True unfolding mid_def by linarith
    have step: "bsearch h lo hi = (if h mid > 0 then bsearch h (mid + 1) hi else if h mid < 0 then bsearch h lo mid
        else if hi - lo = 1 then Some mid else bsearch h lo (mid + 1))" for h
      using True by (subst bsearch.simps) (simp add: Let_def mid_def)
    have less: "f j = g j" if "j < mid + 1" for j using 1 (4) mid that by simp
    have "f mid = g mid" by (rule less) simp
    moreover have "f mid > 0 \<Longrightarrow> bsearch f (mid + 1) hi = bsearch g (mid + 1) hi"
      by (rule 1 (1) [OF True mid_def refl _ 1 (4)])
    moreover have "f mid < 0 \<Longrightarrow> bsearch f lo mid = bsearch g lo mid"
      using 1 (2) [OF True mid_def refl] less by simp
    moreover have "\<not> f mid > 0 \<Longrightarrow> \<not> f mid < 0 \<Longrightarrow> hi - lo \<noteq> 1 \<Longrightarrow> bsearch f lo (mid + 1) = bsearch g lo (mid + 1)"
      using 1 (3) [OF True mid_def refl] less by blast
    ultimately show ?thesis unfolding step by simp
  qed (simp add: bsearch.simps)
qed

definition sk_matches :: "cmp_env \<Rightarrow> stack_st \<Rightarrow> ptr \<Rightarrow> ptr \<Rightarrow> bool" where
  "sk_matches call s p q \<longleftrightarrow> (if st_comp s = NULL then q = p else p \<noteq> NULL \<and> call (st_comp s) p q = 0)"

text \<open>
  C17: \<open>sk_find\<close> returns the first match. On any stack that keeps the invariant, sorted or
  not, with or without a comparison function, it returns the smallest index whose element
  matches (by the comparison function if there is one, else by pointer equality) and fails
  exactly when there is none; in particular the binary search of a sorted stack finds
  the same element as a linear search.
\<close>

theorem sk_find_first:
  assumes "sk_inv call s" "st_comp s \<noteq> NULL \<longrightarrow> comparison (call (st_comp s))"
  shows "sk_find call (Some s) p = Some i \<longleftrightarrow>
    i < length (sk_elems s) \<and> sk_matches call s p (sk_elems s ! i) \<and> (\<forall>j < i. \<not> sk_matches call s p (sk_elems s ! j))"
proof -
  have len: "length (sk_elems s) = st_num s" using assms(1) length_sk_elems by (simp add: sk_inv_def)
  consider "st_comp s = NULL" | "st_comp s \<noteq> NULL" "p = NULL" | "st_comp s \<noteq> NULL" "p \<noteq> NULL" "\<not> st_sorted s"
    | "st_comp s \<noteq> NULL" "p \<noteq> NULL" "st_sorted s" by blast
  then show ?thesis
  proof cases
    case 4
    have nth: "st_data s ! j = sk_elems s ! j" if "j < st_num s" for j using that by (simp add: sk_elems_def)
    have "sk_find call (Some s) p = bsearch (\<lambda>j. call (st_comp s) p (sk_elems s ! j)) 0 (st_num s)"
      using 4 bsearch_cong [of "st_num s" "\<lambda>j. call (st_comp s) p (st_data s ! j)" "\<lambda>j. call (st_comp s) p (sk_elems s ! j)" 0] nth
      by (simp add: sk_find_def sk_is_sorted_def)
    also have "\<dots> = find (\<lambda>j. call (st_comp s) p (sk_elems s ! j) = 0) [0..<st_num s]"
      using comparison.bsearch_first [of "call (st_comp s)" "sk_elems s"] assms 4 len by (simp add: sk_inv_def)
    finally show ?thesis using 4 len by (auto simp: find_Some_iff sk_matches_def nth_append)
  qed (auto simp: sk_find_def sk_is_sorted_def sk_elems_def [symmetric] sk_matches_def find_from_first)
qed

definition sorted_stack :: stack_st where
  "sorted_stack = \<lparr>st_num = 3, st_data = [2, 5, 7, 0], st_sorted = True, st_num_alloc = 4, st_comp = 1\<rparr>"

lemma sorted_stack: "sk_inv ptr_cmp sorted_stack" "sk_elems sorted_stack = [2, 5, 7]" "st_comp sorted_stack = 1"
  by (simp_all add: sorted_stack_def sk_inv_def sk_ok_def sk_elems_def ptr_cmp_def)

theorem sk_find_first_witness:
  "sk_find ptr_cmp (Some sorted_stack) 5 = Some 1"
  using sk_find_first [OF sorted_stack(1), of 5 1] comparison_ptr_cmp
  by (simp add: sorted_stack(2,3) sk_matches_def ptr_cmp_def)

text \<open>
  a stack serves as a queue and as a stack. Starting from an empty stack, if pushing the
  pointers one after the other succeeds, taking them off with \<open>sk_shift\<close> yields them in
  the order of insertion, and with \<open>sk_pop\<close> in the reverse order.
\<close>

theorem sk_fifo_lifo:
  assumes "sk_ok s" "sk_elems s = []" "push_all (stack_push m) (s, k) ps = Some st"
  shows "take_many (stack_take sk_shift) (length ps) st = ps \<and> take_many (stack_take sk_pop) (length ps) st = rev ps"
  using sk_seq.first_in_first_out [of "(s, k)" m ps st] sk_seq.last_in_first_out [of "(s, k)" m ps st] assms by simp

theorem sk_fifo_lifo_witness:
  "case push_all (stack_push zero_alloc) (new_stack 0, 2) [7, 8] of
     None \<Rightarrow> False
   | Some st \<Rightarrow> take_many (stack_take sk_shift) (length [7, 8 :: ptr]) st = [7, 8]"
proof -
  have "\<exists>st. push_all (stack_push zero_alloc) (new_stack 0, 2) [7, 8] = Some st"
    by (simp add: stack_push_def sk_push_def sk_insert_def sk_grow_def new_stack_def)
  then show ?thesis using sk_fifo_lifo [OF new_stack_ok(1,2), where ps = "[7, 8]"] by auto
qed

subsection \<open>Deep copies\<close>

text \<open>
  The objects alive in the caller: a copy function that may fail, by any rule \<open>c\<close>, adds the
  object it returns, the free function removes one.
\<close>

definition copy_into :: "(ptr \<Rightarrow> ptr multiset \<Rightarrow> ptr) \<Rightarrow> ptr \<Rightarrow> ptr multiset \<Rightarrow> ptr \<times> ptr multiset" where
  "copy_into c p live = (let q = c p live in (q, if q = NULL then live else add_mset q live))"

definition free_from :: "ptr \<Rightarrow> ptr multiset \<Rightarrow> ptr multiset" where
  "free_from p live = live - {#p#}"

abbreviation nonnull :: "ptr list \<Rightarrow> ptr multiset" where
  "nonnull ps \<equiv> filter_mset (\<lambda>p. p \<noteq> NULL) (mset ps)"

lemma free_each_eq: "free_each free_from ps live = live - nonnull ps"
  by (induction ps arbitrary: live) (auto simp: free_from_def)

lemma copy_each_eq:
  "case copy_each (copy_into c) free_from old ps (live + nonnull old) of
     (None, live') \<Rightarrow> live' = live
   | (Some cells, live') \<Rightarrow>
       live' = live + nonnull cells \<and> length cells = length old + length ps \<and>
       (\<forall>i < length ps. cells ! (length old + i) = NULL \<longleftrightarrow> ps ! i = NULL) \<and> take (length old) cells = old"
proof (induction ps arbitrary: old)
  case (Cons p ps)
  define q where "q = (if p = NULL then NULL else c p (live + nonnull old))"
  show ?case
  proof (cases "p \<noteq> NULL \<and> q = NULL")
    case True
    then have "c p (live + nonnull old) = NULL" "p \<noteq> NULL" by (auto simp: q_def)
    then show ?thesis by (simp add: copy_into_def free_each_eq)
  next
    case False
    then have step: "copy_each (copy_into c) free_from old (p # ps) (live + nonnull old) =
        copy_each (copy_into c) free_from (old @ [q]) ps (live + nonnull (old @ [q]))"
      by (auto simp: q_def copy_into_def Let_def)
    have zero: "q = NULL \<longleftrightarrow> p = NULL" using False by (auto simp: q_def)
    have split: "(\<forall>i < length (p # ps). P i) \<longleftrightarrow> P 0 \<and> (\<forall>i < length ps. P (Suc i))" for P
      by (auto simp: less_Suc_eq_0_disj)
    have at: "cells ! length old = q \<and> take (length old) cells = old"
      if "take (Suc (length old)) cells = old @ [q]" "length cells = length old + Suc (length ps)" for cells
    proof -
      have "take (length old) cells = take (length old) (take (Suc (length old)) cells)" by simp
      moreover have "cells ! length old = take (Suc (length old)) cells ! length old" by simp
      ultimately show ?thesis unfolding that(1) by simp
    qed
    show ?thesis using Cons [of "old @ [q]"] at zero unfolding step split by (auto split: option.splits)
  qed
qed simp

text \<open>
  C18: \<open>sk_deep_copy\<close> neither leaks nor shares. When it fails, for want of memory or because
  the copy function failed part way, every object it had copied is freed again and the
  objects alive in the caller are what they were; when it succeeds, the new stack has the
  length, flag and comparison function of the old one, \<open>NULL\<close> exactly where the old one has it,
  and the objects alive are the old ones plus those on the new stack.
\<close>

theorem sk_deep_copy_no_leak:
  assumes "sk_ok s" "sk_deep_copy m k (copy_into c) free_from (Some s) live = (sk', live', k')"
  shows "(case sk' of
      None \<Rightarrow> live' = live
    | Some s' \<Rightarrow> sk_ok s' \<and> live' = live + nonnull (sk_elems s') \<and> st_sorted s' = st_sorted s \<and> st_comp s' = st_comp s \<and>
        length (sk_elems s') = length (sk_elems s) \<and>
        (\<forall>i < length (sk_elems s). sk_elems s' ! i = NULL \<longleftrightarrow> sk_elems s ! i = NULL))"
proof (cases "sk_dup m k (Some s)")
  case (Pair d k1)
  show ?thesis
  proof (cases d)
    case None
    then show ?thesis using assms(2) Pair by (simp add: sk_deep_copy_def)
  next
    case (Some ret)
    have dup: "sk_ok ret" "sk_elems ret = sk_elems s" "st_sorted ret = st_sorted s" "st_comp ret = st_comp s"
      using sk_dup_ok [of s m k ret k1] Pair Some assms(1) by auto
    have data: "sk_ok (ret\<lparr>st_data := mem_write 0 cells (st_data ret)\<rparr>)" "sk_elems (ret\<lparr>st_data := mem_write 0 cells (st_data ret)\<rparr>) = cells"
      if "length cells = st_num ret" for cells
      using dup(1) that by (auto simp: sk_ok_def sk_elems_def mem_write_def)
    show ?thesis
      using data copy_each_eq [where old = "[]" and ps = "sk_elems s" and live = live and c = c] assms(2) Pair Some dup length_sk_elems [OF dup(1)]
      by (auto simp: sk_deep_copy_def sk_elems_def [symmetric] split: option.splits prod.splits)
  qed
qed

theorem sk_deep_copy_no_leak_witness:
  "case sk_deep_copy zero_alloc 2 (copy_into (\<lambda>p _. p + 100)) free_from (Some stack_78) {#7, 8#} of
     (sk', live', _) \<Rightarrow> (case sk' of None \<Rightarrow> live' = {#7, 8#} | Some s' \<Rightarrow> live' = {#7, 8#} + nonnull (sk_elems s'))"
proof -
  obtain sk' live' k' where r: "sk_deep_copy zero_alloc 2 (copy_into (\<lambda>p _. p + 100)) free_from (Some stack_78) {#7, 8#} = (sk', live', k')"
    by (metis prod_cases3)
  show ?thesis using sk_deep_copy_no_leak [OF stack_78(1) r] unfolding r by (auto split: option.splits)
qed

text \<open>
  \<open>sk_set\<close> does not keep the invariant. \<open>openssl/stack.h\<close> says of \<open>sorted\<close> that it is
  non-zero if the values are in ascending order; \<open>sk_set\<close> stores into a sorted stack without
  clearing it, and the binary search that \<open>sk_find\<close> then runs misses an element that is there.
\<close>

theorem sk_set_breaks_sorted:
  "\<exists>s'. sk_inv ptr_cmp sorted_stack \<and> sk_set (Some sorted_stack) 0 9 = (9, Some s') \<and>
    \<not> sk_inv ptr_cmp s' \<and> 9 \<in> set (sk_elems s') \<and> sk_find ptr_cmp (Some s') 9 = None"
proof -
  let ?s = "sorted_stack\<lparr>st_data := [9, 5, 7, 0]\<rparr>"
  have "sk_set (Some sorted_stack) 0 9 = (9, Some ?s)" by (simp add: sk_set_def sorted_stack_def)
  moreover have "\<not> sk_inv ptr_cmp ?s" "9 \<in> set (sk_elems ?s)"
    by (simp_all add: sorted_stack_def sk_inv_def sk_elems_def ptr_cmp_def)
  moreover have "sk_find ptr_cmp (Some ?s) 9 = None"
    by (simp add: sorted_stack_def sk_find_def sk_is_sorted_def ptr_cmp_def bsearch.simps)
  ultimately show ?thesis using sorted_stack(1) by blast
qed

end
