(* ===== verification/Lhash.thy ===== *)
theory Lhash
  imports Stack
begin

text \<open>
  The chained hash table of \<open>crypto/lhash/lhash.c\<close>. An item belongs to exactly one chain, so
  a chain, linked by \<open>next\<close> in the source, is the list of its items; the address of an item
  is the number of the allocator call that created it. A pointer to a link, as returned by
  \<open>get_next_ptr_and_hash\<close>, is a bucket and a position in its chain, the length of the chain
  standing for the final \<open>NULL\<close>. Hash and comparison functions are the values of their
  function pointers, called through \<open>call_hash_func\<close> and \<open>call_cmp_func\<close>.

  The callback of \<open>OPENSSL_lh_doall_arg\<close> acts on the table and on a state of the caller, so it
  may insert and delete; the iteration reads the table as the callback left it. It is a
  partial function: \<open>None\<close> is an access to an item that is no longer in its chain, or an
  iteration that does not end.
\<close>

record lhash_item =
  it_data :: ptr
  it_hash :: u32
  it_addr :: nat

record lhash_st =
  lh_num_items :: nat
  lh_buckets :: "lhash_item list list"
  lh_num_buckets :: nat
  lh_callback_depth :: nat
  lh_comp :: u64
  lh_hash :: u64

type_synonym hash_env = "u64 \<Rightarrow> ptr \<Rightarrow> u32"

type_synonym eq_env = "u64 \<Rightarrow> ptr \<Rightarrow> ptr \<Rightarrow> int"

abbreviation UINT_MAX :: nat where "UINT_MAX \<equiv> 2 ^ 32 - 1"

definition kMinNumBuckets :: nat where
  "kMinNumBuckets = 16"

definition kMaxAverageChainLength :: nat where
  "kMaxAverageChainLength = 2"

definition kMinAverageChainLength :: nat where
  "kMinAverageChainLength = 1"

definition sizeof_LHASH :: nat where
  "sizeof_LHASH = 48"

definition sizeof_LHASH_ITEM :: nat where
  "sizeof_LHASH_ITEM = 24"

definition OPENSSL_lh_new :: "allocator \<Rightarrow> nat \<Rightarrow> u64 \<Rightarrow> u64 \<Rightarrow> lhash_st option \<times> nat" where
  "OPENSSL_lh_new m k hash comp_func =
     (case OPENSSL_malloc m k sizeof_LHASH of
        None \<Rightarrow> (None, k + 1)
      | Some _ \<Rightarrow>
          (case OPENSSL_malloc m (k + 1) (8 * kMinNumBuckets) of
             None \<Rightarrow> (None, k + 2)
           | Some _ \<Rightarrow>
               (Some \<lparr>lh_num_items = 0, lh_buckets = replicate kMinNumBuckets [], lh_num_buckets = kMinNumBuckets,
                      lh_callback_depth = 0, lh_comp = comp_func, lh_hash = hash\<rparr>, k + 2)))"

definition OPENSSL_lh_num_items :: "lhash_st \<Rightarrow> nat" where
  "OPENSSL_lh_num_items lh = lh_num_items lh"

subsection \<open>Searching a chain\<close>

fun chain_pos :: "(ptr \<Rightarrow> bool) \<Rightarrow> lhash_item list \<Rightarrow> nat" where
  "chain_pos match [] = 0"
| "chain_pos match (cur # chain) = (if match (it_data cur) then 0 else Suc (chain_pos match chain))"

definition get_next_ptr_and_hash :: "hash_env \<Rightarrow> eq_env \<Rightarrow> lhash_st \<Rightarrow> ptr \<Rightarrow> (nat \<times> nat) \<times> u32" where
  "get_next_ptr_and_hash call_hash_func call_cmp_func lh data =
     (let hash = call_hash_func (lh_hash lh) data;
          b = unat hash mod lh_num_buckets lh
      in ((b, chain_pos (\<lambda>d. call_cmp_func (lh_comp lh) d data = 0) (lh_buckets lh ! b)), hash))"

definition get_next_ptr_by_key :: "lhash_st \<Rightarrow> ptr \<Rightarrow> u32 \<Rightarrow> (ptr \<Rightarrow> ptr \<Rightarrow> int) \<Rightarrow> nat \<times> nat" where
  "get_next_ptr_by_key lh key key_hash cmp_key =
     (let b = unat key_hash mod lh_num_buckets lh
      in (b, chain_pos (\<lambda>d. cmp_key key d = 0) (lh_buckets lh ! b)))"

text \<open>The item a link points to, \<open>None\<close> for \<open>NULL\<close>.\<close>

definition next_item :: "lhash_st \<Rightarrow> nat \<times> nat \<Rightarrow> lhash_item option" where
  "next_item lh next_ptr =
     (let chain = lh_buckets lh ! fst next_ptr
      in if snd next_ptr < length chain then Some (chain ! snd next_ptr) else None)"

definition OPENSSL_lh_retrieve :: "hash_env \<Rightarrow> eq_env \<Rightarrow> lhash_st \<Rightarrow> ptr \<Rightarrow> ptr" where
  "OPENSSL_lh_retrieve call_hash_func call_cmp_func lh data =
     (case next_item lh (fst (get_next_ptr_and_hash call_hash_func call_cmp_func lh data)) of
        None \<Rightarrow> NULL | Some item \<Rightarrow> it_data item)"

definition OPENSSL_lh_retrieve_key :: "lhash_st \<Rightarrow> ptr \<Rightarrow> u32 \<Rightarrow> (ptr \<Rightarrow> ptr \<Rightarrow> int) \<Rightarrow> ptr" where
  "OPENSSL_lh_retrieve_key lh key key_hash cmp_key =
     (case next_item lh (get_next_ptr_by_key lh key key_hash cmp_key) of
        None \<Rightarrow> NULL | Some item \<Rightarrow> it_data item)"

subsection \<open>Resizing\<close>

definition rebucket_item :: "nat \<Rightarrow> lhash_item \<Rightarrow> lhash_item list list \<Rightarrow> lhash_item list list" where
  "rebucket_item new_num_buckets cur new_buckets =
     (let new_bucket = unat (it_hash cur) mod new_num_buckets
      in new_buckets[new_bucket := cur # new_buckets ! new_bucket])"

fun rebucket_chain :: "nat \<Rightarrow> lhash_item list \<Rightarrow> lhash_item list list \<Rightarrow> lhash_item list list" where
  "rebucket_chain n [] new_buckets = new_buckets"
| "rebucket_chain n (cur # chain) new_buckets = rebucket_chain n chain (rebucket_item n cur new_buckets)"

fun rebucket_all :: "nat \<Rightarrow> lhash_item list list \<Rightarrow> lhash_item list list \<Rightarrow> lhash_item list list" where
  "rebucket_all n [] new_buckets = new_buckets"
| "rebucket_all n (chain # buckets) new_buckets = rebucket_all n buckets (rebucket_chain n chain new_buckets)"

definition lh_rebucket :: "allocator \<Rightarrow> nat \<Rightarrow> lhash_st \<Rightarrow> nat \<Rightarrow> lhash_st \<times> nat" where
  "lh_rebucket m k lh new_num_buckets =
     (let alloc_size = (8 * new_num_buckets) mod size_mod
      in if alloc_size div 8 \<noteq> new_num_buckets then (lh, k)
         else (case OPENSSL_malloc m k alloc_size of
                 None \<Rightarrow> (lh, k + 1)
               | Some _ \<Rightarrow>
                   (lh\<lparr>lh_num_buckets := new_num_buckets,
                       lh_buckets := rebucket_all new_num_buckets (take (lh_num_buckets lh) (lh_buckets lh)) (replicate new_num_buckets [])\<rparr>,
                    k + 1)))"

definition lh_maybe_resize :: "allocator \<Rightarrow> nat \<Rightarrow> lhash_st \<Rightarrow> lhash_st \<times> nat" where
  "lh_maybe_resize m k lh =
     (if lh_callback_depth lh > 0 then (lh, k)
      else
        (let avg_chain_length = lh_num_items lh div lh_num_buckets lh
         in if avg_chain_length > kMaxAverageChainLength
            then (let new_num_buckets = (lh_num_buckets lh * 2) mod size_mod
                  in if new_num_buckets > lh_num_buckets lh then lh_rebucket m k lh new_num_buckets else (lh, k))
            else if avg_chain_length < kMinAverageChainLength \<and> lh_num_buckets lh > kMinNumBuckets
            then (let new_num_buckets = lh_num_buckets lh div 2;
                      new_num_buckets = (if new_num_buckets < kMinNumBuckets then kMinNumBuckets else new_num_buckets)
                  in lh_rebucket m k lh new_num_buckets)
            else (lh, k)))"

subsection \<open>Insertion and deletion\<close>

definition set_chain :: "nat \<Rightarrow> (lhash_item list \<Rightarrow> lhash_item list) \<Rightarrow> lhash_st \<Rightarrow> lhash_st" where
  "set_chain b f lh = lh\<lparr>lh_buckets := (lh_buckets lh)[b := f (lh_buckets lh ! b)]\<rparr>"

text \<open>Return value, \<open>*old_data\<close>, the table and the number of allocator calls.\<close>

definition OPENSSL_lh_insert ::
  "allocator \<Rightarrow> nat \<Rightarrow> hash_env \<Rightarrow> eq_env \<Rightarrow> lhash_st \<Rightarrow> ptr \<Rightarrow> bool \<times> ptr \<times> lhash_st \<times> nat" where
  "OPENSSL_lh_insert m k call_hash_func call_cmp_func lh data =
     (case get_next_ptr_and_hash call_hash_func call_cmp_func lh data of
        ((b, i), hash) \<Rightarrow>
          (case next_item lh (b, i) of
             Some item \<Rightarrow>
               (True, it_data item, set_chain b (\<lambda>chain. chain[i := item\<lparr>it_data := data\<rparr>]) lh, k)
           | None \<Rightarrow>
               (case OPENSSL_malloc m k sizeof_LHASH_ITEM of
                  None \<Rightarrow> (False, NULL, lh, k + 1)
                | Some _ \<Rightarrow>
                    (let item = \<lparr>it_data = data, it_hash = hash, it_addr = k\<rparr>;
                         lh1 = set_chain b (\<lambda>chain. take i chain @ [item]) lh;
                         lh2 = lh1\<lparr>lh_num_items := lh_num_items lh1 + 1\<rparr>;
                         (lh3, k3) = lh_maybe_resize m (k + 1) lh2
                     in (True, NULL, lh3, k3)))))"

definition OPENSSL_lh_delete :: "allocator \<Rightarrow> nat \<Rightarrow> hash_env \<Rightarrow> eq_env \<Rightarrow> lhash_st \<Rightarrow> ptr \<Rightarrow> ptr \<times> lhash_st \<times> nat" where
  "OPENSSL_lh_delete m k call_hash_func call_cmp_func lh data =
     (case fst (get_next_ptr_and_hash call_hash_func call_cmp_func lh data) of
        (b, i) \<Rightarrow>
          (case next_item lh (b, i) of
             None \<Rightarrow> (NULL, lh, k)
           | Some item \<Rightarrow>
               (let lh1 = set_chain b (\<lambda>chain. take i chain @ drop (i + 1) chain) lh;
                    lh2 = lh1\<lparr>lh_num_items := lh_num_items lh1 - 1\<rparr>;
                    (lh3, k3) = lh_maybe_resize m k lh2
                in (it_data item, lh3, k3))))"

subsection \<open>Iteration\<close>

definition chain_from :: "nat \<Rightarrow> lhash_item list \<Rightarrow> lhash_item list" where
  "chain_from a chain = dropWhile (\<lambda>it. it_addr it \<noteq> a) chain"

definition chain_head :: "lhash_item list \<Rightarrow> nat option" where
  "chain_head chain = (case chain of [] \<Rightarrow> None | it # _ \<Rightarrow> Some (it_addr it))"

partial_function (option) doall_chain ::
  "(ptr \<Rightarrow> lhash_st \<times> 's \<Rightarrow> lhash_st \<times> 's) \<Rightarrow> nat \<Rightarrow> nat option \<Rightarrow> lhash_st \<times> 's \<Rightarrow> (lhash_st \<times> 's) option" where
  "doall_chain func i cur st =
     (case cur of
        None \<Rightarrow> Some st
      | Some a \<Rightarrow>
          (case chain_from a (lh_buckets (fst st) ! i) of
             [] \<Rightarrow> None
           | it # rest \<Rightarrow> doall_chain func i (chain_head rest) (func (it_data it) st)))"

partial_function (option) doall_buckets ::
  "(ptr \<Rightarrow> lhash_st \<times> 's \<Rightarrow> lhash_st \<times> 's) \<Rightarrow> nat \<Rightarrow> lhash_st \<times> 's \<Rightarrow> (lhash_st \<times> 's) option" where
  "doall_buckets func i st =
     (if i < lh_num_buckets (fst st)
      then Option.bind (doall_chain func i (chain_head (lh_buckets (fst st) ! i)) st) (doall_buckets func (i + 1))
      else Some st)"

definition OPENSSL_lh_doall_arg ::
  "allocator \<Rightarrow> ('s \<Rightarrow> nat) \<Rightarrow> (ptr \<Rightarrow> lhash_st \<times> 's \<Rightarrow> lhash_st \<times> 's) \<Rightarrow> lhash_st \<times> 's \<Rightarrow> (lhash_st \<times> 's \<times> nat) option" where
  "OPENSSL_lh_doall_arg m allocs func st =
     (let lh = fst st;
          lh1 = (if lh_callback_depth lh < UINT_MAX then lh\<lparr>lh_callback_depth := lh_callback_depth lh + 1\<rparr> else lh)
      in case doall_buckets func 0 (lh1, snd st) of
           None \<Rightarrow> None
         | Some (lh2, s) \<Rightarrow>
             (let lh3 = (if lh_callback_depth lh2 < UINT_MAX then lh2\<lparr>lh_callback_depth := lh_callback_depth lh2 - 1\<rparr> else lh2);
                  (lh4, k) = lh_maybe_resize m (allocs s) lh3
              in Some (lh4, s, k)))"

end
