(* ===== verification/Lhash_Properties.thy ===== *)
theory Lhash_Properties
  imports Lhash
begin

text \<open>
  The hash table as a set of elements that are pairwise different by the comparison function:
  retrieval is exact, insertion and deletion change exactly one element, resizing
  changes none, and the iteration visits every element once.
\<close>

subsection \<open>Chains\<close>

lemma chain_pos_le: "chain_pos f chain \<le> length chain"
  by (induction chain) auto

lemma chain_pos_match: "chain_pos f chain < length chain \<Longrightarrow> f (it_data (chain ! chain_pos f chain))"
  by (induction chain) auto

lemma chain_pos_none: "\<not> chain_pos f chain < length chain \<Longrightarrow> it \<in> set chain \<Longrightarrow> \<not> f (it_data it)"
  by (induction chain) (auto split: if_splits)

lemma mset_concat_update:
  "b < length bs \<Longrightarrow> mset (concat (bs[b := c])) = mset (concat bs) - mset (bs ! b) + mset c"
proof -
  assume b: "b < length bs"
  have "mset (concat bs) = mset (concat (take b bs)) + mset (bs ! b) + mset (concat (drop (Suc b) bs))"
    using id_take_nth_drop [OF b] by (metis (no_types, lifting) concat_append concat.simps(2) mset_append union_assoc)
  moreover have "mset (concat (bs[b := c])) = mset (concat (take b bs)) + mset c + mset (concat (drop (Suc b) bs))"
    using b by (simp add: upd_conv_take_nth_drop)
  ultimately show ?thesis by simp
qed

subsection \<open>The invariant\<close>

definition items :: "lhash_st \<Rightarrow> lhash_item multiset" where
  "items lh = mset (concat (lh_buckets lh))"

text \<open>What the hash and comparison functions of a table must satisfy.\<close>

definition functions_ok :: "hash_env \<Rightarrow> eq_env \<Rightarrow> u64 \<Rightarrow> u64 \<Rightarrow> bool" where
  "functions_ok H C h c \<longleftrightarrow>
     (\<forall>x. C c x x = 0) \<and> (\<forall>x y. C c x y = 0 \<longrightarrow> C c y x = 0) \<and>
     (\<forall>x y z. C c x y = 0 \<longrightarrow> C c y z = 0 \<longrightarrow> C c x z = 0) \<and>
     (\<forall>x y. C c x y = 0 \<longrightarrow> H h x = H h y)"

text \<open>An item that carries its hash value and is in the bucket that value selects among \<open>n\<close>.\<close>

definition in_place :: "hash_env \<Rightarrow> u64 \<Rightarrow> nat \<Rightarrow> lhash_item \<Rightarrow> nat \<Rightarrow> bool" where
  "in_place H h n it b \<longleftrightarrow> it_hash it = H h (it_data it) \<and> unat (it_hash it) mod n = b"

definition lh_shape :: "hash_env \<Rightarrow> lhash_st \<Rightarrow> bool" where
  "lh_shape H lh \<longleftrightarrow>
     length (lh_buckets lh) = lh_num_buckets lh \<and> kMinNumBuckets \<le> lh_num_buckets lh \<and> 8 * lh_num_buckets lh < size_mod \<and>
     (\<forall>b < lh_num_buckets lh. \<forall>it \<in> set (lh_buckets lh ! b). in_place H (lh_hash lh) (lh_num_buckets lh) it b)"

definition items_ok :: "eq_env \<Rightarrow> u64 \<Rightarrow> nat \<Rightarrow> lhash_item multiset \<Rightarrow> bool" where
  "items_ok C c k M \<longleftrightarrow>
     (\<forall>it \<in># M. it_addr it < k) \<and>
     (\<forall>it \<in># M. \<forall>it' \<in># M - {#it#}. it_addr it \<noteq> it_addr it' \<and> C c (it_data it) (it_data it') \<noteq> 0)"

definition lh_ok :: "hash_env \<Rightarrow> eq_env \<Rightarrow> lhash_st \<Rightarrow> nat \<Rightarrow> bool" where
  "lh_ok H C lh k \<longleftrightarrow>
     functions_ok H C (lh_hash lh) (lh_comp lh) \<and> lh_shape H lh \<and> lh_num_items lh = size (items lh) \<and>
     items_ok C (lh_comp lh) k (items lh)"

lemma lh_new_ok:
  assumes "OPENSSL_lh_new m k h c = (Some lh, k')" "functions_ok H C h c"
  shows "lh_ok H C lh k' \<and> items lh = {#}"
  using assms by (auto simp: OPENSSL_lh_new_def lh_ok_def lh_shape_def items_def items_ok_def kMinNumBuckets_def split: option.splits)

lemma bucket_lt: "lh_shape H lh \<Longrightarrow> n mod lh_num_buckets lh < length (lh_buckets lh)"
  by (auto simp: lh_shape_def kMinNumBuckets_def)

lemma shape_item:
  "lh_shape H lh \<Longrightarrow> b < length (lh_buckets lh) \<Longrightarrow> it \<in> set (lh_buckets lh ! b) \<Longrightarrow>
    in_place H (lh_hash lh) (lh_num_buckets lh) it b"
  unfolding lh_shape_def by metis

lemma in_items: "it \<in># items lh \<longleftrightarrow> (\<exists>b < length (lh_buckets lh). it \<in> set (lh_buckets lh ! b))"
  by (auto simp: items_def) (metis in_set_conv_nth)

text \<open>The search finds the one equal element there is.\<close>

lemma lookup_cases:
  assumes ok: "lh_ok H C lh k" and g: "get_next_ptr_and_hash H C lh d = ((b, i), hash)"
  obtains (found) it where "next_item lh (b, i) = Some it" "it \<in># items lh" "C (lh_comp lh) (it_data it) d = 0"
      "i < length (lh_buckets lh ! b)" "it = lh_buckets lh ! b ! i"
    | (absent) "next_item lh (b, i) = None" "\<forall>it \<in># items lh. C (lh_comp lh) (it_data it) d \<noteq> 0" "i = length (lh_buckets lh ! b)"
proof -
  let ?match = "\<lambda>x. C (lh_comp lh) x d = 0"
  have b: "b = unat hash mod lh_num_buckets lh" "i = chain_pos ?match (lh_buckets lh ! b)" "hash = H (lh_hash lh) d"
    using g by (auto simp: get_next_ptr_and_hash_def Let_def)
  have shape: "lh_shape H lh" and f: "functions_ok H C (lh_hash lh) (lh_comp lh)" using ok by (auto simp: lh_ok_def)
  have lt: "b < length (lh_buckets lh)" using bucket_lt [OF shape] b by simp
  show ?thesis
  proof (cases "i < length (lh_buckets lh ! b)")
    case True
    then have "?match (it_data (lh_buckets lh ! b ! i))" using chain_pos_match b(2) by blast
    moreover have "lh_buckets lh ! b ! i \<in># items lh" using True lt unfolding in_items by auto
    ultimately show ?thesis using found True by (simp add: next_item_def)
  next
    case False
    have "C (lh_comp lh) (it_data it) d \<noteq> 0" if it: "it \<in># items lh" for it
    proof
      assume eq: "C (lh_comp lh) (it_data it) d = 0"
      obtain b' where b': "b' < length (lh_buckets lh)" "it \<in> set (lh_buckets lh ! b')" using it unfolding in_items by blast
      have "it_hash it = H (lh_hash lh) (it_data it)" "unat (it_hash it) mod lh_num_buckets lh = b'"
        using shape_item [OF shape b'] by (auto simp: in_place_def)
      moreover have "H (lh_hash lh) (it_data it) = H (lh_hash lh) d" using f eq unfolding functions_ok_def by blast
      ultimately have "it \<in> set (lh_buckets lh ! b)" using b b' by simp
      then show False using chain_pos_none [of ?match "lh_buckets lh ! b" it] False b(2) eq by simp
    qed
    moreover have "i = length (lh_buckets lh ! b)" using False chain_pos_le [of ?match "lh_buckets lh ! b"] unfolding b(2) by linarith
    ultimately show ?thesis using absent False by (simp add: next_item_def)
  qed
qed

subsection \<open>Resizing\<close>

definition well_placed :: "nat \<Rightarrow> lhash_item list list \<Rightarrow> bool" where
  "well_placed n bs \<longleftrightarrow> length bs = n \<and> (\<forall>b < n. \<forall>it \<in> set (bs ! b). unat (it_hash it) mod n = b)"

lemma rebucket_item_ok:
  assumes "well_placed n nb" "0 < n"
  shows "well_placed n (rebucket_item n cur nb)" "mset (concat (rebucket_item n cur nb)) = add_mset cur (mset (concat nb))"
proof -
  let ?b = "unat (it_hash cur) mod n"
  have b: "?b < length nb" using assms by (simp add: well_placed_def)
  show "well_placed n (rebucket_item n cur nb)"
    using assms by (auto simp: well_placed_def rebucket_item_def Let_def nth_list_update split: if_splits)
  have "mset (nb ! ?b) \<subseteq># mset (concat nb)"
    using mset_concat_update [OF b, of "[]"] id_take_nth_drop [OF b] by (metis (no_types, lifting) concat_append concat.simps(2) mset_append mset_subset_eq_add_left mset_subset_eq_add_right subset_mset.order_trans)
  then show "mset (concat (rebucket_item n cur nb)) = add_mset cur (mset (concat nb))"
    using mset_concat_update [OF b, of "cur # nb ! ?b"] by (simp add: rebucket_item_def Let_def)
qed

lemma rebucket_chain_ok:
  "well_placed n nb \<Longrightarrow> 0 < n \<Longrightarrow> well_placed n (rebucket_chain n chain nb) \<and>
    mset (concat (rebucket_chain n chain nb)) = mset chain + mset (concat nb)"
  by (induction chain arbitrary: nb) (auto simp: rebucket_item_ok)

lemma rebucket_all_ok:
  "well_placed n nb \<Longrightarrow> 0 < n \<Longrightarrow> well_placed n (rebucket_all n bs nb) \<and>
    mset (concat (rebucket_all n bs nb)) = mset (concat bs) + mset (concat nb)"
  by (induction bs arbitrary: nb) (auto simp: rebucket_chain_ok)

lemma lh_rebucket_ok:
  assumes shape: "lh_shape H lh" and n: "kMinNumBuckets \<le> n" "n < size_mod"
    and r: "lh_rebucket m k lh n = (lh', k')"
  shows "lh_shape H lh' \<and> items lh' = items lh \<and> lh_num_items lh' = lh_num_items lh \<and> lh_comp lh' = lh_comp lh \<and>
    lh_hash lh' = lh_hash lh \<and> lh_callback_depth lh' = lh_callback_depth lh \<and> k \<le> k'"
proof (cases "lh' = lh")
  case True
  then show ?thesis using shape r by (auto simp: lh_rebucket_def Let_def split: if_splits option.splits)
next
  case False
  let ?nb = "rebucket_all n (lh_buckets lh) (replicate n [])"
  have "take (lh_num_buckets lh) (lh_buckets lh) = lh_buckets lh" using shape by (simp add: lh_shape_def)
  then have lh': "lh' = lh\<lparr>lh_num_buckets := n, lh_buckets := ?nb\<rparr>" "k \<le> k'" "(8 * n) mod size_mod div 8 = n"
    using r False by (auto simp: lh_rebucket_def Let_def split: if_splits option.splits)
  have "8 * n < size_mod" using lh'(3) n by (metis mult.commute times_8_exact zero_less_numeral zero_less_power)
  have nb: "well_placed n ?nb" "mset (concat ?nb) = mset (concat (lh_buckets lh))"
    using rebucket_all_ok [of n "replicate n []" "lh_buckets lh"] n by (auto simp: well_placed_def kMinNumBuckets_def)
  have "in_place H (lh_hash lh) n it b" if "b < n" "it \<in> set (?nb ! b)" for b it
  proof -
    have "it \<in> set (concat ?nb)" using that nb(1) by (auto simp: well_placed_def)
    then have "it \<in># items lh" using nb(2) unfolding items_def by (metis set_mset_mset)
    then have "it_hash it = H (lh_hash lh) (it_data it)" using shape_item [OF shape] unfolding in_items in_place_def by blast
    then show ?thesis using that nb(1) unfolding in_place_def well_placed_def by blast
  qed
  then show ?thesis using shape nb n \<open>8 * n < size_mod\<close> lh'(2) by (auto simp: lh'(1) lh_shape_def items_def well_placed_def)
qed

lemma lh_maybe_resize_ok:
  assumes "lh_shape H lh" "lh_maybe_resize m k lh = (lh', k')"
  shows "lh_shape H lh' \<and> items lh' = items lh \<and> lh_num_items lh' = lh_num_items lh \<and> lh_comp lh' = lh_comp lh \<and>
    lh_hash lh' = lh_hash lh \<and> lh_callback_depth lh' = lh_callback_depth lh \<and> k \<le> k'"
proof -
  define up where "up = lh_num_buckets lh * 2 mod size_mod"
  define half where "half = max (lh_num_buckets lh div 2) kMinNumBuckets"
  have n: "kMinNumBuckets \<le> lh_num_buckets lh" "lh_num_buckets lh < size_mod" using assms(1) by (auto simp: lh_shape_def)
  have sizes: "up < size_mod" "kMinNumBuckets \<le> half" "half < size_mod" using n by (auto simp: up_def half_def kMinNumBuckets_def)
  have half: "(if lh_num_buckets lh div 2 < kMinNumBuckets then kMinNumBuckets else lh_num_buckets lh div 2) = half"
    by (simp add: half_def)
  have "lh_maybe_resize m k lh = (lh, k) \<or> up > lh_num_buckets lh \<and> lh_maybe_resize m k lh = lh_rebucket m k lh up \<or>
      lh_maybe_resize m k lh = lh_rebucket m k lh half"
    unfolding lh_maybe_resize_def Let_def half up_def [symmetric] by presburger
  then consider "lh' = lh" "k' = k" | "up > lh_num_buckets lh" "lh_rebucket m k lh up = (lh', k')"
    | "lh_rebucket m k lh half = (lh', k')"
    unfolding assms(2) by fastforce
  then show ?thesis
  proof cases
    case 1
    then show ?thesis using assms(1) by simp
  next
    case 2
    then show ?thesis using lh_rebucket_ok [OF assms(1) _ sizes(1)] n(1) by (meson le_trans less_imp_le)
  next
    case 3
    then show ?thesis using lh_rebucket_ok [OF assms(1) sizes(2,3)] by blast
  qed
qed

subsection \<open>Insertion and deletion\<close>

lemma set_chain_ok:
  assumes shape: "lh_shape H lh" and b: "b < length (lh_buckets lh)"
    and new: "\<And>it. it \<in> set (f (lh_buckets lh ! b)) \<Longrightarrow> in_place H (lh_hash lh) (lh_num_buckets lh) it b"
  shows "lh_shape H (set_chain b f lh)"
    "items (set_chain b f lh) = items lh - mset (lh_buckets lh ! b) + mset (f (lh_buckets lh ! b))"
proof -
  show "lh_shape H (set_chain b f lh)"
  proof -
    let ?bs = "(lh_buckets lh)[b := f (lh_buckets lh ! b)]"
    have "in_place H (lh_hash lh) (lh_num_buckets lh) it b'"
      if "b' < lh_num_buckets lh" "it \<in> set (?bs ! b')" for b' it
    proof (cases "b' = b")
      case True
      then have "it \<in> set (f (lh_buckets lh ! b))" using that b by simp
      then show ?thesis using new True by blast
    next
      case False
      then show ?thesis using shape_item [OF shape, of b' it] that shape by (simp add: lh_shape_def)
    qed
    then show ?thesis using shape unfolding lh_shape_def set_chain_def by simp
  qed
  show "items (set_chain b f lh) = items lh - mset (lh_buckets lh ! b) + mset (f (lh_buckets lh ! b))"
    using mset_concat_update [OF b] by (simp add: items_def set_chain_def)
qed

lemma chain_subset: "b < length (lh_buckets lh) \<Longrightarrow> mset (lh_buckets lh ! b) \<subseteq># items lh"
  unfolding items_def using id_take_nth_drop [of b "lh_buckets lh"]
  by (metis (no_types, lifting) concat_append concat.simps(2) mset_append mset_subset_eq_add_left mset_subset_eq_add_right subset_mset.order_trans)

lemma mset_take_drop: "i < length xs \<Longrightarrow> mset xs = add_mset (xs ! i) (mset (take i xs @ drop (i + 1) xs))"
  by (metis Suc_eq_plus1 id_take_nth_drop mset.simps(2) mset_append union_mset_add_mset_right)

lemma items_ok_add:
  assumes "\<forall>x y. C c x y = 0 \<longrightarrow> C c y x = 0"
  shows "items_ok C c k (add_mset it M) \<longleftrightarrow>
    items_ok C c k M \<and> it_addr it < k \<and> (\<forall>x \<in># M. it_addr x \<noteq> it_addr it \<and> C c (it_data x) (it_data it) \<noteq> 0)"
proof
  assume ok: "items_ok C c k (add_mset it M)"
  have "it_addr x \<noteq> it_addr y \<and> C c (it_data x) (it_data y) \<noteq> 0" if "x \<in># M" "y \<in># M - {#x#}" for x y
  proof -
    have "y \<in># add_mset it M - {#x#}"
      using that by (cases "x = it") (auto simp: diff_add_mset_swap dest: in_diffD)
    moreover have "x \<in># add_mset it M" using that(1) by simp
    ultimately show ?thesis using ok unfolding items_ok_def by blast
  qed
  moreover have "it_addr it \<noteq> it_addr x \<and> C c (it_data it) (it_data x) \<noteq> 0" if "x \<in># M" for x
    using ok that unfolding items_ok_def by simp
  ultimately show "items_ok C c k M \<and> it_addr it < k \<and> (\<forall>x \<in># M. it_addr x \<noteq> it_addr it \<and> C c (it_data x) (it_data it) \<noteq> 0)"
    using ok assms unfolding items_ok_def by (metis multi_member_this union_single_eq_member add_mset_add_single union_iff)
next
  assume r: "items_ok C c k M \<and> it_addr it < k \<and> (\<forall>x \<in># M. it_addr x \<noteq> it_addr it \<and> C c (it_data x) (it_data it) \<noteq> 0)"
  have "it_addr x \<noteq> it_addr y \<and> C c (it_data x) (it_data y) \<noteq> 0" if x: "x \<in># add_mset it M" and y: "y \<in># add_mset it M - {#x#}" for x y
  proof (cases "x = it")
    case True
    then show ?thesis using r y assms by (metis add_mset_remove_trivial)
  next
    case False
    then have "x \<in># M" "y \<in># add_mset it (M - {#x#})" using x y by (auto simp: diff_add_mset_swap)
    then show ?thesis using r unfolding items_ok_def by auto
  qed
  then show "items_ok C c k (add_mset it M)" using r unfolding items_ok_def by auto
qed

lemma items_ok_mono: "items_ok C c k M \<Longrightarrow> k \<le> k' \<Longrightarrow> items_ok C c k' M"
  by (auto simp: items_ok_def)

lemma mset_update_remove: "i < length xs \<Longrightarrow> mset (xs[i := y]) = add_mset y (mset xs - {#xs ! i#})"
  by (simp add: mset_update)

text \<open>What an operation leaves unchanged of a table.\<close>

definition same_table :: "lhash_st \<Rightarrow> lhash_st \<Rightarrow> bool" where
  "same_table lh lh' \<longleftrightarrow> lh_comp lh' = lh_comp lh \<and> lh_hash lh' = lh_hash lh \<and> lh_callback_depth lh' = lh_callback_depth lh"

lemma same_table_trans: "same_table a b \<Longrightarrow> same_table b c \<Longrightarrow> same_table a c"
  by (simp add: same_table_def)

lemma set_chain_same: "same_table lh (set_chain b f lh)" "lh_num_items (set_chain b f lh) = lh_num_items lh"
  by (simp_all add: set_chain_def same_table_def)

text \<open>After a change of one chain and of the count, the final resizing keeps everything.\<close>

lemma resize_finish:
  assumes f: "functions_ok H C (lh_hash lh) (lh_comp lh)" and shape: "lh_shape H lh1" and same: "same_table lh lh1"
    and items: "items_ok C (lh_comp lh) k (items lh1)" and n: "n = size (items lh1)"
    and r: "lh_maybe_resize m k (lh1\<lparr>lh_num_items := n\<rparr>) = (lh', k')"
  shows "lh_ok H C lh' k' \<and> items lh' = items lh1 \<and> same_table lh lh' \<and> k \<le> k'"
proof -
  have shape': "lh_shape H (lh1\<lparr>lh_num_items := n\<rparr>)" using shape by (simp add: lh_shape_def)
  have it: "items (lh1\<lparr>lh_num_items := n\<rparr>) = items lh1" by (simp add: items_def)
  show ?thesis
    using lh_maybe_resize_ok [OF shape' r] f items n same items_ok_mono [of C "lh_comp lh" k "items lh1" k']
    unfolding it by (auto simp: lh_ok_def same_table_def)
qed

lemma insert_cases:
  assumes ok: "lh_ok H C lh k" and ins: "OPENSSL_lh_insert m k H C lh d = (ret, old, lh', k')"
  obtains (replaced) it where "it \<in># items lh" "C (lh_comp lh) (it_data it) d = 0" "ret" "old = it_data it"
      "items lh' = add_mset (it\<lparr>it_data := d\<rparr>) (items lh - {#it#})" "lh_ok H C lh' k'" "same_table lh lh'" "k \<le> k'"
    | (failed) "\<forall>it \<in># items lh. C (lh_comp lh) (it_data it) d \<noteq> 0" "\<not> ret" "old = NULL" "lh' = lh" "k' = k + 1"
      "OPENSSL_malloc m k sizeof_LHASH_ITEM = None"
    | (added) "\<forall>it \<in># items lh. C (lh_comp lh) (it_data it) d \<noteq> 0" "ret" "old = NULL"
      "items lh' = add_mset \<lparr>it_data = d, it_hash = H (lh_hash lh) d, it_addr = k\<rparr> (items lh)" "lh_ok H C lh' k'" "same_table lh lh'" "k \<le> k'"
proof -
  obtain b i hash where g: "get_next_ptr_and_hash H C lh d = ((b, i), hash)" by (metis prod.collapse)
  have hash: "hash = H (lh_hash lh) d" "b = unat hash mod lh_num_buckets lh"
    using g by (auto simp: get_next_ptr_and_hash_def Let_def)
  have shape: "lh_shape H lh" and f: "functions_ok H C (lh_hash lh) (lh_comp lh)" and n: "lh_num_items lh = size (items lh)"
    and io: "items_ok C (lh_comp lh) k (items lh)" using ok by (auto simp: lh_ok_def)
  have sym: "\<forall>x y. C (lh_comp lh) x y = 0 \<longrightarrow> C (lh_comp lh) y x = 0" using f unfolding functions_ok_def by blast
  have b: "b < length (lh_buckets lh)" using bucket_lt [OF shape] hash(2) by simp
  show ?thesis
    using ok g
  proof (cases rule: lookup_cases)
    case (found it)
    let ?it = "it\<lparr>it_data := d\<rparr>"
    let ?lh = "set_chain b (\<lambda>chain. chain[i := ?it]) lh"
    have r: "ret" "old = it_data it" "lh' = ?lh" "k' = k" using ins g found(1) by (auto simp: OPENSSL_lh_insert_def)
    have "in_place H (lh_hash lh) (lh_num_buckets lh) it b" using shape_item [OF shape b, of it] found by simp
    moreover have "H (lh_hash lh) (it_data it) = hash" using f found(3) hash(1) unfolding functions_ok_def by blast
    ultimately have "in_place H (lh_hash lh) (lh_num_buckets lh) ?it b" using hash(1) by (auto simp: in_place_def)
    then have pl: "in_place H (lh_hash lh) (lh_num_buckets lh) x b" if "x \<in> set ((lh_buckets lh ! b)[i := ?it])" for x
      using that shape_item [OF shape b, of x] set_update_subset_insert [of "lh_buckets lh ! b" i ?it] by blast
    note sh = set_chain_ok [OF shape b, of "\<lambda>chain. chain[i := ?it]", OF pl]
    have "it \<in># mset (lh_buckets lh ! b)" using found by simp
    then have items: "items ?lh = add_mset ?it (items lh - {#it#})"
      using sh(2) chain_subset [OF b] found(4,5) by (simp add: mset_update_remove subset_mset.diff_add_assoc2 insert_DiffM multiset_diff_union_assoc)
    obtain M where M: "items lh = add_mset it M" using found(2) by (metis multi_member_split)
    have trans: "C (lh_comp lh) x d = 0 \<Longrightarrow> C (lh_comp lh) x (it_data it) = 0" for x
      using f found(3) sym unfolding functions_ok_def by blast
    have "items_ok C (lh_comp lh) k (items ?lh)"
      using io trans unfolding items unfolding M items_ok_add [of C "lh_comp lh", OF sym] by (auto simp: items_ok_add [of C "lh_comp lh", OF sym])
    moreover have "size (items ?lh) = size (items lh)" unfolding items M by simp
    ultimately have "lh_ok H C ?lh k" using sh(1) f n unfolding lh_ok_def by (simp add: set_chain_def)
    then show ?thesis using replaced found r items set_chain_same(1) by simp
  next
    case absent
    let ?it = "\<lparr>it_data = d, it_hash = hash, it_addr = k\<rparr>"
    let ?lh = "set_chain b (\<lambda>chain. take i chain @ [?it]) lh"
    show ?thesis
    proof (cases "OPENSSL_malloc m k sizeof_LHASH_ITEM")
      case None
      then show ?thesis using failed absent ins g by (auto simp: OPENSSL_lh_insert_def)
    next
      case (Some x)
      obtain lh3 k3 where r3: "lh_maybe_resize m (k + 1) (?lh\<lparr>lh_num_items := lh_num_items ?lh + 1\<rparr>) = (lh3, k3)" by fastforce
      have r: "ret" "old = NULL" "lh' = lh3" "k' = k3" using ins g absent(1) Some r3 by (auto simp: OPENSSL_lh_insert_def Let_def)
      have "in_place H (lh_hash lh) (lh_num_buckets lh) ?it b" using hash by (simp add: in_place_def)
      then have pl: "in_place H (lh_hash lh) (lh_num_buckets lh) x b" if "x \<in> set (take i (lh_buckets lh ! b) @ [?it])" for x
        using that shape_item [OF shape b, of x] by (auto dest: in_set_takeD)
      note sh = set_chain_ok [OF shape b, of "\<lambda>chain. take i chain @ [?it]", OF pl]
      have items: "items ?lh = add_mset ?it (items lh)" using sh(2) chain_subset [OF b] absent(3) by simp
      have "items_ok C (lh_comp lh) (k + 1) (items ?lh)"
        using io absent(2) items_ok_mono [OF io, of "k + 1"] unfolding items items_ok_add [of C "lh_comp lh", OF sym] by (auto simp: items_ok_def)
      then have "lh_ok H C lh3 k3 \<and> items lh3 = items ?lh \<and> same_table lh lh3 \<and> k + 1 \<le> k3"
        using resize_finish [OF f sh(1) set_chain_same(1) _ _ r3] n items set_chain_same(2) by simp
      then show ?thesis using added absent(2) r items hash(1) by simp
    qed
  qed
qed

lemma delete_cases:
  assumes ok: "lh_ok H C lh k" and del: "OPENSSL_lh_delete m k H C lh d = (ret, lh', k')"
  obtains (removed) it where "it \<in># items lh" "C (lh_comp lh) (it_data it) d = 0" "ret = it_data it"
      "items lh' = items lh - {#it#}" "lh_ok H C lh' k'" "same_table lh lh'" "k \<le> k'"
    | (absent) "\<forall>it \<in># items lh. C (lh_comp lh) (it_data it) d \<noteq> 0" "ret = NULL" "lh' = lh" "k' = k"
proof -
  obtain b i hash where g: "get_next_ptr_and_hash H C lh d = ((b, i), hash)" by (metis prod.collapse)
  have hash: "hash = H (lh_hash lh) d" "b = unat hash mod lh_num_buckets lh"
    using g by (auto simp: get_next_ptr_and_hash_def Let_def)
  have shape: "lh_shape H lh" and f: "functions_ok H C (lh_hash lh) (lh_comp lh)" and n: "lh_num_items lh = size (items lh)"
    and io: "items_ok C (lh_comp lh) k (items lh)" using ok by (auto simp: lh_ok_def)
  have sym: "\<forall>x y. C (lh_comp lh) x y = 0 \<longrightarrow> C (lh_comp lh) y x = 0" using f unfolding functions_ok_def by blast
  have b: "b < length (lh_buckets lh)" using bucket_lt [OF shape] hash(2) by simp
  show ?thesis
    using ok g
  proof (cases rule: lookup_cases)
    case (found it)
    let ?lh = "set_chain b (\<lambda>chain. take i chain @ drop (i + 1) chain) lh"
    obtain lh3 k3 where r3: "lh_maybe_resize m k (?lh\<lparr>lh_num_items := lh_num_items ?lh - 1\<rparr>) = (lh3, k3)" by fastforce
    have r: "ret = it_data it" "lh' = lh3" "k' = k3" using del g found(1) r3 by (auto simp: OPENSSL_lh_delete_def Let_def)
    have pl: "in_place H (lh_hash lh) (lh_num_buckets lh) x b" if "x \<in> set (take i (lh_buckets lh ! b) @ drop (i + 1) (lh_buckets lh ! b))" for x
      using that shape_item [OF shape b, of x] by (auto dest: in_set_takeD in_set_dropD)
    note sh = set_chain_ok [OF shape b, of "\<lambda>chain. take i chain @ drop (i + 1) chain", OF pl]
    have items: "items ?lh = items lh - {#it#}"
    proof -
      obtain N where N: "items lh = mset (lh_buckets lh ! b) + N" using chain_subset [OF b] by (auto simp: mset_subset_eq_exists_conv)
      show ?thesis using sh(2) N mset_take_drop [OF found(4)] found(5) by simp
    qed
    obtain M where M: "items lh = add_mset it M" using found(2) by (metis multi_member_split)
    have "items_ok C (lh_comp lh) k (items ?lh)" using io unfolding items unfolding M items_ok_add [of C "lh_comp lh", OF sym] by simp
    then have "lh_ok H C lh3 k3 \<and> items lh3 = items ?lh \<and> same_table lh lh3 \<and> k \<le> k3"
      using resize_finish [OF f sh(1) set_chain_same(1) _ _ r3] n items set_chain_same(2) M by simp
    then show ?thesis using removed found r items by simp
  next
    case absent': absent
    then show ?thesis using absent del g by (auto simp: OPENSSL_lh_delete_def)
  qed
qed

subsection \<open>Retrieval\<close>

definition elements :: "lhash_st \<Rightarrow> ptr set" where
  "elements lh = it_data ` set_mset (items lh)"

text \<open>The stored element equal to \<open>d\<close>, if any; it is unique.\<close>

definition lh_lookup :: "hash_env \<Rightarrow> eq_env \<Rightarrow> lhash_st \<Rightarrow> ptr \<Rightarrow> ptr option" where
  "lh_lookup H C lh d = map_option it_data (next_item lh (fst (get_next_ptr_and_hash H C lh d)))"

lemma retrieve_lookup: "OPENSSL_lh_retrieve H C lh d = (case lh_lookup H C lh d of None \<Rightarrow> NULL | Some x \<Rightarrow> x)"
  by (simp add: OPENSSL_lh_retrieve_def lh_lookup_def split: option.split)

lemma items_unique:
  assumes "items_ok C c k M" "it \<in># M" "it' \<in># M" "C c (it_data it) (it_data it') = 0"
  shows "it = it'"
proof (rule ccontr)
  assume "it \<noteq> it'"
  then have "it' \<in># M - {#it#}" using assms(2,3) by (metis insert_DiffM insert_noteq_member)
  then show False using assms unfolding items_ok_def by blast
qed

lemma lookup_iff:
  assumes ok: "lh_ok H C lh k"
  shows "lh_lookup H C lh d = Some x \<longleftrightarrow> x \<in> elements lh \<and> C (lh_comp lh) x d = 0"
proof -
  obtain b i hash where g: "get_next_ptr_and_hash H C lh d = ((b, i), hash)" by (metis prod.collapse)
  have f: "functions_ok H C (lh_hash lh) (lh_comp lh)" and io: "items_ok C (lh_comp lh) k (items lh)" using ok by (auto simp: lh_ok_def)
  show ?thesis
    using ok g
  proof (cases rule: lookup_cases)
    case (found it)
    have "it' = it" if "it' \<in># items lh" "C (lh_comp lh) (it_data it') d = 0" for it'
    proof -
      have "C (lh_comp lh) (it_data it') (it_data it) = 0" using that(2) found(3) f unfolding functions_ok_def by blast
      then show ?thesis using items_unique [OF io that(1) found(2)] by simp
    qed
    then have "x \<in> elements lh \<and> C (lh_comp lh) x d = 0 \<longleftrightarrow> x = it_data it"
      using found(2,3) unfolding elements_def by blast
    then show ?thesis using found(1) g by (auto simp: lh_lookup_def)
  next
    case absent
    then have "\<not> (x \<in> elements lh \<and> C (lh_comp lh) x d = 0)" unfolding elements_def by blast
    then show ?thesis using absent(1) g by (simp add: lh_lookup_def)
  qed
qed

lemma lookup_eqI:
  assumes "lh_ok H C lh k" "lh_ok H C lh' k'" "lh_comp lh' = lh_comp lh"
    and "\<And>x. C (lh_comp lh) x d = 0 \<Longrightarrow> x \<in> elements lh' \<longleftrightarrow> x \<in> elements lh"
  shows "lh_lookup H C lh' d = lh_lookup H C lh d"
proof -
  have "lh_lookup H C lh' d = Some x \<longleftrightarrow> lh_lookup H C lh d = Some x" for x
    unfolding lookup_iff [OF assms(1)] lookup_iff [OF assms(2)] assms(3) using assms(4) by blast
  then show ?thesis by (metis not_Some_eq)
qed

lemma insert_elements:
  assumes ok: "lh_ok H C lh k" and ins: "OPENSSL_lh_insert m k H C lh d = (True, old, lh', k')"
  shows "lh_ok H C lh' k' \<and> same_table lh lh' \<and> k \<le> k' \<and> d \<in> elements lh' \<and>
    (\<forall>x. C (lh_comp lh) x d \<noteq> 0 \<longrightarrow> (x \<in> elements lh' \<longleftrightarrow> x \<in> elements lh))"
proof -
  have self: "C (lh_comp lh) d d = 0" using ok unfolding lh_ok_def functions_ok_def by blast
  show ?thesis
    using ok ins
  proof (cases rule: insert_cases)
    case (replaced it)
    obtain M where M: "items lh = add_mset it M" using replaced(1) by (metis multi_member_split)
    have "elements lh' = insert d (it_data ` set_mset M)" "elements lh = insert (it_data it) (it_data ` set_mset M)"
      unfolding elements_def replaced(5) M by simp_all
    then show ?thesis using replaced self by auto
  next
    case added
    then have "elements lh' = insert d (elements lh)" by (simp add: elements_def)
    then show ?thesis using added self by auto
  qed simp
qed

lemma delete_elements:
  assumes ok: "lh_ok H C lh k" and del: "OPENSSL_lh_delete m k H C lh d = (ret, lh', k')"
  shows "lh_ok H C lh' k' \<and> same_table lh lh' \<and> k \<le> k' \<and> ret = OPENSSL_lh_retrieve H C lh d \<and>
    elements lh' = {x \<in> elements lh. C (lh_comp lh) x d \<noteq> 0}"
  using ok del
proof (cases rule: delete_cases)
  case (removed it)
  have f: "functions_ok H C (lh_hash lh) (lh_comp lh)" and io: "items_ok C (lh_comp lh) k (items lh)" using ok by (auto simp: lh_ok_def)
  obtain M where M: "items lh = add_mset it M" using removed(1) by (metis multi_member_split)
  have "C (lh_comp lh) (it_data it') d \<noteq> 0" if "it' \<in># M" for it'
  proof
    assume "C (lh_comp lh) (it_data it') d = 0"
    then have "C (lh_comp lh) (it_data it) (it_data it') = 0" using removed(2) f unfolding functions_ok_def by blast
    moreover have "it' \<in># items lh - {#it#}" using that M by simp
    ultimately show False using io removed(1) unfolding items_ok_def by blast
  qed
  then have "elements lh' = {x \<in> elements lh. C (lh_comp lh) x d \<noteq> 0}"
    using removed(2) unfolding elements_def removed(4) M by auto
  moreover have "lh_lookup H C lh d = Some ret" using removed unfolding lookup_iff [OF ok] elements_def by simp
  ultimately show ?thesis using removed by (simp add: retrieve_lookup)
next
  case absent
  then have "lh_lookup H C lh d = None" using lookup_iff [OF ok, of d] unfolding elements_def by (metis imageE not_Some_eq)
  then show ?thesis using absent ok by (auto simp: retrieve_lookup elements_def same_table_def)
qed

lemma lookup_insert:
  assumes ok: "lh_ok H C lh k" and ins: "OPENSSL_lh_insert m k H C lh d = (True, old, lh', k')"
  shows "lh_lookup H C lh' e = (if C (lh_comp lh) d e = 0 then Some d else lh_lookup H C lh e)"
proof -
  note post = insert_elements [OF assms]
  have comp: "lh_comp lh' = lh_comp lh" using post by (simp add: same_table_def)
  have ok': "lh_ok H C lh' k'" using post by blast
  have eqv: "C (lh_comp lh) x d = 0 \<Longrightarrow> C (lh_comp lh) x e = 0 \<Longrightarrow> C (lh_comp lh) d e = 0" for x
    using ok unfolding lh_ok_def functions_ok_def by blast
  show ?thesis
  proof (cases "C (lh_comp lh) d e = 0")
    case True
    then have "lh_lookup H C lh' e = Some d" using post unfolding lookup_iff [OF ok'] comp by blast
    then show ?thesis using True by simp
  next
    case False
    then have "lh_lookup H C lh' e = lh_lookup H C lh e" using post eqv by (intro lookup_eqI [OF ok ok' comp]) blast
    then show ?thesis using False by simp
  qed
qed

lemma lookup_delete:
  assumes ok: "lh_ok H C lh k" and del: "OPENSSL_lh_delete m k H C lh d = (ret, lh', k')"
  shows "lh_lookup H C lh' e = (if C (lh_comp lh) d e = 0 then None else lh_lookup H C lh e)"
proof -
  note post = delete_elements [OF assms]
  have comp: "lh_comp lh' = lh_comp lh" using post by (simp add: same_table_def)
  have ok': "lh_ok H C lh' k'" and el: "elements lh' = {x \<in> elements lh. C (lh_comp lh) x d \<noteq> 0}" using post by blast+
  have eqv: "C (lh_comp lh) x e = 0 \<Longrightarrow> C (lh_comp lh) d e = 0 \<longleftrightarrow> C (lh_comp lh) x d = 0" for x
    using ok unfolding lh_ok_def functions_ok_def by blast
  show ?thesis
  proof (cases "C (lh_comp lh) d e = 0")
    case True
    then have "lh_lookup H C lh' e \<noteq> Some x" for x using eqv unfolding lookup_iff [OF ok'] comp el by blast
    then show ?thesis using True by (metis not_Some_eq)
  next
    case False
    then have "lh_lookup H C lh' e = lh_lookup H C lh e" using el eqv by (intro lookup_eqI [OF ok ok' comp]) blast
    then show ?thesis using False by simp
  qed
qed

subsection \<open>Histories of operations\<close>

text \<open>
  The interface of a table of elements identified by an equality \<open>same\<close>: a lookup after an
  insertion or deletion. Inside it, the lookup after any history of operations.
\<close>

datatype 'e dict_op = Put 'e | Del 'e

fun replay :: "('e \<Rightarrow> 'e \<Rightarrow> bool) \<Rightarrow> 'e \<Rightarrow> 'e dict_op list \<Rightarrow> 'e option \<Rightarrow> 'e option" where
  "replay same e [] r = r"
| "replay same e (Put d # ops) r = replay same e ops (if same d e then Some d else r)"
| "replay same e (Del d # ops) r = replay same e ops (if same d e then None else r)"

fun dict_run :: "('t \<Rightarrow> 'e \<Rightarrow> 't option) \<Rightarrow> ('t \<Rightarrow> 'e \<Rightarrow> 't) \<Rightarrow> 't \<Rightarrow> 'e dict_op list \<Rightarrow> 't option" where
  "dict_run put del t [] = Some t"
| "dict_run put del t (Put d # ops) = (case put t d of None \<Rightarrow> None | Some t' \<Rightarrow> dict_run put del t' ops)"
| "dict_run put del t (Del d # ops) = dict_run put del (del t d) ops"

locale dictionary =
  fixes ok :: "'t \<Rightarrow> bool" and same :: "'e \<Rightarrow> 'e \<Rightarrow> bool" and lookup :: "'t \<Rightarrow> 'e \<Rightarrow> 'e option"
    and put :: "'t \<Rightarrow> 'e \<Rightarrow> 't option" and del :: "'t \<Rightarrow> 'e \<Rightarrow> 't"
  assumes put: "ok t \<Longrightarrow> put t d = Some t' \<Longrightarrow> ok t' \<and> lookup t' e = (if same d e then Some d else lookup t e)"
    and del: "ok t \<Longrightarrow> ok (del t d) \<and> lookup (del t d) e = (if same d e then None else lookup t e)"
begin

lemma run_lookup: "ok t \<Longrightarrow> dict_run put del t ops = Some t' \<Longrightarrow> ok t' \<and> lookup t' e = replay same e ops (lookup t e)"
proof (induction ops arbitrary: t)
  case (Cons a ops)
  show ?case
  proof (cases a)
    case (Put d)
    then obtain t1 where t1: "put t d = Some t1" "dict_run put del t1 ops = Some t'" using Cons(3) by (auto split: option.splits)
    then show ?thesis using put [OF Cons(2) t1(1)] Cons(1) [OF _ t1(2)] Put by simp
  next
    case (Del d)
    then show ?thesis using del [OF Cons(2)] Cons(1) [of "del t d"] Cons(3) by simp
  qed
qed simp

end

definition lh_put :: "allocator \<Rightarrow> hash_env \<Rightarrow> eq_env \<Rightarrow> lhash_st \<times> nat \<Rightarrow> ptr \<Rightarrow> (lhash_st \<times> nat) option" where
  "lh_put m H C t d =
     (case OPENSSL_lh_insert m (snd t) H C (fst t) d of (ret, _, lh', k') \<Rightarrow> if ret then Some (lh', k') else None)"

definition lh_del :: "allocator \<Rightarrow> hash_env \<Rightarrow> eq_env \<Rightarrow> lhash_st \<times> nat \<Rightarrow> ptr \<Rightarrow> lhash_st \<times> nat" where
  "lh_del m H C t d = snd (OPENSSL_lh_delete m (snd t) H C (fst t) d)"

interpretation lh: dictionary "\<lambda>t. lh_ok H C (fst t) (snd t) \<and> lh_comp (fst t) = c" "\<lambda>d e. C c d e = 0"
  "\<lambda>t. lh_lookup H C (fst t)" "lh_put m H C" "lh_del m H C"
  for m H C c
proof unfold_locales
  fix t d t' e
  assume ok: "lh_ok H C (fst t) (snd t) \<and> lh_comp (fst t) = c" and put: "lh_put m H C t d = Some t'"
  obtain old where ins: "OPENSSL_lh_insert m (snd t) H C (fst t) d = (True, old, fst t', snd t')"
    using put by (auto simp: lh_put_def split: prod.splits if_splits)
  show "(lh_ok H C (fst t') (snd t') \<and> lh_comp (fst t') = c) \<and>
      lh_lookup H C (fst t') e = (if C c d e = 0 then Some d else lh_lookup H C (fst t) e)"
    using insert_elements [OF _ ins] lookup_insert [OF _ ins, of e] ok by (auto simp: same_table_def)
next
  fix t d e
  assume ok: "lh_ok H C (fst t) (snd t) \<and> lh_comp (fst t) = c"
  obtain ret where del: "OPENSSL_lh_delete m (snd t) H C (fst t) d = (ret, fst (lh_del m H C t d), snd (lh_del m H C t d))"
    by (metis lh_del_def prod.collapse)
  show "(lh_ok H C (fst (lh_del m H C t d)) (snd (lh_del m H C t d)) \<and> lh_comp (fst (lh_del m H C t d)) = c) \<and>
      lh_lookup H C (fst (lh_del m H C t d)) e = (if C c d e = 0 then None else lh_lookup H C (fst t) e)"
    using delete_elements [OF _ del] lookup_delete [OF _ del, of e] ok by (auto simp: same_table_def)
qed

text \<open>
  C19: the hash table is a dictionary, through all resizing. For any hash and comparison
  functions that agree, starting from \<open>OPENSSL_lh_new\<close>, after any sequence of insertions (whose
  allocations succeeded) and deletions, \<open>OPENSSL_lh_retrieve\<close> returns the element most recently
  inserted among those equal to the argument, unless it was deleted since, and \<open>NULL\<close>
  if there is none; and the number of items is the number of elements stored.
\<close>

theorem lh_history:
  assumes new: "OPENSSL_lh_new m k h c = (Some lh, k0)" and f: "functions_ok H C h c"
    and run: "dict_run (lh_put m H C) (lh_del m H C) (lh, k0) ops = Some (lh', k')"
  shows "OPENSSL_lh_retrieve H C lh' e = (case replay (\<lambda>d e. C c d e = 0) e ops None of None \<Rightarrow> NULL | Some x \<Rightarrow> x) \<and>
    OPENSSL_lh_num_items lh' = size (items lh')"
proof -
  have ok: "lh_ok H C lh k0" "items lh = {#}" using lh_new_ok [OF new f] by auto
  have comp: "lh_comp lh = c" using new by (auto simp: OPENSSL_lh_new_def split: option.splits)
  have "lh_lookup H C lh e = None" using lookup_iff [OF ok(1), of e] ok(2) unfolding elements_def by (metis emptyE image_empty not_Some_eq set_mset_empty)
  then have "lh_ok H C lh' k' \<and> lh_lookup H C lh' e = replay (\<lambda>d e. C c d e = 0) e ops None"
    using lh.run_lookup [of H C "(lh, k0)" c m ops "(lh', k')" e] ok(1) comp run by simp
  then show ?thesis by (simp add: retrieve_lookup OPENSSL_lh_num_items_def lh_ok_def)
qed

definition ptr_hash :: hash_env where
  "ptr_hash h p = ucast p"

definition ptr_differ :: eq_env where
  "ptr_differ c p q = (if p = q then 0 else 1)"

lemma ptr_functions_ok: "functions_ok ptr_hash ptr_differ h c"
  by (simp add: functions_ok_def ptr_hash_def ptr_differ_def)

definition new_table :: lhash_st where
  "new_table = \<lparr>lh_num_items = 0, lh_buckets = replicate 16 [], lh_num_buckets = 16, lh_callback_depth = 0, lh_comp = 1, lh_hash = 1\<rparr>"

lemma new_table: "OPENSSL_lh_new zero_alloc 0 1 1 = (Some new_table, 2)"
  by (simp add: OPENSSL_lh_new_def OPENSSL_malloc_def zero_alloc_def sizeof_LHASH_def kMinNumBuckets_def OPENSSL_MALLOC_PREFIX_def new_table_def)

theorem lh_history_witness:
  "case dict_run (lh_put zero_alloc ptr_hash ptr_differ) (lh_del zero_alloc ptr_hash ptr_differ) (new_table, 2) [Put 7, Put 23, Del 7] of
     None \<Rightarrow> False
   | Some (lh', _) \<Rightarrow> OPENSSL_lh_retrieve ptr_hash ptr_differ lh' 23 = 23 \<and> OPENSSL_lh_retrieve ptr_hash ptr_differ lh' 7 = 0"
proof -
  have "\<exists>t. dict_run (lh_put zero_alloc ptr_hash ptr_differ) (lh_del zero_alloc ptr_hash ptr_differ) (new_table, 2) [Put 7, Put 23, Del 7] = Some t"
    by (simp add: lh_put_def lh_del_def new_table_def OPENSSL_lh_insert_def get_next_ptr_and_hash_def Let_def next_item_def ptr_hash_def
        OPENSSL_malloc_def zero_alloc_def OPENSSL_MALLOC_PREFIX_def sizeof_LHASH_ITEM_def set_chain_def lh_maybe_resize_def kMaxAverageChainLength_def
        kMinAverageChainLength_def kMinNumBuckets_def ptr_differ_def)
  then show ?thesis
    using lh_history [OF new_table ptr_functions_ok, of "[Put 7, Put 23, Del 7]" _ _ 23]
      lh_history [OF new_table ptr_functions_ok, of "[Put 7, Put 23, Del 7]" _ _ 7]
    by (auto simp: ptr_differ_def)
qed

subsection \<open>Load\<close>

lemma rebucket_generous:
  assumes "\<forall>k n. m k n \<noteq> None" "n < 2 ^ 60"
  shows "lh_num_buckets (fst (lh_rebucket m k lh n)) = n"
proof -
  have "8 * n mod size_mod = 8 * n" "8 * n < 2 ^ 63" using assms(2) by simp_all
  then show ?thesis using malloc_generous [OF assms(1), of "8 * n" k] by (auto simp: lh_rebucket_def)
qed

lemma resize_load:
  assumes gen: "\<forall>k n. m k n \<noteq> None" and depth: "lh_callback_depth lh = 0" and n: "kMinNumBuckets \<le> lh_num_buckets lh" "lh_num_buckets lh < 2 ^ 59"
    and load: "lh_num_items lh \<le> 3 * lh_num_buckets lh" and r: "lh_maybe_resize m k lh = (lh', k')"
  shows "lh_num_items lh < 3 * lh_num_buckets lh'"
proof -
  define n where "n = lh_num_buckets lh"
  define x where "x = lh_num_items lh"
  have n0: "16 \<le> n" "n < 2 ^ 59" "x \<le> 3 * n" using n load by (simp_all add: n_def x_def kMinNumBuckets_def)
  have up: "n * 2 mod size_mod = n * 2" using n0 by simp
  have step: "lh_maybe_resize m k lh =
      (if x div n > 2 then lh_rebucket m k lh (n * 2)
       else if x div n < 1 \<and> n > 16 then lh_rebucket m k lh (if n div 2 < 16 then 16 else n div 2) else (lh, k))"
    using depth n0(1) up
    by (simp add: lh_maybe_resize_def Let_def n_def x_def kMaxAverageChainLength_def kMinAverageChainLength_def kMinNumBuckets_def)
  consider "x div n > 2" | "x div n \<le> 2" "x div n < 1 \<and> n > 16" | "x div n \<le> 2" "\<not> (x div n < 1 \<and> n > 16)" by linarith
  then show ?thesis
  proof cases
    case 1
    then have "lh_num_buckets lh' = n * 2" using rebucket_generous [OF gen, of "n * 2" k lh] r step n0 by simp
    then show ?thesis using n0 by (simp add: x_def)
  next
    case 2
    have "lh_num_buckets lh' = (if n div 2 < 16 then 16 else n div 2)"
      using rebucket_generous [OF gen, of "if n div 2 < 16 then 16 else n div 2" k lh] r step n0 2 by simp
    moreover have "x < n" using 2 n0 by (simp add: div_eq_0_iff)
    ultimately show ?thesis using n0 unfolding x_def by (auto split: if_splits)
  next
    case 3
    have "x div n < 3" using 3 by linarith
    then have "x < 3 * n" using n0 by (simp add: div_less_iff_less_mult)
    moreover have "lh' = lh" using r step 3 by (auto split: if_splits)
    ultimately show ?thesis by (simp add: x_def n_def)
  qed
qed

lemma resize_num_items: "lh_maybe_resize m k lh = (lh', k') \<Longrightarrow> lh_num_items lh' = lh_num_items lh"
proof -
  have r: "lh_num_items (fst (lh_rebucket m k lh n)) = lh_num_items lh" for n
    by (simp add: lh_rebucket_def Let_def split: option.split)
  have "lh_num_items (fst (lh_maybe_resize m k lh)) = lh_num_items lh"
    unfolding lh_maybe_resize_def Let_def using r by (simp only: fst_conv split: if_split) simp
  then show "lh_maybe_resize m k lh = (lh', k') \<Longrightarrow> lh_num_items lh' = lh_num_items lh" by simp
qed

text \<open>A table that is being kept below three items per bucket.\<close>

definition light :: "lhash_st \<Rightarrow> bool" where
  "light lh \<longleftrightarrow> lh_num_items lh < 3 * lh_num_buckets lh"

lemma light_resize:
  assumes "\<forall>k n. m k n \<noteq> None" "lh_callback_depth lh = 0" "kMinNumBuckets \<le> lh_num_buckets lh" "lh_num_buckets lh < 2 ^ 59"
    and "lh_num_items lh \<le> 3 * lh_num_buckets lh" "lh_maybe_resize m k lh = (lh', k')"
  shows "light lh'"
  using resize_load [OF assms] resize_num_items [OF assms(6)] by (simp add: light_def)

text \<open>
  C20: resizing keeps the chains short. If the allocator does not fail and no iteration is in
  progress, a table with fewer than three items per bucket on average still has fewer than
  three after every insertion and every deletion.
\<close>

theorem lh_load_bound:
  assumes gen: "\<forall>k n. m k n \<noteq> None" and ok: "lh_ok H C lh k" and depth: "lh_callback_depth lh = 0"
    and n: "lh_num_buckets lh < 2 ^ 59" and light: "light lh"
  shows "light (fst (snd (snd (OPENSSL_lh_insert m k H C lh d)))) \<and> light (fst (snd (OPENSSL_lh_delete m k H C lh d)))"
proof
  obtain b i hash where g: "get_next_ptr_and_hash H C lh d = ((b, i), hash)" by (metis prod.collapse)
  have n16: "kMinNumBuckets \<le> lh_num_buckets lh" using ok by (simp add: lh_ok_def lh_shape_def)
  have resize: "light (fst (lh_maybe_resize m k' (set_chain b f lh\<lparr>lh_num_items := x\<rparr>)))" if "x \<le> 3 * lh_num_buckets lh" for k' f x
  proof -
    let ?lh = "set_chain b f lh\<lparr>lh_num_items := x\<rparr>"
    have "lh_callback_depth ?lh = 0" "kMinNumBuckets \<le> lh_num_buckets ?lh" "lh_num_buckets ?lh < 2 ^ 59" "lh_num_items ?lh \<le> 3 * lh_num_buckets ?lh"
      using depth n16 n that by (simp_all add: set_chain_def)
    then show ?thesis using light_resize [OF gen, of ?lh k'] by (metis prod.collapse)
  qed
  have set: "lh_num_items (set_chain b f lh) = lh_num_items lh" "light (set_chain b f lh) = light lh" for f
    by (simp_all add: set_chain_def light_def)
  have x: "lh_num_items lh + 1 \<le> 3 * lh_num_buckets lh" "lh_num_items lh - 1 \<le> 3 * lh_num_buckets lh"
    using light by (simp_all add: light_def)
  show "light (fst (snd (snd (OPENSSL_lh_insert m k H C lh d))))"
    using resize [OF x(1)] light
    by (auto simp: OPENSSL_lh_insert_def g Let_def set split: option.split prod.split)
  show "light (fst (snd (OPENSSL_lh_delete m k H C lh d)))"
    using resize [OF x(2)] light
    by (auto simp: OPENSSL_lh_delete_def g Let_def set split: option.split prod.split)
qed

theorem lh_load_bound_witness:
  "light (fst (snd (snd (OPENSSL_lh_insert zero_alloc 2 ptr_hash ptr_differ new_table 7))))"
proof -
  have "lh_ok ptr_hash ptr_differ new_table 2" using lh_new_ok [OF new_table ptr_functions_ok] by simp
  then show ?thesis using lh_load_bound [OF zero_alloc_ok, of ptr_hash ptr_differ new_table 2 7] by (simp add: new_table_def light_def)
qed

subsection \<open>Iteration\<close>

lemma distinct_addresses:
  assumes "lh_ok H C lh k"
  shows "distinct (map it_addr (concat (lh_buckets lh)))"
proof -
  have sym: "\<forall>x y. C (lh_comp lh) x y = 0 \<longrightarrow> C (lh_comp lh) y x = 0" using assms unfolding lh_ok_def functions_ok_def by blast
  have "distinct (map it_addr xs)" if "items_ok C (lh_comp lh) k (mset xs)" for xs
    using that by (induction xs) (auto simp: items_ok_add [of C "lh_comp lh", OF sym])
  then show ?thesis using assms unfolding lh_ok_def items_def by blast
qed

lemma distinct_chain:
  assumes "lh_ok H C lh k" "b < length (lh_buckets lh)"
  shows "distinct (map it_addr (lh_buckets lh ! b))"
proof -
  have "lh_buckets lh = take b (lh_buckets lh) @ lh_buckets lh ! b # drop (Suc b) (lh_buckets lh)" by (rule id_take_nth_drop [OF assms(2)])
  then have "concat (lh_buckets lh) = concat (take b (lh_buckets lh)) @ lh_buckets lh ! b @ concat (drop (Suc b) (lh_buckets lh))"
    by (metis concat.simps(2) concat_append)
  then show ?thesis using distinct_addresses [OF assms(1)] by (metis distinct_append map_append)
qed

lemma chain_from_here:
  assumes "distinct (map it_addr (pre @ it # rest))"
  shows "chain_from (it_addr it) (pre @ it # rest) = it # rest"
  using assms by (induction pre) (auto simp: chain_from_def)

text \<open>A callback that does not touch the table.\<close>

abbreviation outside :: "(ptr \<Rightarrow> 's \<Rightarrow> 's) \<Rightarrow> ptr \<Rightarrow> lhash_st \<times> 's \<Rightarrow> lhash_st \<times> 's" where
  "outside g d st \<equiv> (fst st, g d (snd st))"

lemma doall_chain_outside:
  assumes "lh_buckets lh ! i = pre @ chain" "distinct (map it_addr (pre @ chain))"
  shows "doall_chain (outside g) i (chain_head chain) (lh, s) = Some (lh, fold g (map it_data chain) s)"
  using assms
proof (induction chain arbitrary: pre s)
  case Nil
  then show ?case by (simp add: doall_chain.simps chain_head_def)
next
  case (Cons it chain)
  have "chain_from (it_addr it) (lh_buckets lh ! i) = it # chain" using chain_from_here Cons(2,3) by simp
  then have "doall_chain (outside g) i (chain_head (it # chain)) (lh, s) = doall_chain (outside g) i (chain_head chain) (lh, g (it_data it) s)"
    by (subst doall_chain.simps) (simp add: chain_head_def)
  then show ?case using Cons(1) [of "pre @ [it]" "g (it_data it) s"] Cons(2,3) by simp
qed

lemma doall_buckets_outside:
  assumes ok: "\<And>b. b < length (lh_buckets lh) \<Longrightarrow> distinct (map it_addr (lh_buckets lh ! b))" "length (lh_buckets lh) = lh_num_buckets lh"
  shows "doall_buckets (outside g) i (lh, s) = Some (lh, fold g (map it_data (concat (drop i (lh_buckets lh)))) s)"
proof (induction "lh_num_buckets lh - i" arbitrary: i s)
  case 0
  then show ?case using ok by (subst doall_buckets.simps) simp
next
  case (Suc n)
  then have i: "i < length (lh_buckets lh)" using ok by simp
  have "doall_chain (outside g) i (chain_head (lh_buckets lh ! i)) (lh, s) = Some (lh, fold g (map it_data (lh_buckets lh ! i)) s)"
    using doall_chain_outside [of lh i "[]" "lh_buckets lh ! i" g s] ok(1) [OF i] by simp
  then show ?case using Suc i ok(2) Cons_nth_drop_Suc [OF i, symmetric] by (subst doall_buckets.simps) simp
qed

text \<open>
  C21: \<open>OPENSSL_lh_doall_arg\<close> visits every element exactly once. With a callback that leaves the
  table alone it returns, having applied the callback to a sequence of elements that is
  a permutation of those in the table; the elements, the count and the depth of
  iterations are as before, whatever resizing happens at the end.
\<close>

theorem lh_doall_visits:
  assumes ok: "lh_ok H C lh k" and depth: "lh_callback_depth lh < UINT_MAX - 1"
  shows "\<exists>order lh' k'. OPENSSL_lh_doall_arg m allocs (\<lambda>d st. (fst st, g d (snd st))) (lh, s) = Some (lh', fold g order s, k') \<and>
    mset order = image_mset it_data (items lh) \<and> items lh' = items lh \<and>
    lh_num_items lh' = lh_num_items lh \<and> lh_callback_depth lh' = lh_callback_depth lh"
proof -
  let ?lh = "lh\<lparr>lh_callback_depth := lh_callback_depth lh + 1\<rparr>"
  let ?order = "map it_data (concat (lh_buckets lh))"
  have shape: "lh_shape H lh" using ok by (simp add: lh_ok_def)
  have all: "doall_buckets (outside g) 0 (?lh, s) = Some (?lh, fold g ?order s)"
    using doall_buckets_outside [of ?lh g 0 s] distinct_chain [OF ok] shape by (simp add: lh_shape_def)
  obtain lh4 k4 where r: "lh_maybe_resize m (allocs (fold g ?order s)) lh = (lh4, k4)" by fastforce
  have "OPENSSL_lh_doall_arg m allocs (outside g) (lh, s) = Some (lh4, fold g ?order s, k4)"
    using all r depth by (simp add: OPENSSL_lh_doall_arg_def Let_def)
  moreover have "mset ?order = image_mset it_data (items lh)" by (simp add: items_def)
  ultimately show ?thesis using lh_maybe_resize_ok [OF shape r] by blast
qed

theorem lh_doall_visits_witness:
  "\<exists>order lh' k'. OPENSSL_lh_doall_arg zero_alloc (\<lambda>_. 2) (\<lambda>d st. (fst st, d # snd st)) (new_table, []) = Some (lh', fold (#) order [], k') \<and>
    mset order = image_mset it_data (items new_table)"
proof -
  have "lh_ok ptr_hash ptr_differ new_table 2" using lh_new_ok [OF new_table ptr_functions_ok] by simp
  then show ?thesis
    using lh_doall_visits [of ptr_hash ptr_differ new_table 2 zero_alloc "\<lambda>_. 2" "(#)" "[]"] by (auto simp: new_table_def)
qed

text \<open>The callback that deletes the element it is given and keeps what the deletion returned.\<close>

definition delete_visited :: "allocator \<Rightarrow> hash_env \<Rightarrow> eq_env \<Rightarrow> ptr \<Rightarrow> lhash_st \<times> nat \<times> ptr list \<Rightarrow> lhash_st \<times> nat \<times> ptr list" where
  "delete_visited m H C d st =
     (case st of (lh, k, gone) \<Rightarrow> (case OPENSSL_lh_delete m k H C lh d of (r, lh', k') \<Rightarrow> (lh', k', gone @ [r])))"

lemma delete_head:
  assumes ok: "lh_ok H C lh k" and depth: "0 < lh_callback_depth lh"
    and b: "b < length (lh_buckets lh)" "lh_buckets lh ! b = it # rest"
  shows "OPENSSL_lh_delete m k H C lh (it_data it) =
    (it_data it, (set_chain b (\<lambda>_. rest) lh)\<lparr>lh_num_items := lh_num_items lh - 1\<rparr>, k)"
proof -
  have shape: "lh_shape H lh" and self: "C (lh_comp lh) (it_data it) (it_data it) = 0"
    using ok unfolding lh_ok_def functions_ok_def by blast+
  have "in_place H (lh_hash lh) (lh_num_buckets lh) it b" using shape_item [OF shape b(1), of it] b(2) by simp
  then have g: "get_next_ptr_and_hash H C lh (it_data it) = ((b, 0), it_hash it)"
    using self b(2) by (auto simp: get_next_ptr_and_hash_def Let_def in_place_def)
  then show ?thesis
    using b(2) depth by (simp add: OPENSSL_lh_delete_def next_item_def Let_def set_chain_def lh_maybe_resize_def)
qed

lemma doall_chain_delete:
  assumes "lh_ok H C lh k" "0 < lh_callback_depth lh" "i < length (lh_buckets lh)"
  shows "\<exists>lh'. doall_chain (delete_visited m H C) i (chain_head (lh_buckets lh ! i)) (lh, k, gone) =
      Some (lh', k, gone @ map it_data (lh_buckets lh ! i)) \<and>
    lh_ok H C lh' k \<and> same_table lh lh' \<and> lh_buckets lh' = (lh_buckets lh)[i := []] \<and> lh_num_buckets lh' = lh_num_buckets lh"
  using assms
proof (induction "lh_buckets lh ! i" arbitrary: lh gone)
  case Nil
  then have "(lh_buckets lh)[i := []] = lh_buckets lh" using list_update_id [of "lh_buckets lh" i] by simp
  then show ?case using Nil by (subst doall_chain.simps) (simp add: chain_head_def same_table_def flip: Nil(1))
next
  case (Cons it rest)
  let ?lh = "(set_chain i (\<lambda>_. rest) lh)\<lparr>lh_num_items := lh_num_items lh - 1\<rparr>"
  note del = delete_head [OF Cons(3) Cons(4) Cons(5) Cons(2) [symmetric], of m]
  have ok: "lh_ok H C ?lh k" using delete_elements [OF Cons(3) del] by blast
  have lh: "0 < lh_callback_depth ?lh" "i < length (lh_buckets ?lh)" "rest = lh_buckets ?lh ! i" "same_table lh ?lh"
    "lh_num_buckets ?lh = lh_num_buckets lh" "(lh_buckets ?lh)[i := []] = (lh_buckets lh)[i := []]"
    using Cons(4,5) by (simp_all add: set_chain_def same_table_def)
  have "chain_from (it_addr it) (lh_buckets lh ! i) = it # rest" by (simp add: chain_from_def flip: Cons(2))
  then have step: "doall_chain (delete_visited m H C) i (chain_head (lh_buckets lh ! i)) (lh, k, gone) =
      doall_chain (delete_visited m H C) i (chain_head rest) (?lh, k, gone @ [it_data it])"
    using del by (subst doall_chain.simps) (simp add: chain_head_def delete_visited_def flip: Cons(2))
  obtain lh' where "doall_chain (delete_visited m H C) i (chain_head rest) (?lh, k, gone @ [it_data it]) =
        Some (lh', k, (gone @ [it_data it]) @ map it_data rest)"
      "lh_ok H C lh' k" "same_table ?lh lh'" "lh_buckets lh' = (lh_buckets ?lh)[i := []]" "lh_num_buckets lh' = lh_num_buckets ?lh"
    using Cons(1) [OF lh(3) ok lh(1,2), of "gone @ [it_data it]"] unfolding lh(3) [symmetric] by blast
  then show ?case using lh(4-6) same_table_trans [OF lh(4)] unfolding step unfolding Cons(2) [symmetric] by auto
qed

lemma doall_buckets_delete:
  assumes "lh_ok H C lh k" "0 < lh_callback_depth lh" "\<forall>b < i. lh_buckets lh ! b = []" "i \<le> length (lh_buckets lh)"
  shows "\<exists>lh'. doall_buckets (delete_visited m H C) i (lh, k, gone) = Some (lh', k, gone @ map it_data (concat (drop i (lh_buckets lh)))) \<and>
    lh_ok H C lh' k \<and> same_table lh lh' \<and> items lh' = {#}"
  using assms
proof (induction "lh_num_buckets lh - i" arbitrary: i lh gone)
  case 0
  have n: "length (lh_buckets lh) = lh_num_buckets lh" using 0 (2) by (simp add: lh_ok_def lh_shape_def)
  then have "items lh = {#}" using 0 (1,4,5) by (auto simp: items_def in_set_conv_nth)
  then show ?case using 0 n by (subst doall_buckets.simps) (simp add: same_table_def)
next
  case (Suc n)
  have len: "length (lh_buckets lh) = lh_num_buckets lh" using Suc(3) by (simp add: lh_ok_def lh_shape_def)
  then have i: "i < length (lh_buckets lh)" using Suc(2) by simp
  obtain lh1 where c: "doall_chain (delete_visited m H C) i (chain_head (lh_buckets lh ! i)) (lh, k, gone) =
        Some (lh1, k, gone @ map it_data (lh_buckets lh ! i))"
      "lh_ok H C lh1 k" "same_table lh lh1" "lh_buckets lh1 = (lh_buckets lh)[i := []]" "lh_num_buckets lh1 = lh_num_buckets lh"
    using doall_chain_delete [OF Suc(3,4) i, of m gone] by blast
  have "\<forall>b < i + 1. lh_buckets lh1 ! b = []" using Suc(5) c(4) i by (auto simp: less_Suc_eq)
  moreover have "0 < lh_callback_depth lh1" using Suc(4) c(3) by (simp add: same_table_def)
  moreover have "n = lh_num_buckets lh1 - (i + 1)" using Suc(2) c(5) by linarith
  ultimately obtain lh' where r: "doall_buckets (delete_visited m H C) (i + 1) (lh1, k, gone @ map it_data (lh_buckets lh ! i)) =
        Some (lh', k, (gone @ map it_data (lh_buckets lh ! i)) @ map it_data (concat (drop (i + 1) (lh_buckets lh1))))"
      "lh_ok H C lh' k" "same_table lh1 lh'" "items lh' = {#}"
    using Suc(1) [of lh1 "i + 1" "gone @ map it_data (lh_buckets lh ! i)"] c(2,4) i by auto
  have "concat (drop i (lh_buckets lh)) = lh_buckets lh ! i @ concat (drop (i + 1) (lh_buckets lh1))"
    using Cons_nth_drop_Suc [OF i, symmetric] c(4) by simp
  then show ?case
    using r c(1) i len same_table_trans [OF c(3)] by (subst doall_buckets.simps) simp
qed

text \<open>
  C22: the callback of \<open>OPENSSL_lh_doall_arg\<close> may delete the element it is given. The iteration
  still returns and never touches a freed item: each element is deleted exactly once, in
  the order of the chains, and the table ends up empty; the resizing that the deletions call
  for is held back until the iteration is over.
\<close>

theorem lh_doall_delete_empties:
  assumes ok: "lh_ok H C lh k" and depth: "lh_callback_depth lh < UINT_MAX - 1"
  shows "\<exists>lh' k' gone. OPENSSL_lh_doall_arg m fst (delete_visited m H C) (lh, k, []) = Some (lh', (k, gone), k') \<and>
    mset gone = image_mset it_data (items lh) \<and> items lh' = {#} \<and> OPENSSL_lh_num_items lh' = 0 \<and> lh_ok H C lh' k' \<and>
    lh_callback_depth lh' = lh_callback_depth lh"
proof -
  let ?lh = "lh\<lparr>lh_callback_depth := lh_callback_depth lh + 1\<rparr>"
  have ok1: "lh_ok H C ?lh k" using ok by (simp add: lh_ok_def lh_shape_def items_def)
  obtain lh2 where d: "doall_buckets (delete_visited m H C) 0 (?lh, k, []) = Some (lh2, k, map it_data (concat (lh_buckets lh)))"
      "lh_ok H C lh2 k" "same_table ?lh lh2" "items lh2 = {#}"
    using doall_buckets_delete [OF ok1, of 0 m "[]"] by auto
  let ?lh3 = "lh2\<lparr>lh_callback_depth := lh_callback_depth lh2 - 1\<rparr>"
  obtain lh4 k4 where r: "lh_maybe_resize m k ?lh3 = (lh4, k4)" by fastforce
  have shape3: "lh_shape H ?lh3" using d(2) by (simp add: lh_ok_def lh_shape_def)
  have depth2: "lh_callback_depth lh2 = lh_callback_depth lh + 1" using d(3) by (simp add: same_table_def)
  have "OPENSSL_lh_doall_arg m fst (delete_visited m H C) (lh, k, []) = Some (lh4, (k, map it_data (concat (lh_buckets lh))), k4)"
    using d(1) r depth depth2 by (simp add: OPENSSL_lh_doall_arg_def Let_def)
  moreover have "items lh4 = {#}" "lh_num_items lh4 = 0" "lh_callback_depth lh4 = lh_callback_depth lh" "lh_ok H C lh4 k4"
    using lh_maybe_resize_ok [OF shape3 r] d(2,4) depth2 by (auto simp: lh_ok_def items_def items_ok_def)
  moreover have "mset (map it_data (concat (lh_buckets lh))) = image_mset it_data (items lh)" by (simp add: items_def)
  ultimately show ?thesis unfolding OPENSSL_lh_num_items_def by blast
qed

theorem lh_doall_delete_empties_witness:
  "\<exists>lh' k' gone. OPENSSL_lh_doall_arg zero_alloc fst (delete_visited zero_alloc ptr_hash ptr_differ) (new_table, 2, []) = Some (lh', (2, gone), k') \<and>
    OPENSSL_lh_num_items lh' = 0"
proof -
  have "lh_ok ptr_hash ptr_differ new_table 2" using lh_new_ok [OF new_table ptr_functions_ok] by simp
  then show ?thesis
    using lh_doall_delete_empties [of ptr_hash ptr_differ new_table 2 zero_alloc] by (auto simp: new_table_def)
qed

end
