(* ===== verification/Bio.thy ===== *)
theory Bio
  imports Mem
begin

unbundle bit_operations_syntax

text \<open>
  The generic layer of \<open>crypto/bio/bio.c\<close>. The heap holds \<open>BIO\<close> objects by address; what the
  \<open>ptr\<close> field points to belongs to the BIO alone and is stored in it, at the type \<open>'p\<close> the method
  chooses. A BIO method is the functions its table points to, \<open>None\<close> for \<open>NULL\<close>; \<open>'c\<close> is what
  the pointer argument of its control function refers to. Reading returns the bytes stored in
  the caller's buffer. A function whose result is an option is a loop or calls one, and \<open>None\<close> is an iteration
  that never ends or a method called with a null buffer it does not check for.
\<close>

record 'p BIO =
  bio_init :: bool
  bio_shutdown :: int
  bio_flags :: u32
  bio_retry_reason :: int
  bio_num :: int
  bio_ptr :: 'p
  bio_num_read :: nat
  bio_num_write :: nat

record 'p bio_heap =
  bios :: "nat \<Rightarrow> 'p BIO"
  ballocs :: nat

abbreviation upd_bio :: "nat \<Rightarrow> ('p BIO \<Rightarrow> 'p BIO) \<Rightarrow> 'p bio_heap \<Rightarrow> 'p bio_heap" where
  "upd_bio a f h \<equiv> h\<lparr>bios := (bios h)(a := f (bios h a))\<rparr>"

abbreviation upd_ptr :: "nat \<Rightarrow> ('p \<Rightarrow> 'p) \<Rightarrow> 'p bio_heap \<Rightarrow> 'p bio_heap" where
  "upd_ptr a f h \<equiv> upd_bio a (\<lambda>b. b\<lparr>bio_ptr := f (bio_ptr b)\<rparr>) h"

subsection \<open>Flags\<close>

definition BIO_FLAGS_READ :: u32 where "BIO_FLAGS_READ = 1"

definition BIO_FLAGS_WRITE :: u32 where "BIO_FLAGS_WRITE = 2"

definition BIO_FLAGS_IO_SPECIAL :: u32 where "BIO_FLAGS_IO_SPECIAL = 4"

definition BIO_FLAGS_SHOULD_RETRY :: u32 where "BIO_FLAGS_SHOULD_RETRY = 8"

definition BIO_FLAGS_RWS :: u32 where
  "BIO_FLAGS_RWS = BIO_FLAGS_READ OR BIO_FLAGS_WRITE OR BIO_FLAGS_IO_SPECIAL"

definition kRetryFlags :: u32 where
  "kRetryFlags = BIO_FLAGS_RWS OR BIO_FLAGS_SHOULD_RETRY"

definition BIO_set_flags :: "'p BIO \<Rightarrow> u32 \<Rightarrow> 'p BIO" where
  "BIO_set_flags bio flags = bio\<lparr>bio_flags := bio_flags bio OR flags\<rparr>"

definition BIO_test_flags :: "'p BIO \<Rightarrow> u32 \<Rightarrow> u32" where
  "BIO_test_flags bio flags = bio_flags bio AND flags"

definition BIO_should_read :: "'p BIO \<Rightarrow> u32" where
  "BIO_should_read bio = BIO_test_flags bio BIO_FLAGS_READ"

definition BIO_should_write :: "'p BIO \<Rightarrow> u32" where
  "BIO_should_write bio = BIO_test_flags bio BIO_FLAGS_WRITE"

definition BIO_should_retry :: "'p BIO \<Rightarrow> u32" where
  "BIO_should_retry bio = BIO_test_flags bio BIO_FLAGS_SHOULD_RETRY"

definition BIO_clear_flags :: "'p BIO \<Rightarrow> u32 \<Rightarrow> 'p BIO" where
  "BIO_clear_flags bio flags = bio\<lparr>bio_flags := bio_flags bio AND NOT flags\<rparr>"

definition BIO_set_retry_read :: "'p BIO \<Rightarrow> 'p BIO" where
  "BIO_set_retry_read bio = bio\<lparr>bio_flags := bio_flags bio OR (BIO_FLAGS_READ OR BIO_FLAGS_SHOULD_RETRY)\<rparr>"

definition BIO_set_retry_write :: "'p BIO \<Rightarrow> 'p BIO" where
  "BIO_set_retry_write bio = bio\<lparr>bio_flags := bio_flags bio OR (BIO_FLAGS_WRITE OR BIO_FLAGS_SHOULD_RETRY)\<rparr>"

definition BIO_get_retry_flags :: "'p BIO \<Rightarrow> u32" where
  "BIO_get_retry_flags bio = bio_flags bio AND kRetryFlags"

definition BIO_clear_retry_flags :: "'p BIO \<Rightarrow> 'p BIO" where
  "BIO_clear_retry_flags bio = bio\<lparr>bio_flags := bio_flags bio AND NOT kRetryFlags, bio_retry_reason := 0\<rparr>"

subsection \<open>Control commands\<close>

definition BIO_CTRL_RESET :: int where "BIO_CTRL_RESET = 1"

definition BIO_CTRL_EOF :: int where "BIO_CTRL_EOF = 2"

definition BIO_CTRL_GET_CLOSE :: int where "BIO_CTRL_GET_CLOSE = 8"

definition BIO_CTRL_SET_CLOSE :: int where "BIO_CTRL_SET_CLOSE = 9"

definition BIO_CTRL_PENDING :: int where "BIO_CTRL_PENDING = 10"

definition BIO_CTRL_FLUSH :: int where "BIO_CTRL_FLUSH = 11"

definition BIO_CTRL_WPENDING :: int where "BIO_CTRL_WPENDING = 13"

subsection \<open>The generic functions\<close>

record ('p, 'c) bio_method =
  bm_write :: "(nat \<Rightarrow> byte list option \<Rightarrow> nat \<Rightarrow> 'p bio_heap \<Rightarrow> (int \<times> 'p bio_heap) option) option"
  bm_read :: "(nat \<Rightarrow> bool \<Rightarrow> nat \<Rightarrow> 'p bio_heap \<Rightarrow> (int \<times> byte list \<times> 'p bio_heap) option) option"
  bm_gets :: "(nat \<Rightarrow> bool \<Rightarrow> nat \<Rightarrow> 'p bio_heap \<Rightarrow> (int \<times> byte list \<times> 'p bio_heap) option) option"
  bm_ctrl :: "(nat \<Rightarrow> int \<Rightarrow> int \<Rightarrow> 'c option \<Rightarrow> 'p bio_heap \<Rightarrow> int \<times> 'p bio_heap) option"

definition BIO_read :: "('p, 'c) bio_method \<Rightarrow> nat \<Rightarrow> bool \<Rightarrow> int \<Rightarrow> 'p bio_heap \<Rightarrow> (int \<times> byte list \<times> 'p bio_heap) option" where
  "BIO_read meth a buf len h =
     (case bm_read meth of
        None \<Rightarrow> Some (- 2, [], h)
      | Some bread \<Rightarrow>
          if \<not> bio_init (bios h a) then Some (- 2, [], h)
          else if len \<le> 0 then Some (0, [], h)
          else (case bread a buf (nat len) h of
                  None \<Rightarrow> None
                | Some (ret, out, h') \<Rightarrow>
                    Some (ret, out,
                      if ret > 0 then upd_bio a (\<lambda>b. b\<lparr>bio_num_read := (bio_num_read b + nat ret) mod size_mod\<rparr>) h' else h')))"

definition BIO_write :: "('p, 'c) bio_method \<Rightarrow> nat \<Rightarrow> byte list option \<Rightarrow> int \<Rightarrow> 'p bio_heap \<Rightarrow> (int \<times> 'p bio_heap) option" where
  "BIO_write meth a inp inl h =
     (case bm_write meth of
        None \<Rightarrow> Some (- 2, h)
      | Some bwrite \<Rightarrow>
          if \<not> bio_init (bios h a) then Some (- 2, h)
          else if inl \<le> 0 then Some (0, h)
          else (case bwrite a inp (nat inl) h of
                  None \<Rightarrow> None
                | Some (ret, h') \<Rightarrow>
                    Some (ret, if ret > 0 then upd_bio a (\<lambda>b. b\<lparr>bio_num_write := (bio_num_write b + nat ret) mod size_mod\<rparr>) h' else h')))"

partial_function (option) BIO_write_all :: "('p, 'c) bio_method \<Rightarrow> nat \<Rightarrow> byte list \<Rightarrow> nat \<Rightarrow> 'p bio_heap \<Rightarrow> (bool \<times> 'p bio_heap) option" where
  "BIO_write_all meth a data len h =
     (if len > 0
      then Option.bind (BIO_write meth a (Some data) (if len > 2 ^ 31 - 1 then 2 ^ 31 - 1 else int len) h)
             (\<lambda>(ret, h'). if ret \<le> 0 then Some (False, h') else BIO_write_all meth a (drop (nat ret) data) (len - nat ret) h')
      else Some (True, h))"

definition BIO_ctrl :: "('p, 'c) bio_method \<Rightarrow> nat \<Rightarrow> int \<Rightarrow> int \<Rightarrow> 'c option \<Rightarrow> 'p bio_heap \<Rightarrow> int \<times> 'p bio_heap" where
  "BIO_ctrl meth a cmd larg parg h =
     (case bm_ctrl meth of None \<Rightarrow> (- 2, h) | Some ctrl \<Rightarrow> ctrl a cmd larg parg h)"

definition BIO_pending :: "('p, 'c) bio_method \<Rightarrow> nat \<Rightarrow> 'p bio_heap \<Rightarrow> nat" where
  "BIO_pending meth a h = nat (fst (BIO_ctrl meth a BIO_CTRL_PENDING 0 None h))"

definition BIO_wpending :: "('p, 'c) bio_method \<Rightarrow> nat \<Rightarrow> 'p bio_heap \<Rightarrow> nat" where
  "BIO_wpending meth a h = nat (fst (BIO_ctrl meth a BIO_CTRL_WPENDING 0 None h))"

definition BIO_gets :: "('p, 'c) bio_method \<Rightarrow> nat \<Rightarrow> bool \<Rightarrow> int \<Rightarrow> 'p bio_heap \<Rightarrow> (int \<times> byte list \<times> 'p bio_heap) option" where
  "BIO_gets meth a buf len h =
     (case bm_gets meth of
        None \<Rightarrow> Some (- 2, [], h)
      | Some bgets \<Rightarrow>
          if \<not> bio_init (bios h a) then Some (- 2, [], h)
          else if len \<le> 0 then Some (0, [], h)
          else (case bgets a buf (nat len) h of
                  None \<Rightarrow> None
                | Some (ret, out, h') \<Rightarrow>
                    Some (ret, out,
                      if ret > 0 then upd_bio a (\<lambda>b. b\<lparr>bio_num_read := (bio_num_read b + nat ret) mod size_mod\<rparr>) h' else h')))"

definition BIO_puts :: "('p, 'c) bio_method \<Rightarrow> nat \<Rightarrow> byte list \<Rightarrow> 'p bio_heap \<Rightarrow> (int \<times> 'p bio_heap) option" where
  "BIO_puts meth a inp h = BIO_write meth a (Some inp) (signed_take_bit 31 (int (strlen inp))) h"

definition BIO_flush :: "('p, 'c) bio_method \<Rightarrow> nat \<Rightarrow> 'p bio_heap \<Rightarrow> int \<times> 'p bio_heap" where
  "BIO_flush meth a h = BIO_ctrl meth a BIO_CTRL_FLUSH 0 None h"

definition BIO_reset :: "('p, 'c) bio_method \<Rightarrow> nat \<Rightarrow> 'p bio_heap \<Rightarrow> int \<times> 'p bio_heap" where
  "BIO_reset meth a h = BIO_ctrl meth a BIO_CTRL_RESET 0 None h"

definition BIO_eof :: "('p, 'c) bio_method \<Rightarrow> nat \<Rightarrow> 'p bio_heap \<Rightarrow> int \<times> 'p bio_heap" where
  "BIO_eof meth a h = BIO_ctrl meth a BIO_CTRL_EOF 0 None h"

definition BIO_set_close :: "('p, 'c) bio_method \<Rightarrow> nat \<Rightarrow> int \<Rightarrow> 'p bio_heap \<Rightarrow> int \<times> 'p bio_heap" where
  "BIO_set_close meth a close_flag h = BIO_ctrl meth a BIO_CTRL_SET_CLOSE close_flag None h"

partial_function (option) BIO_indent :: "('p, 'c) bio_method \<Rightarrow> nat \<Rightarrow> nat \<Rightarrow> nat \<Rightarrow> 'p bio_heap \<Rightarrow> (bool \<times> 'p bio_heap) option" where
  "BIO_indent meth a indent max_indent h =
     (let n = (if indent > max_indent then max_indent else indent)
      in if n = 0 then Some (True, h)
         else Option.bind (BIO_puts meth a [32, 0] h)
                (\<lambda>(ret, h'). if ret \<noteq> 1 then Some (False, h') else BIO_indent meth a (n - 1) max_indent h'))"

subsection \<open>Reading to the end and reading an element\<close>

text \<open>
  The loops keep the caller's region and the position reached in it; a \<open>size_t\<close> subtraction wraps. A
  buffer handed out comes with the length reported for it.
  \<open>bio_read_full\<close> also returns the value of \<open>*out_eof_on_first_read\<close>.
\<close>

definition INT_MAX :: nat where "INT_MAX = 2 ^ 31 - 1"

definition size_sub :: "nat \<Rightarrow> nat \<Rightarrow> nat" where
  "size_sub x y = (x + size_mod - y) mod size_mod"

partial_function (option) bio_read_full ::
    "('p, 'c) bio_method \<Rightarrow> nat \<Rightarrow> bool \<Rightarrow> byte list \<Rightarrow> nat \<Rightarrow> nat \<Rightarrow> 'p bio_heap \<Rightarrow> (bool \<times> bool \<times> byte list \<times> 'p bio_heap) option" where
  "bio_read_full meth a first_read out pos len h =
     (if len > 0
      then Option.bind (BIO_read meth a True (if len \<le> INT_MAX then int len else int INT_MAX) h)
             (\<lambda>(ret, bs, h').
                if ret \<le> 0 then Some (False, first_read \<and> ret = 0, mem_write pos bs out, h')
                else bio_read_full meth a False (mem_write pos bs out) (pos + nat ret) (size_sub len (nat ret)) h')
      else Some (True, False, out, h))"

definition kChunkSize :: nat where "kChunkSize = 4096"

partial_function (option) read_all_loop ::
    "allocator \<Rightarrow> ('p, 'c) bio_method \<Rightarrow> nat \<Rightarrow> nat \<Rightarrow> byte list \<Rightarrow> nat \<Rightarrow> nat \<Rightarrow> 'p bio_heap \<Rightarrow> ((byte list \<times> nat) option \<times> 'p bio_heap) option" where
  "read_all_loop m meth a max_len out len got h =
     (if got = len then Some (None, h)
      else
        Option.bind (BIO_read meth a True (signed_take_bit 31 (int (size_sub len got))) h)
          (\<lambda>(n, bs, h1).
             let out1 = mem_write got bs out
             in if n = 0 then Some (Some (out1, got), h1)
                else if n = - 1 then Some (None, h1)
                else
                  (let got1 = nat ((int got + n) mod 2 ^ 64)
                   in if len < max_len \<and> size_sub len got1 < kChunkSize div 2
                      then
                        (let len0 = (len + kChunkSize) mod size_mod;
                             len1 = (if len0 < kChunkSize \<or> len0 > max_len then max_len else len0);
                             h2 = h1\<lparr>ballocs := ballocs h1 + 1\<rparr>
                         in case OPENSSL_realloc m (ballocs h1) (Some out1) len1 of
                              None \<Rightarrow> Some (None, h2)
                            | Some new_buf \<Rightarrow> read_all_loop m meth a max_len new_buf len1 got1 h2)
                      else read_all_loop m meth a max_len out1 len got1 h1)))"

definition bio_read_all ::
    "allocator \<Rightarrow> ('p, 'c) bio_method \<Rightarrow> nat \<Rightarrow> byte list \<Rightarrow> nat \<Rightarrow> 'p bio_heap \<Rightarrow> ((byte list \<times> nat) option \<times> 'p bio_heap) option" where
  "bio_read_all m meth a prefix max_len h =
     (let prefix_len = length prefix;
          len0 = (prefix_len + kChunkSize) mod size_mod;
          len = (if len0 > max_len then max_len else len0);
          h1 = h\<lparr>ballocs := ballocs h + 1\<rparr>
      in if len < prefix_len then Some (None, h)
         else (case OPENSSL_malloc m (ballocs h) len of
                 None \<Rightarrow> Some (None, h1)
               | Some out \<Rightarrow> read_all_loop m meth a max_len (mem_write 0 prefix out) len prefix_len h1))"

datatype asn1_read_error = ASN1_R_HEADER_TOO_LONG | ASN1_R_NOT_ENOUGH_DATA | ASN1_R_DECODE_ERROR | ASN1_R_TOO_LONG | ERR_R_MALLOC_FAILURE

text \<open>The element with its header read: room for all of it, then the contents.\<close>

definition read_asn1_body ::
    "allocator \<Rightarrow> ('p, 'c) bio_method \<Rightarrow> nat \<Rightarrow> nat \<Rightarrow> byte list \<Rightarrow> nat \<Rightarrow> nat \<Rightarrow> 'p bio_heap \<Rightarrow> ((asn1_read_error + byte list \<times> nat) \<times> 'p bio_heap) option" where
  "read_asn1_body m meth a max_len header header_len len h =
     (if (len + header_len) mod size_mod < len \<or> (len + header_len) mod size_mod > max_len \<or> len > INT_MAX
      then Some (Inl ASN1_R_TOO_LONG, h)
      else
        (let h1 = h\<lparr>ballocs := ballocs h + 1\<rparr>
         in case OPENSSL_malloc m (ballocs h) (len + header_len) of
              None \<Rightarrow> Some (Inl ERR_R_MALLOC_FAILURE, h1)
            | Some out \<Rightarrow>
                map_option (\<lambda>(ok, _, out', h2). (if ok then Inr (out', len + header_len) else Inl ASN1_R_NOT_ENOUGH_DATA, h2))
                  (bio_read_full meth a True (mem_write 0 (take header_len header) out) header_len len h1)))"

definition header_len32 :: "byte list \<Rightarrow> nat \<Rightarrow> u32" where
  "header_len32 header num_bytes = foldl (\<lambda>l i. push_bit 8 l OR ucast (header ! (2 + i))) 0 [0..<num_bytes]"

text \<open>\<open>header\<close> is the initial contents of the header array on the stack, six bytes.\<close>

definition BIO_read_asn1 ::
    "allocator \<Rightarrow> ('p, 'c) bio_method \<Rightarrow> nat \<Rightarrow> byte list \<Rightarrow> nat \<Rightarrow> 'p bio_heap \<Rightarrow> ((asn1_read_error + byte list \<times> nat) \<times> 'p bio_heap) option" where
  "BIO_read_asn1 m meth a header max_len h =
     (case bio_read_full meth a True header 0 2 h of
        None \<Rightarrow> None
      | Some (False, eof, _, h1) \<Rightarrow> Some (Inl (if eof then ASN1_R_HEADER_TOO_LONG else ASN1_R_NOT_ENOUGH_DATA), h1)
      | Some (True, _, hdr, h1) \<Rightarrow>
          (let tag = hdr ! 0; length_byte = hdr ! 1; num_bytes = unat (length_byte AND 0x7f)
           in if tag AND 0x1f = 0x1f then Some (Inl ASN1_R_DECODE_ERROR, h1)
              else if length_byte AND 0x80 = 0 then read_asn1_body m meth a max_len hdr 2 (unat length_byte) h1
              else if tag AND 0x20 \<noteq> 0 \<and> num_bytes = 0
              then map_option (\<lambda>(r, h2). (case r of None \<Rightarrow> Inl ASN1_R_NOT_ENOUGH_DATA | Some out \<Rightarrow> Inr out, h2))
                     (bio_read_all m meth a (take 2 hdr) max_len h1)
              else if num_bytes = 0 \<or> num_bytes > 4 then Some (Inl ASN1_R_DECODE_ERROR, h1)
              else
                (case bio_read_full meth a True hdr 2 num_bytes h1 of
                   None \<Rightarrow> None
                 | Some (False, _, _, h2) \<Rightarrow> Some (Inl ASN1_R_NOT_ENOUGH_DATA, h2)
                 | Some (True, _, hdr2, h2) \<Rightarrow>
                     (let len32 = header_len32 hdr2 num_bytes
                      in if len32 < 128 then Some (Inl ASN1_R_DECODE_ERROR, h2)
                         else if drop_bit ((num_bytes - 1) * 8) len32 = 0 then Some (Inl ASN1_R_DECODE_ERROR, h2)
                         else read_asn1_body m meth a max_len hdr2 (2 + num_bytes) (unat len32) h2))))"

definition BIO_should_io_special :: "'p BIO \<Rightarrow> u32" where
  "BIO_should_io_special bio = BIO_test_flags bio BIO_FLAGS_IO_SPECIAL"

definition BIO_get_retry_reason :: "'p BIO \<Rightarrow> int" where
  "BIO_get_retry_reason bio = bio_retry_reason bio"

definition BIO_set_retry_reason :: "'p BIO \<Rightarrow> int \<Rightarrow> 'p BIO" where
  "BIO_set_retry_reason bio reason = bio\<lparr>bio_retry_reason := reason\<rparr>"

definition BIO_set_retry_special :: "'p BIO \<Rightarrow> 'p BIO" where
  "BIO_set_retry_special bio = bio\<lparr>bio_flags := bio_flags bio OR (BIO_FLAGS_READ OR BIO_FLAGS_IO_SPECIAL)\<rparr>"

definition BIO_ctrl_pending :: "('p, 'c) bio_method \<Rightarrow> nat \<Rightarrow> 'p bio_heap \<Rightarrow> nat" where
  "BIO_ctrl_pending meth a h = BIO_pending meth a h"

definition BIO_number_read :: "'p BIO \<Rightarrow> nat" where
  "BIO_number_read bio = bio_num_read bio"

definition BIO_number_written :: "'p BIO \<Rightarrow> nat" where
  "BIO_number_written bio = bio_num_write bio"

definition sizeof_BIO :: nat where
  "sizeof_BIO = 80"

subsection \<open>The contract of a byte stream\<close>

text \<open>
  What a client of a BIO relies on: a write accepts a prefix of its data, possibly none of it, and appends
  it to the contents; a read takes bytes off the front. Nothing is lost, duplicated or
  reordered by any sequence of such operations. A bounded queue makes the accepted prefix
  precise: it is cut to the room that is left.
\<close>

datatype pipe_op = Feed "byte list" | Drain nat

fun pipe_run :: "('s \<Rightarrow> byte list \<Rightarrow> ('s \<times> nat) option) \<Rightarrow> ('s \<Rightarrow> nat \<Rightarrow> ('s \<times> byte list) option) \<Rightarrow> 's \<Rightarrow> pipe_op list \<Rightarrow>
    ('s \<times> byte list \<times> byte list) option" where
  "pipe_run put get s [] = Some (s, [], [])"
| "pipe_run put get s (Feed data # ops) =
     (case put s data of
        None \<Rightarrow> None
      | Some (s', k) \<Rightarrow> map_option (\<lambda>(t, fed, drained). (t, take k data @ fed, drained)) (pipe_run put get s' ops))"
| "pipe_run put get s (Drain n # ops) =
     (case get s n of
        None \<Rightarrow> None
      | Some (s', out) \<Rightarrow> map_option (\<lambda>(t, fed, drained). (t, fed, out @ drained)) (pipe_run put get s' ops))"

locale byte_stream =
  fixes ok :: "'s \<Rightarrow> bool" and contents :: "'s \<Rightarrow> byte list"
    and put :: "'s \<Rightarrow> byte list \<Rightarrow> ('s \<times> nat) option" and get :: "'s \<Rightarrow> nat \<Rightarrow> ('s \<times> byte list) option"
  assumes put: "ok s \<Longrightarrow> \<exists>s' k. put s data = Some (s', k) \<and> ok s' \<and> contents s' = contents s @ take k data"
    and get: "ok s \<Longrightarrow> \<exists>s'. get s n = Some (s', take n (contents s)) \<and> ok s' \<and> contents s' = drop n (contents s)"
begin

lemma run_conserves: "ok s \<Longrightarrow> \<exists>t fed drained. pipe_run put get s ops = Some (t, fed, drained) \<and> ok t \<and> drained @ contents t = contents s @ fed"
proof (induction ops arbitrary: s)
  case (Cons a ops)
  show ?case
  proof (cases a)
    case (Feed data)
    obtain s' k where "put s data = Some (s', k)" "ok s'" "contents s' = contents s @ take k data"
      using put [OF Cons(2)] by blast
    then show ?thesis using Cons(1) [of s'] Feed by auto
  next
    case (Drain n)
    obtain s' where "get s n = Some (s', take n (contents s))" "ok s'" "contents s' = drop n (contents s)"
      using get [OF Cons(2)] by blast
    then show ?thesis using Cons(1) [of s'] Drain by auto
  qed
qed simp

end

locale byte_queue =
  fixes ok :: "'s \<Rightarrow> bool" and contents :: "'s \<Rightarrow> byte list" and room :: "'s \<Rightarrow> nat"
    and put :: "'s \<Rightarrow> byte list \<Rightarrow> ('s \<times> nat) option" and get :: "'s \<Rightarrow> nat \<Rightarrow> ('s \<times> byte list) option"
  assumes put_room: "ok s \<Longrightarrow> \<exists>s'. put s data = Some (s', min (length data) (room s)) \<and> ok s' \<and>
      contents s' = contents s @ take (room s) data"
    and get_front: "ok s \<Longrightarrow> \<exists>s'. get s n = Some (s', take n (contents s)) \<and> ok s' \<and> contents s' = drop n (contents s)"

sublocale byte_queue \<subseteq> byte_stream ok contents put get
proof unfold_locales
  fix s and data :: "byte list"
  assume "ok s"
  then obtain s' where "put s data = Some (s', min (length data) (room s))" "ok s'" "contents s' = contents s @ take (room s) data"
    using put_room by blast
  then show "\<exists>s' k. put s data = Some (s', k) \<and> ok s' \<and> contents s' = contents s @ take k data"
    by (intro exI [of _ s'] exI [of _ "min (length data) (room s)"]) (simp add: min_def)
qed (rule get_front)

end
