(* ===== verification/Bio_Pair.thy ===== *)
theory Bio_Pair
  imports Bio
begin

unbundle bit_operations_syntax

text \<open>
  BIO pairs: the two connected ring buffers of \<open>crypto/bio/pair.c\<close>. The ring loops are partial functions
  whose \<open>None\<close> is an iteration that never ends.
\<close>

record bio_bio_st =
  bb_peer :: "nat option"
  bb_closed :: bool
  bb_len :: nat
  bb_offset :: nat
  bb_size :: nat
  bb_buf :: "byte list option"
  bb_request :: nat

type_synonym pair_heap = "bio_bio_st bio_heap"

subsection \<open>The ring buffer\<close>

definition sizeof_bio_bio :: nat where
  "sizeof_bio_bio = 56"

definition bio_new :: "allocator \<Rightarrow> nat \<Rightarrow> pair_heap \<Rightarrow> bool \<times> pair_heap" where
  "bio_new m a h =
     (case OPENSSL_malloc m (ballocs h) sizeof_bio_bio of
        None \<Rightarrow> (False, h\<lparr>ballocs := ballocs h + 1\<rparr>)
      | Some _ \<Rightarrow>
          (True, upd_ptr a (\<lambda>_. \<lparr>bb_peer = None, bb_closed = False, bb_len = 0, bb_offset = 0, bb_size = 17 * 1024,
                              bb_buf = None, bb_request = 0\<rparr>) (h\<lparr>ballocs := ballocs h + 1\<rparr>)))"

definition bio_destroy_pair :: "nat \<Rightarrow> pair_heap \<Rightarrow> pair_heap" where
  "bio_destroy_pair a h =
     (case bb_peer (bio_ptr (bios h a)) of
        None \<Rightarrow> h
      | Some p \<Rightarrow>
          (let reset = (\<lambda>b. b\<lparr>bio_init := False, bio_ptr := (bio_ptr b)\<lparr>bb_peer := None, bb_len := 0, bb_offset := 0\<rparr>\<rparr>)
           in upd_bio a reset (upd_bio p reset h)))"

text \<open>One copy out of the ring, at most up to its end, and one into it.\<close>

definition ring_read_chunk :: "bio_bio_st \<Rightarrow> nat \<Rightarrow> nat" where
  "ring_read_chunk b rest = (if bb_offset b + rest \<le> bb_size b then rest else bb_size b - bb_offset b)"

definition ring_advance :: "bio_bio_st \<Rightarrow> nat \<Rightarrow> bio_bio_st" where
  "ring_advance b chunk =
     (let b1 = b\<lparr>bb_len := bb_len b - chunk\<rparr>
      in if bb_len b1 \<noteq> 0
         then b1\<lparr>bb_offset := (if bb_offset b1 + chunk = bb_size b1 then 0 else bb_offset b1 + chunk)\<rparr>
         else b1\<lparr>bb_offset := 0\<rparr>)"

partial_function (option) ring_read_loop :: "bio_bio_st \<Rightarrow> nat \<Rightarrow> byte list \<Rightarrow> (bio_bio_st \<times> byte list) option" where
  "ring_read_loop b rest out =
     (let chunk = ring_read_chunk b rest;
          out' = out @ take chunk (drop (bb_offset b) (the (bb_buf b)));
          b' = ring_advance b chunk
      in if rest - chunk \<noteq> 0 then ring_read_loop b' (rest - chunk) out' else Some (b', out'))"

definition ring_write_offset :: "bio_bio_st \<Rightarrow> nat" where
  "ring_write_offset b =
     (if bb_offset b + bb_len b \<ge> bb_size b then bb_offset b + bb_len b - bb_size b else bb_offset b + bb_len b)"

partial_function (option) ring_write_loop :: "bio_bio_st \<Rightarrow> byte list \<Rightarrow> nat \<Rightarrow> bio_bio_st option" where
  "ring_write_loop b data rest =
     (let write_offset = ring_write_offset b;
          chunk = (if write_offset + rest \<le> bb_size b then rest else bb_size b - write_offset);
          b' = b\<lparr>bb_buf := map_option (mem_write write_offset (take chunk data)) (bb_buf b), bb_len := bb_len b + chunk\<rparr>
      in if rest - chunk \<noteq> 0 then ring_write_loop b' (drop chunk data) (rest - chunk) else Some b')"

subsection \<open>The BIO method\<close>

text \<open>
  Return value, bytes stored in the caller's buffer and the heap. \<open>buf\<close> says whether the
  caller's pointer is not \<open>NULL\<close>.
\<close>

definition bio_read :: "nat \<Rightarrow> bool \<Rightarrow> nat \<Rightarrow> pair_heap \<Rightarrow> (int \<times> byte list \<times> pair_heap) option" where
  "bio_read a buf n h0 =
     (let h = upd_bio a BIO_clear_retry_flags h0
      in if \<not> bio_init (bios h a) then Some (0, [], h)
         else
           (let p = the (bb_peer (bio_ptr (bios h a)));
                h1 = upd_ptr p (\<lambda>b. b\<lparr>bb_request := 0\<rparr>) h;
                peer_b = bio_ptr (bios h1 p)
            in if \<not> buf \<or> n = 0 then Some (0, [], h1)
               else if bb_len peer_b = 0 then
                 (if bb_closed peer_b then Some (0, [], h1)
                  else Some (- 1, [], upd_ptr p (\<lambda>b. b\<lparr>bb_request := (if n \<le> bb_size b then n else bb_size b)\<rparr>)
                                        (upd_bio a BIO_set_retry_read h1)))
               else
                 (let n' = (if bb_len peer_b < n then bb_len peer_b else n)
                  in case ring_read_loop peer_b n' [] of
                       None \<Rightarrow> None
                     | Some (b', out) \<Rightarrow> Some (int n', out, upd_ptr p (\<lambda>_. b') h1))))"

definition bio_write :: "nat \<Rightarrow> byte list option \<Rightarrow> nat \<Rightarrow> pair_heap \<Rightarrow> (int \<times> pair_heap) option" where
  "bio_write a buf n h0 =
     (let h = upd_bio a BIO_clear_retry_flags h0
      in case buf of
           None \<Rightarrow> Some (0, h)
         | Some data \<Rightarrow>
             if \<not> bio_init (bios h a) \<or> n = 0 then Some (0, h)
             else
               (let h1 = upd_ptr a (\<lambda>b. b\<lparr>bb_request := 0\<rparr>) h;
                    b = bio_ptr (bios h1 a)
                in if bb_closed b then Some (- 1, h1)
                   else if bb_len b = bb_size b then Some (- 1, upd_bio a BIO_set_retry_write h1)
                   else
                     (let n' = (if n > bb_size b - bb_len b then bb_size b - bb_len b else n)
                      in case ring_write_loop b data n' of
                           None \<Rightarrow> None
                         | Some b' \<Rightarrow> Some (int n', upd_ptr a (\<lambda>_. b') h1))))"

text \<open>One end of \<open>bio_make_pair\<close>: it gets its buffer unless it has one already.\<close>

definition make_buf :: "allocator \<Rightarrow> nat \<Rightarrow> nat \<Rightarrow> pair_heap \<Rightarrow> bool \<times> pair_heap" where
  "make_buf m a writebuf_len h =
     (if bb_buf (bio_ptr (bios h a)) = None
      then (let h1 = (if writebuf_len \<noteq> 0 then upd_ptr a (\<lambda>b. b\<lparr>bb_size := writebuf_len\<rparr>) h else h)
            in case OPENSSL_malloc m (ballocs h1) (bb_size (bio_ptr (bios h1 a))) of
                 None \<Rightarrow> (False, h1\<lparr>ballocs := ballocs h1 + 1\<rparr>)
               | Some buf \<Rightarrow>
                   (True, upd_ptr a (\<lambda>b. b\<lparr>bb_buf := Some buf, bb_len := 0, bb_offset := 0\<rparr>) (h1\<lparr>ballocs := ballocs h1 + 1\<rparr>)))
      else (True, h))"

definition bio_make_pair :: "allocator \<Rightarrow> nat \<Rightarrow> nat \<Rightarrow> nat \<Rightarrow> nat \<Rightarrow> pair_heap \<Rightarrow> bool \<times> pair_heap" where
  "bio_make_pair m a1 a2 writebuf1_len writebuf2_len h =
     (if bb_peer (bio_ptr (bios h a1)) \<noteq> None \<or> bb_peer (bio_ptr (bios h a2)) \<noteq> None then (False, h)
      else (case make_buf m a1 writebuf1_len h of
              (False, h1) \<Rightarrow> (False, h1)
            | (True, h1) \<Rightarrow>
                (case make_buf m a2 writebuf2_len h1 of
                   (False, h2) \<Rightarrow> (False, h2)
                 | (True, h2) \<Rightarrow>
                     (let link = (\<lambda>p b. b\<lparr>bb_peer := Some p, bb_closed := False, bb_request := 0\<rparr>);
                          h3 = upd_ptr a1 (link a2) h2;
                          h4 = upd_ptr a2 (link a1) h3
                      in (True, upd_bio a2 (\<lambda>b. b\<lparr>bio_init := True\<rparr>) (upd_bio a1 (\<lambda>b. b\<lparr>bio_init := True\<rparr>) h4))))))"

definition BIO_C_GET_WRITE_BUF_SIZE :: int where "BIO_C_GET_WRITE_BUF_SIZE = 137"

definition BIO_C_GET_WRITE_GUARANTEE :: int where "BIO_C_GET_WRITE_GUARANTEE = 140"

definition BIO_C_GET_READ_REQUEST :: int where "BIO_C_GET_READ_REQUEST = 141"

definition BIO_C_SHUTDOWN_WR :: int where "BIO_C_SHUTDOWN_WR = 142"

definition BIO_C_RESET_READ_REQUEST :: int where "BIO_C_RESET_READ_REQUEST = 147"

definition bio_ctrl :: "nat \<Rightarrow> int \<Rightarrow> int \<Rightarrow> nat option \<Rightarrow> pair_heap \<Rightarrow> int \<times> pair_heap" where
  "bio_ctrl a cmd num ptr h =
     (let b = bio_ptr (bios h a)
      in if cmd = BIO_C_GET_WRITE_BUF_SIZE then (int (bb_size b), h)
         else if cmd = BIO_C_GET_WRITE_GUARANTEE
         then (if bb_peer b = None \<or> bb_closed b then 0 else int (bb_size b) - int (bb_len b), h)
         else if cmd = BIO_C_GET_READ_REQUEST then (int (bb_request b), h)
         else if cmd = BIO_C_RESET_READ_REQUEST then (1, upd_ptr a (\<lambda>b. b\<lparr>bb_request := 0\<rparr>) h)
         else if cmd = BIO_C_SHUTDOWN_WR then (1, upd_ptr a (\<lambda>b. b\<lparr>bb_closed := True\<rparr>) h)
         else if cmd = BIO_CTRL_GET_CLOSE then (bio_shutdown (bios h a), h)
         else if cmd = BIO_CTRL_SET_CLOSE then (1, upd_bio a (\<lambda>b. b\<lparr>bio_shutdown := signed_take_bit 31 num\<rparr>) h)
         else if cmd = BIO_CTRL_PENDING
         then (case bb_peer b of None \<Rightarrow> 0 | Some p \<Rightarrow> int (bb_len (bio_ptr (bios h p))), h)
         else if cmd = BIO_CTRL_WPENDING then (if bb_buf b \<noteq> None then int (bb_len b) else 0, h)
         else if cmd = BIO_CTRL_FLUSH then (1, h)
         else if cmd = BIO_CTRL_EOF
         then (case ptr of
                 None \<Rightarrow> 1
               | Some other \<Rightarrow>
                   (if bb_len (bio_ptr (bios h other)) = 0 \<and> bb_closed (bio_ptr (bios h other)) then 1 else 0), h)
         else (0, h))"

subsection \<open>The method table and its callers\<close>

definition methods_biop :: "(bio_bio_st, nat) bio_method" where
  "methods_biop = \<lparr>bm_write = Some bio_write, bm_read = Some bio_read, bm_gets = None, bm_ctrl = Some bio_ctrl\<rparr>"

definition BIO_ctrl_get_read_request :: "nat \<Rightarrow> pair_heap \<Rightarrow> int" where
  "BIO_ctrl_get_read_request a h = fst (BIO_ctrl methods_biop a BIO_C_GET_READ_REQUEST 0 None h)"

definition BIO_ctrl_get_write_guarantee :: "nat \<Rightarrow> pair_heap \<Rightarrow> int" where
  "BIO_ctrl_get_write_guarantee a h = fst (BIO_ctrl methods_biop a BIO_C_GET_WRITE_GUARANTEE 0 None h)"

definition BIO_shutdown_wr :: "nat \<Rightarrow> pair_heap \<Rightarrow> int \<times> pair_heap" where
  "BIO_shutdown_wr a h = BIO_ctrl methods_biop a BIO_C_SHUTDOWN_WR 0 None h"

text \<open>\<open>BIO_new\<close> for the pair method, at the address \<open>a\<close> the allocation returns.\<close>

definition BIO_new :: "allocator \<Rightarrow> nat \<Rightarrow> pair_heap \<Rightarrow> bool \<times> pair_heap" where
  "BIO_new m a h =
     (case OPENSSL_malloc m (ballocs h) sizeof_BIO of
        None \<Rightarrow> (False, h\<lparr>ballocs := ballocs h + 1\<rparr>)
      | Some _ \<Rightarrow>
          bio_new m a
            (upd_bio a (\<lambda>b. b\<lparr>bio_init := False, bio_shutdown := 1, bio_flags := 0, bio_retry_reason := 0, bio_num := 0, bio_num_read := 0, bio_num_write := 0\<rparr>)
               (h\<lparr>ballocs := ballocs h + 1\<rparr>)))"

definition BIO_new_bio_pair :: "allocator \<Rightarrow> nat \<Rightarrow> nat \<Rightarrow> nat \<Rightarrow> nat \<Rightarrow> pair_heap \<Rightarrow> bool \<times> pair_heap" where
  "BIO_new_bio_pair m a1 writebuf1_len a2 writebuf2_len h =
     (let (ok1, h1) = BIO_new m a1 h; (ok2, h2) = BIO_new m a2 h1
      in if \<not> ok1 \<or> \<not> ok2 then (False, h2) else bio_make_pair m a1 a2 writebuf1_len writebuf2_len h2)"

end
