(* ===== verification/Bio_Pair_Properties.thy ===== *)
theory Bio_Pair_Properties
  imports Bio_Pair
begin

unbundle bit_operations_syntax

text \<open>
  The ring buffer as a bounded queue of bytes, and the pair as two reliable byte streams:
  whatever the interleaving of reads and writes at the two ends, the bytes read at one end are
  a prefix of the bytes accepted at the other.
\<close>

subsection \<open>The ring as a queue\<close>

definition ring_ok :: "bio_bio_st \<Rightarrow> bool" where
  "ring_ok b \<longleftrightarrow> (case bb_buf b of None \<Rightarrow> False | Some w \<Rightarrow> length w = bb_size b) \<and>
     bb_len b \<le> bb_size b \<and> bb_offset b < bb_size b"

definition ring_data :: "bio_bio_st \<Rightarrow> byte list" where
  "ring_data b = map (\<lambda>i. the (bb_buf b) ! ((bb_offset b + i) mod bb_size b)) [0..<bb_len b]"

definition ring_room :: "bio_bio_st \<Rightarrow> nat" where
  "ring_room b = bb_size b - bb_len b"

text \<open>What the data loops leave alone.\<close>

definition ring_same :: "bio_bio_st \<Rightarrow> bio_bio_st \<Rightarrow> bool" where
  "ring_same b b' \<longleftrightarrow> bb_peer b' = bb_peer b \<and> bb_closed b' = bb_closed b \<and> bb_size b' = bb_size b \<and> bb_request b' = bb_request b"

lemma ring_same_refl [simp]: "ring_same b b"
  by (simp add: ring_same_def)

lemma ring_same_trans: "ring_same a b \<Longrightarrow> ring_same b c \<Longrightarrow> ring_same a c"
  by (simp add: ring_same_def)

lemma length_ring_data [simp]: "length (ring_data b) = bb_len b"
  by (simp add: ring_data_def)

lemma mod_wrap: "x < s \<Longrightarrow> y \<le> s \<Longrightarrow> (x + y) mod s = (if x + y < s then x + y else x + y - s)" for x y s :: nat
  by (auto simp: mod_if)

lemma ring_advance_ok:
  assumes ok: "ring_ok b" and c: "c \<le> bb_len b" "bb_offset b + c \<le> bb_size b"
  shows "ring_ok (ring_advance b c)" "ring_data (ring_advance b c) = drop c (ring_data b)" "ring_same b (ring_advance b c)"
    "bb_len (ring_advance b c) = bb_len b - c" "take c (drop (bb_offset b) (the (bb_buf b))) = take c (ring_data b)"
proof -
  have off: "bb_offset b < bb_size b" using ok by (simp add: ring_ok_def)
  have offset: "bb_offset (ring_advance b c) = (if bb_len b - c = 0 then 0 else (bb_offset b + c) mod bb_size b)"
    using c(2) mod_wrap [OF off, of c] by (auto simp: ring_advance_def Let_def)
  have other: "bb_len (ring_advance b c) = bb_len b - c" "bb_size (ring_advance b c) = bb_size b" "bb_buf (ring_advance b c) = bb_buf b"
    by (simp_all add: ring_advance_def Let_def)
  then show "bb_len (ring_advance b c) = bb_len b - c" by simp
  show "ring_ok (ring_advance b c)" using ok c(1) off unfolding ring_ok_def other offset by auto
  show "ring_same b (ring_advance b c)" by (simp add: ring_same_def ring_advance_def Let_def)
  show "ring_data (ring_advance b c) = drop c (ring_data b)"
    unfolding ring_data_def other offset drop_map drop_upt
    by (rule nth_equalityI) (simp_all add: mod_simps add.assoc)
  show "take c (drop (bb_offset b) (the (bb_buf b))) = take c (ring_data b)"
    using ok c by (intro nth_equalityI) (auto simp: ring_ok_def ring_data_def split: option.splits)
qed

text \<open>The loops return after one or two rounds.\<close>

lemma ring_read_loop_ok:
  assumes ok: "ring_ok b" and n: "0 < n" "n \<le> bb_len b"
  shows "\<exists>b'. ring_read_loop b n out = Some (b', out @ take n (ring_data b)) \<and> ring_ok b' \<and>
    ring_data b' = drop n (ring_data b) \<and> ring_same b b'"
  using assms
proof (induction n arbitrary: b out rule: less_induct)
  case (less n)
  define c where "c = ring_read_chunk b n"
  have c: "0 < c" "c \<le> n" "bb_offset b + c \<le> bb_size b"
    using less.prems by (auto simp: c_def ring_read_chunk_def ring_ok_def)
  note adv = ring_advance_ok [OF less.prems(1) _ c(3)]
  have cl: "c \<le> bb_len b" using c(2) less.prems(3) by simp
  have step: "ring_read_loop b n out = (if n - c \<noteq> 0 then ring_read_loop (ring_advance b c) (n - c) (out @ take c (ring_data b))
      else Some (ring_advance b c, out @ take c (ring_data b)))"
    by (subst ring_read_loop.simps) (simp add: Let_def c_def [symmetric] adv(5) [OF cl])
  show ?case
  proof (cases "n = c")
    case True
    then show ?thesis using step adv [OF cl] by simp
  next
    case False
    then have rest: "n - c < n" "0 < n - c" "n - c \<le> bb_len (ring_advance b c)" using c cl less.prems(3) adv(4) [OF cl] by simp_all
    have "take c (ring_data b) @ take (n - c) (drop c (ring_data b)) = take n (ring_data b)"
      using c(2) by (simp flip: take_add)
    moreover have "drop (n - c) (drop c (ring_data b)) = drop n (ring_data b)" using c(2) by simp
    ultimately show ?thesis
      using less.IH [OF rest(1) adv(1) [OF cl] rest(2,3), of "out @ take c (ring_data b)"] step rest(2)
        ring_same_trans [OF adv(3) [OF cl]] unfolding adv(2) [OF cl] by auto
  qed
qed

lemma ring_put_ok:
  assumes ok: "ring_ok b" and c: "ring_write_offset b + c \<le> bb_size b" "bb_len b + c \<le> bb_size b" "c \<le> length data"
  defines "b' \<equiv> b\<lparr>bb_buf := map_option (mem_write (ring_write_offset b) (take c data)) (bb_buf b), bb_len := bb_len b + c\<rparr>"
  shows "ring_ok b'" "ring_data b' = ring_data b @ take c data" "ring_same b b'"
proof -
  obtain w where w: "bb_buf b = Some w" "length w = bb_size b" using ok by (auto simp: ring_ok_def split: option.splits)
  define s where "s = bb_size b"
  define off where "off = bb_offset b"
  define l where "l = bb_len b"
  have lt: "off < s" "l \<le> s" "l + c \<le> s" using ok c(2) by (auto simp: ring_ok_def s_def off_def l_def)
  have wo: "ring_write_offset b = (off + l) mod s"
    using mod_wrap [OF lt(1,2)] by (simp add: ring_write_offset_def s_def off_def l_def)
  have len: "length (mem_write (ring_write_offset b) (take c data) w) = s" using c w by (simp add: length_mem_write s_def)
  show "ring_ok b'" using ok c w len by (auto simp: ring_ok_def b'_def s_def)
  show "ring_same b b'" by (simp add: ring_same_def b'_def)
  have nth: "mem_write p xs w ! i = (if p \<le> i \<and> i < p + length xs then xs ! (i - p) else w ! i)"
    if "p + length xs \<le> length w" "i < length w" for p xs i
    using that by (auto simp: mem_write_def nth_append)
  show "ring_data b' = ring_data b @ take c data"
  proof (rule nth_equalityI)
    show "length (ring_data b') = length (ring_data b @ take c data)" using c(3) by (simp add: b'_def)
    fix i
    assume "i < length (ring_data b')"
    then have i: "i < l + c" by (simp add: b'_def l_def)
    have "ring_data b' ! i = mem_write (ring_write_offset b) (take c data) w ! ((off + i) mod s)"
      using i by (simp add: ring_data_def b'_def w off_def s_def l_def)
    also have "\<dots> = (if i < l then w ! ((off + i) mod s) else data ! (i - l))"
    proof -
      have m: "(off + i) mod s = (if off + i < s then off + i else off + i - s)" using mod_wrap [OF lt(1), of i] i lt(3) by simp
      have p: "(off + l) mod s = (if off + l < s then off + l else off + l - s)" using mod_wrap [OF lt(1,2)] .
      have b1: "(off + l) mod s + length (take c data) \<le> length w" "(off + i) mod s < length w"
        using c w(2) wo lt(1) by (auto simp: s_def)
      show ?thesis
        unfolding wo nth [OF b1] using i lt c(1,3) unfolding wo unfolding m p by (auto simp: s_def [symmetric] split: if_splits)
    qed
    also have "\<dots> = (ring_data b @ take c data) ! i"
      using i by (auto simp: nth_append ring_data_def w off_def s_def l_def)
    finally show "ring_data b' ! i = (ring_data b @ take c data) ! i" .
  qed
qed

lemma ring_write_loop_ok:
  assumes "ring_ok b" "0 < n" "n \<le> ring_room b" "n \<le> length data"
  shows "\<exists>b'. ring_write_loop b data n = Some b' \<and> ring_ok b' \<and> ring_data b' = ring_data b @ take n data \<and> ring_same b b'"
  using assms
proof (induction n arbitrary: b data rule: less_induct)
  case (less n)
  define c where "c = (if ring_write_offset b + n \<le> bb_size b then n else bb_size b - ring_write_offset b)"
  let ?b = "b\<lparr>bb_buf := map_option (mem_write (ring_write_offset b) (take c data)) (bb_buf b), bb_len := bb_len b + c\<rparr>"
  have wo: "ring_write_offset b < bb_size b" using less.prems(1-3) by (auto simp: ring_ok_def ring_write_offset_def ring_room_def)
  have c: "0 < c" "c \<le> n" "ring_write_offset b + c \<le> bb_size b" using less.prems(2) wo by (auto simp: c_def)
  have room: "bb_len b + c \<le> bb_size b" "c \<le> length data"
    using c(2) less.prems(1,3,4) by (auto simp: ring_room_def ring_ok_def)
  note put = ring_put_ok [OF less.prems(1) c(3) room]
  have step: "ring_write_loop b data n = (if n - c \<noteq> 0 then ring_write_loop ?b (drop c data) (n - c) else Some ?b)"
    by (subst ring_write_loop.simps) (simp add: Let_def c_def [symmetric])
  show ?case
  proof (cases "n = c")
    case True
    then show ?thesis using step put by simp
  next
    case False
    have rest: "n - c < n" "0 < n - c" "n - c \<le> ring_room ?b" "n - c \<le> length (drop c data)"
      using False c room less.prems(3,4) by (auto simp: ring_room_def)
    have "take c data @ take (n - c) (drop c data) = take n data" using c(2) by (simp flip: take_add)
    then show ?thesis
      using less.IH [OF rest(1) put(1) rest(2-4)] step rest(2) ring_same_trans [OF put(3)] unfolding put(2) by auto
  qed
qed

text \<open>The ring functions with the guards of \<open>bio_write\<close> and \<open>bio_read\<close> around the loops.\<close>

definition ring_put :: "bio_bio_st \<Rightarrow> byte list \<Rightarrow> (bio_bio_st \<times> nat) option" where
  "ring_put b data =
     (let n = (if length data > bb_size b - bb_len b then bb_size b - bb_len b else length data)
      in if n = 0 then Some (b, 0) else map_option (\<lambda>b'. (b', n)) (ring_write_loop b data n))"

definition ring_get :: "bio_bio_st \<Rightarrow> nat \<Rightarrow> (bio_bio_st \<times> byte list) option" where
  "ring_get b n =
     (let n' = (if bb_len b < n then bb_len b else n) in if n' = 0 then Some (b, []) else ring_read_loop b n' [])"

interpretation ring: byte_queue ring_ok ring_data ring_room ring_put ring_get
proof unfold_locales
  fix b and data :: "byte list"
  assume ok: "ring_ok b"
  define n where "n = (if length data > bb_size b - bb_len b then bb_size b - bb_len b else length data)"
  have n: "n = min (length data) (ring_room b)" "n \<le> ring_room b" "n \<le> length data" by (auto simp: n_def ring_room_def)
  have "take n data = take (ring_room b) data" by (simp add: n(1) min_def)
  then show "\<exists>b'. ring_put b data = Some (b', min (length data) (ring_room b)) \<and> ring_ok b' \<and> ring_data b' = ring_data b @ take (ring_room b) data"
    using ring_write_loop_ok [OF ok _ n(2,3)] ok n(1) unfolding ring_put_def n_def [symmetric] Let_def by (cases "n = 0") auto
next
  fix b n
  assume ok: "ring_ok b"
  define n' where "n' = (if bb_len b < n then bb_len b else n)"
  have "n' \<le> bb_len b" "take n' (ring_data b) = take n (ring_data b)" "drop n' (ring_data b) = drop n (ring_data b)"
    by (auto simp: n'_def)
  then show "\<exists>b'. ring_get b n = Some (b', take n (ring_data b)) \<and> ring_ok b' \<and> ring_data b' = drop n (ring_data b)"
    using ring_read_loop_ok [OF ok, of n' "[]"] ok unfolding ring_get_def n'_def [symmetric] Let_def by (cases "n' = 0") auto
qed

subsection \<open>A connected pair\<close>

abbreviation end_of :: "pair_heap \<Rightarrow> nat \<Rightarrow> bio_bio_st" where
  "end_of h a \<equiv> bio_ptr (bios h a)"

definition pair_ok :: "nat \<Rightarrow> nat \<Rightarrow> pair_heap \<Rightarrow> bool" where
  "pair_ok a1 a2 h \<longleftrightarrow> a1 \<noteq> a2 \<and> bio_init (bios h a1) \<and> bio_init (bios h a2) \<and>
     bb_peer (end_of h a1) = Some a2 \<and> bb_peer (end_of h a2) = Some a1 \<and> ring_ok (end_of h a1) \<and> ring_ok (end_of h a2)"

lemma pair_ok_sym: "pair_ok a1 a2 h \<Longrightarrow> pair_ok a2 a1 h"
  by (auto simp: pair_ok_def)

lemma flags_ptr [simp]:
  "bio_ptr (BIO_clear_retry_flags b) = bio_ptr b" "bio_init (BIO_clear_retry_flags b) = bio_init b"
  "bio_ptr (BIO_set_retry_read b) = bio_ptr b" "bio_init (BIO_set_retry_read b) = bio_init b"
  "bio_ptr (BIO_set_retry_write b) = bio_ptr b" "bio_init (BIO_set_retry_write b) = bio_init b"
  by (simp_all add: BIO_clear_retry_flags_def BIO_set_retry_read_def BIO_set_retry_write_def)

lemma ring_request [simp]:
  "ring_ok (b\<lparr>bb_request := r\<rparr>) = ring_ok b" "ring_data (b\<lparr>bb_request := r\<rparr>) = ring_data b"
  "ring_room (b\<lparr>bb_request := r\<rparr>) = ring_room b" "ring_ok (b\<lparr>bb_closed := c\<rparr>) = ring_ok b" "ring_data (b\<lparr>bb_closed := c\<rparr>) = ring_data b"
  by (simp_all add: ring_ok_def ring_data_def ring_room_def split: option.split)

lemma bio_write_ok:
  assumes ok: "pair_ok a1 a2 h" and n: "0 < n" "n \<le> length data"
  shows "\<exists>ret h'. bio_write a1 (Some data) n h = Some (ret, h') \<and> pair_ok a1 a2 h' \<and>
    end_of h' a2 = end_of h a2 \<and> bb_closed (end_of h' a1) = bb_closed (end_of h a1) \<and> bb_size (end_of h' a1) = bb_size (end_of h a1) \<and>
    ring_data (end_of h' a1) = ring_data (end_of h a1) @ take (nat ret) data \<and>
    ret = (if bb_closed (end_of h a1) \<or> ring_room (end_of h a1) = 0 then - 1 else int (min n (ring_room (end_of h a1))))"
proof -
  let ?b = "(end_of h a1)\<lparr>bb_request := 0\<rparr>"
  have a: "a1 \<noteq> a2" "bio_init (bios h a1)" "ring_ok ?b" using ok by (auto simp: pair_ok_def)
  consider "bb_closed ?b" | "\<not> bb_closed ?b" "bb_len ?b = bb_size ?b" | "\<not> bb_closed ?b" "bb_len ?b \<noteq> bb_size ?b" by blast
  then show ?thesis
  proof cases
    case 1
    then show ?thesis using ok n by (auto simp: bio_write_def Let_def pair_ok_def)
  next
    case 2
    then show ?thesis using ok n by (auto simp: bio_write_def Let_def pair_ok_def ring_room_def)
  next
    case 3
    define n' where "n' = (if n > bb_size (end_of h a1) - bb_len (end_of h a1) then bb_size (end_of h a1) - bb_len (end_of h a1) else n)"
    have room: "0 < ring_room ?b" using 3 a(3) by (auto simp: ring_room_def ring_ok_def split: option.splits)
    have n': "0 < n'" "n' \<le> ring_room ?b" "n' \<le> length data" "n' = min n (ring_room ?b)" using room n by (auto simp: n'_def ring_room_def)
    obtain b' where b': "ring_write_loop ?b data n' = Some b'" "ring_ok b'" "ring_data b' = ring_data ?b @ take n' data" "ring_same ?b b'"
      using ring_write_loop_ok [OF a(3) n'(1-3)] by blast
    let ?h = "upd_ptr a1 (\<lambda>_. b') (upd_bio a1 BIO_clear_retry_flags h)"
    have "bio_write a1 (Some data) n h = Some (int n', ?h)"
      using 3 a(2) n(1) b'(1)
      by (cases "bb_size (end_of h a1) - bb_len (end_of h a1) < n") (simp_all add: bio_write_def Let_def n'_def)
    moreover have "pair_ok a1 a2 ?h" using ok b'(2,4) by (auto simp: pair_ok_def ring_same_def)
    ultimately show ?thesis using 3 room b' n'(4) a(1) by (auto simp: ring_same_def)
  qed
qed

lemma bio_read_ok:
  assumes ok: "pair_ok a1 a2 h" and n: "0 < n"
  shows "\<exists>ret out h'. bio_read a1 True n h = Some (ret, out, h') \<and> pair_ok a1 a2 h' \<and>
    ring_data (end_of h' a1) = ring_data (end_of h a1) \<and> ring_same (end_of h a1) (end_of h' a1) \<and>
    bb_closed (end_of h' a2) = bb_closed (end_of h a2) \<and> bb_size (end_of h' a2) = bb_size (end_of h a2) \<and>
    out = take n (ring_data (end_of h a2)) \<and> ring_data (end_of h' a2) = drop n (ring_data (end_of h a2)) \<and>
    ret = (if ring_data (end_of h a2) \<noteq> [] then int (length out) else if bb_closed (end_of h a2) then 0 else - 1)"
proof -
  let ?b = "(end_of h a2)\<lparr>bb_request := 0\<rparr>"
  have a: "a1 \<noteq> a2" "bio_init (bios h a1)" "ring_ok ?b" "bb_peer (end_of h a1) = Some a2" using ok by (auto simp: pair_ok_def)
  have empty: "ring_data (end_of h a2) = [] \<longleftrightarrow> bb_len (end_of h a2) = 0" by (metis length_0_conv length_ring_data)
  consider "bb_len (end_of h a2) = 0" "bb_closed (end_of h a2)" | "bb_len (end_of h a2) = 0" "\<not> bb_closed (end_of h a2)" | "bb_len (end_of h a2) \<noteq> 0" by blast
  then show ?thesis
  proof cases
    case 1
    then have "bio_read a1 True n h = Some (0, [], upd_ptr a2 (\<lambda>b. b\<lparr>bb_request := 0\<rparr>) (upd_bio a1 BIO_clear_retry_flags h))"
      using a n by (simp add: bio_read_def Let_def)
    then show ?thesis using 1 ok a empty by (auto simp: pair_ok_def)
  next
    case 2
    then have "bio_read a1 True n h = Some (- 1, [], upd_ptr a2 (\<lambda>b. b\<lparr>bb_request := (if n \<le> bb_size b then n else bb_size b)\<rparr>)
        (upd_bio a1 BIO_set_retry_read (upd_ptr a2 (\<lambda>b. b\<lparr>bb_request := 0\<rparr>) (upd_bio a1 BIO_clear_retry_flags h))))"
      using a n by (simp add: bio_read_def Let_def)
    then show ?thesis using 2 ok a empty by (auto simp: pair_ok_def)
  next
    case 3
    define n' where "n' = (if bb_len (end_of h a2) < n then bb_len (end_of h a2) else n)"
    have n': "0 < n'" "n' \<le> bb_len ?b" "take n' (ring_data ?b) = take n (ring_data ?b)" "drop n' (ring_data ?b) = drop n (ring_data ?b)"
        "length (take n (ring_data ?b)) = n'"
      using 3 n by (auto simp: n'_def)
    obtain b' where b': "ring_read_loop ?b n' [] = Some (b', take n (ring_data ?b))" "ring_ok b'" "ring_data b' = drop n (ring_data ?b)" "ring_same ?b b'"
      using ring_read_loop_ok [OF a(3) n'(1,2), of "[]"] unfolding n'(3,4) by auto
    let ?h = "upd_ptr a2 (\<lambda>_. b') (upd_bio a1 BIO_clear_retry_flags h)"
    have "bio_read a1 True n h = Some (int n', take n (ring_data ?b), ?h)"
      using 3 a n b'(1) by (cases "bb_len (end_of h a2) < n") (simp_all add: bio_read_def Let_def n'_def)
    moreover have "pair_ok a1 a2 ?h" using ok b'(2,4) by (auto simp: pair_ok_def ring_same_def)
    ultimately show ?thesis using 3 b' n'(5) a(1) empty by (auto simp: ring_same_def)
  qed
qed

lemma pair_ok_update:
  assumes "pair_ok a1 a2 h" "\<And>b. bio_init (f b) = bio_init b" "\<And>b. bio_ptr (f b) = bio_ptr b"
  shows "pair_ok a1 a2 (upd_bio x f h)" "end_of (upd_bio x f h) y = end_of h y"
  using assms by (auto simp: pair_ok_def)

lemma BIO_write_ok:
  assumes ok: "pair_ok a1 a2 h" and n: "0 < n" "nat n \<le> length data"
  shows "\<exists>ret h'. BIO_write methods_biop a1 (Some data) n h = Some (ret, h') \<and> pair_ok a1 a2 h' \<and>
    end_of h' a2 = end_of h a2 \<and> bb_closed (end_of h' a1) = bb_closed (end_of h a1) \<and> bb_size (end_of h' a1) = bb_size (end_of h a1) \<and>
    ring_data (end_of h' a1) = ring_data (end_of h a1) @ take (nat ret) data \<and>
    ret = (if bb_closed (end_of h a1) \<or> ring_room (end_of h a1) = 0 then - 1 else min n (int (ring_room (end_of h a1))))"
proof -
  obtain ret h1 where w: "bio_write a1 (Some data) (nat n) h = Some (ret, h1)" "pair_ok a1 a2 h1" "end_of h1 a2 = end_of h a2"
    "bb_closed (end_of h1 a1) = bb_closed (end_of h a1)" "bb_size (end_of h1 a1) = bb_size (end_of h a1)"
    "ring_data (end_of h1 a1) = ring_data (end_of h a1) @ take (nat ret) data"
    "ret = (if bb_closed (end_of h a1) \<or> ring_room (end_of h a1) = 0 then - 1 else int (min (nat n) (ring_room (end_of h a1))))"
    using bio_write_ok [OF ok, of "nat n" data] n by auto
  have init: "bio_init (bios h a1)" using ok by (simp add: pair_ok_def)
  let ?f = "\<lambda>b. b\<lparr>bio_num_write := (bio_num_write b + nat ret) mod size_mod\<rparr>"
  let ?h = "if ret > 0 then upd_bio a1 ?f h1 else h1"
  have r: "BIO_write methods_biop a1 (Some data) n h = Some (ret, ?h)"
    using w(1) init n(1) by (simp add: BIO_write_def methods_biop_def)
  have p: "pair_ok a1 a2 ?h" "end_of ?h y = end_of h1 y" for y using w(2) pair_ok_update [OF w(2), of ?f a1] by auto
  show ?thesis using r p w(3-7) n(1) by (intro exI [of _ ret] exI [of _ ?h]) (auto simp: min_def)
qed

lemma BIO_read_ok:
  assumes ok: "pair_ok a1 a2 h" and n: "0 < n"
  shows "\<exists>ret out h'. BIO_read methods_biop a1 True n h = Some (ret, out, h') \<and> pair_ok a1 a2 h' \<and>
    ring_data (end_of h' a1) = ring_data (end_of h a1) \<and> ring_same (end_of h a1) (end_of h' a1) \<and>
    bb_closed (end_of h' a2) = bb_closed (end_of h a2) \<and> bb_size (end_of h' a2) = bb_size (end_of h a2) \<and>
    out = take (nat n) (ring_data (end_of h a2)) \<and> ring_data (end_of h' a2) = drop (nat n) (ring_data (end_of h a2)) \<and>
    ret = (if ring_data (end_of h a2) \<noteq> [] then int (length out) else if bb_closed (end_of h a2) then 0 else - 1)"
proof -
  obtain ret out h1 where w: "bio_read a1 True (nat n) h = Some (ret, out, h1)" "pair_ok a1 a2 h1"
    "ring_data (end_of h1 a1) = ring_data (end_of h a1)" "ring_same (end_of h a1) (end_of h1 a1)"
    "bb_closed (end_of h1 a2) = bb_closed (end_of h a2)" "bb_size (end_of h1 a2) = bb_size (end_of h a2)"
    "out = take (nat n) (ring_data (end_of h a2))" "ring_data (end_of h1 a2) = drop (nat n) (ring_data (end_of h a2))"
    "ret = (if ring_data (end_of h a2) \<noteq> [] then int (length out) else if bb_closed (end_of h a2) then 0 else - 1)"
    using bio_read_ok [OF ok, of "nat n"] n by auto
  have init: "bio_init (bios h a1)" using ok by (simp add: pair_ok_def)
  let ?f = "\<lambda>b. b\<lparr>bio_num_read := (bio_num_read b + nat ret) mod size_mod\<rparr>"
  let ?h = "if ret > 0 then upd_bio a1 ?f h1 else h1"
  have r: "BIO_read methods_biop a1 True n h = Some (ret, out, ?h)"
    using w(1) init n by (simp add: BIO_read_def methods_biop_def)
  have p: "pair_ok a1 a2 ?h" "end_of ?h y = end_of h1 y" for y using w(2) pair_ok_update [OF w(2), of ?f a1] by auto
  show ?thesis using r p w(3-9) by (intro exI [of _ ret] exI [of _ out] exI [of _ ?h]) auto
qed

lemma bio_ctrl_ok:
  assumes ok: "pair_ok a1 a2 h" and x: "x \<in> {a1, a2}" and c: "bio_ctrl x cmd num ptr h = (ret, h')"
  shows "pair_ok a1 a2 h' \<and> ring_data (end_of h' a1) = ring_data (end_of h a1) \<and> ring_data (end_of h' a2) = ring_data (end_of h a2)"
proof -
  consider "h' = h" | "h' = upd_ptr x (\<lambda>b. b\<lparr>bb_request := 0\<rparr>) h" | "h' = upd_ptr x (\<lambda>b. b\<lparr>bb_closed := True\<rparr>) h"
    | "h' = upd_bio x (\<lambda>b. b\<lparr>bio_shutdown := signed_take_bit 31 num\<rparr>) h"
    using c by (auto simp: bio_ctrl_def Let_def split: if_splits)
  then show ?thesis using ok x by cases (auto simp: pair_ok_def)
qed

subsection \<open>Creation\<close>

lemma make_buf_ok:
  assumes "make_buf m a l h = (True, h')" "bb_buf (end_of h a) = None" "0 < bb_size (end_of h a)"
  shows "\<exists>w k. h' = upd_ptr a (\<lambda>b. b\<lparr>bb_size := (if l \<noteq> 0 then l else bb_size b), bb_buf := Some w, bb_len := 0, bb_offset := 0\<rparr>) (h\<lparr>ballocs := k\<rparr>) \<and>
    length w = (if l \<noteq> 0 then l else bb_size (end_of h a))"
proof (cases "l = 0")
  case True
  then obtain w where "OPENSSL_malloc m (ballocs h) (bb_size (end_of h a)) = Some w"
    "h' = upd_ptr a (\<lambda>b. b\<lparr>bb_buf := Some w, bb_len := 0, bb_offset := 0\<rparr>) (h\<lparr>ballocs := ballocs h + 1\<rparr>)"
    using assms by (auto simp: make_buf_def split: option.splits)
  then show ?thesis using True OPENSSL_malloc_length by (auto intro!: exI [of _ w] exI [of _ "ballocs h + 1"])
next
  case False
  then obtain w where w: "OPENSSL_malloc m (ballocs h) l = Some w"
    "h' = upd_ptr a (\<lambda>b. b\<lparr>bb_buf := Some w, bb_len := 0, bb_offset := 0\<rparr>) ((upd_ptr a (\<lambda>b. b\<lparr>bb_size := l\<rparr>) h)\<lparr>ballocs := ballocs h + 1\<rparr>)"
    using assms by (auto simp: make_buf_def Let_def split: option.splits)
  show ?thesis using False w OPENSSL_malloc_length [OF w(1)] by (auto intro!: exI [of _ w] exI [of _ "ballocs h + 1"])
qed

text \<open>A new end: not connected, no buffer, the default size.\<close>

definition fresh_end :: "bio_bio_st BIO \<Rightarrow> bool" where
  "fresh_end b \<longleftrightarrow> \<not> bio_init b \<and> bb_peer (bio_ptr b) = None \<and> bb_buf (bio_ptr b) = None \<and> bb_size (bio_ptr b) = 17 * 1024"

lemma BIO_new_fresh:
  assumes "BIO_new m a h = (True, h')"
  shows "fresh_end (bios h' a) \<and> (\<forall>x. x \<noteq> a \<longrightarrow> bios h' x = bios h x)"
  using assms by (auto simp: BIO_new_def bio_new_def fresh_end_def split: option.splits)

lemma new_pair_ok:
  assumes "BIO_new_bio_pair m a1 l1 a2 l2 h = (True, h')" "a1 \<noteq> a2"
  shows "pair_ok a1 a2 h' \<and> ring_data (end_of h' a1) = [] \<and> ring_data (end_of h' a2) = [] \<and>
    ring_room (end_of h' a1) = (if l1 \<noteq> 0 then l1 else 17 * 1024) \<and> ring_room (end_of h' a2) = (if l2 \<noteq> 0 then l2 else 17 * 1024) \<and>
    \<not> bb_closed (end_of h' a1) \<and> \<not> bb_closed (end_of h' a2)"
proof -
  obtain h1 h2 where n: "BIO_new m a1 h = (True, h1)" "BIO_new m a2 h1 = (True, h2)" "bio_make_pair m a1 a2 l1 l2 h2 = (True, h')"
    using assms(1) by (auto simp: BIO_new_bio_pair_def Let_def split: prod.splits if_splits)
  have f: "fresh_end (bios h2 a1)" "fresh_end (bios h2 a2)" using BIO_new_fresh [OF n(1)] BIO_new_fresh [OF n(2)] assms(2) by auto
  obtain h3 h4 where b: "make_buf m a1 l1 h2 = (True, h3)" "make_buf m a2 l2 h3 = (True, h4)"
    using n(3) by (auto simp: bio_make_pair_def split: prod.splits if_splits bool.splits)
  obtain w1 k1 where w1: "h3 = upd_ptr a1 (\<lambda>b. b\<lparr>bb_size := (if l1 \<noteq> 0 then l1 else bb_size b), bb_buf := Some w1, bb_len := 0, bb_offset := 0\<rparr>) (h2\<lparr>ballocs := k1\<rparr>)"
    "length w1 = (if l1 \<noteq> 0 then l1 else 17 * 1024)"
    using make_buf_ok [OF b(1)] f(1) by (auto simp: fresh_end_def)
  obtain w2 k2 where w2: "h4 = upd_ptr a2 (\<lambda>b. b\<lparr>bb_size := (if l2 \<noteq> 0 then l2 else bb_size b), bb_buf := Some w2, bb_len := 0, bb_offset := 0\<rparr>) (h3\<lparr>ballocs := k2\<rparr>)"
    "length w2 = (if l2 \<noteq> 0 then l2 else 17 * 1024)"
    using make_buf_ok [OF b(2)] f(2) assms(2) by (auto simp: fresh_end_def w1(1))
  show ?thesis
    using n(3) b f assms(2) w1(2) w2(2)
    by (auto simp: bio_make_pair_def Let_def w1(1) w2(1) pair_ok_def ring_ok_def ring_data_def ring_room_def fresh_end_def)
qed

lemma retry_bits:
  fixes f :: u32
  shows "((f AND NOT kRetryFlags) OR (BIO_FLAGS_WRITE OR BIO_FLAGS_SHOULD_RETRY)) AND BIO_FLAGS_SHOULD_RETRY \<noteq> 0"
    "((f AND NOT kRetryFlags) OR (BIO_FLAGS_WRITE OR BIO_FLAGS_SHOULD_RETRY)) AND BIO_FLAGS_WRITE \<noteq> 0"
    "((f AND NOT kRetryFlags) OR (BIO_FLAGS_WRITE OR BIO_FLAGS_SHOULD_RETRY)) AND BIO_FLAGS_READ = 0"
    "((f AND NOT kRetryFlags) OR (BIO_FLAGS_READ OR BIO_FLAGS_SHOULD_RETRY)) AND BIO_FLAGS_SHOULD_RETRY \<noteq> 0"
    "((f AND NOT kRetryFlags) OR (BIO_FLAGS_READ OR BIO_FLAGS_SHOULD_RETRY)) AND BIO_FLAGS_READ \<noteq> 0"
    "((f AND NOT kRetryFlags) OR (BIO_FLAGS_READ OR BIO_FLAGS_SHOULD_RETRY)) AND BIO_FLAGS_WRITE = 0"
proof -
  have masks: "NOT kRetryFlags AND BIO_FLAGS_READ = 0" "NOT kRetryFlags AND BIO_FLAGS_WRITE = 0" "NOT kRetryFlags AND BIO_FLAGS_SHOULD_RETRY = 0"
    by (simp_all add: kRetryFlags_def BIO_FLAGS_RWS_def BIO_FLAGS_READ_def BIO_FLAGS_WRITE_def BIO_FLAGS_IO_SPECIAL_def BIO_FLAGS_SHOULD_RETRY_def)
  have z: "((f AND NOT kRetryFlags) OR g) AND r = g AND r" if "NOT kRetryFlags AND r = 0" for g r :: u32
    using that by (simp add: bit.conj_disj_distrib2 and.assoc)
  show "((f AND NOT kRetryFlags) OR (BIO_FLAGS_WRITE OR BIO_FLAGS_SHOULD_RETRY)) AND BIO_FLAGS_SHOULD_RETRY \<noteq> 0"
    "((f AND NOT kRetryFlags) OR (BIO_FLAGS_WRITE OR BIO_FLAGS_SHOULD_RETRY)) AND BIO_FLAGS_WRITE \<noteq> 0"
    "((f AND NOT kRetryFlags) OR (BIO_FLAGS_WRITE OR BIO_FLAGS_SHOULD_RETRY)) AND BIO_FLAGS_READ = 0"
    "((f AND NOT kRetryFlags) OR (BIO_FLAGS_READ OR BIO_FLAGS_SHOULD_RETRY)) AND BIO_FLAGS_SHOULD_RETRY \<noteq> 0"
    "((f AND NOT kRetryFlags) OR (BIO_FLAGS_READ OR BIO_FLAGS_SHOULD_RETRY)) AND BIO_FLAGS_READ \<noteq> 0"
    "((f AND NOT kRetryFlags) OR (BIO_FLAGS_READ OR BIO_FLAGS_SHOULD_RETRY)) AND BIO_FLAGS_WRITE = 0"
    unfolding z [OF masks(1)] z [OF masks(2)] z [OF masks(3)]
    by (simp_all add: BIO_FLAGS_READ_def BIO_FLAGS_WRITE_def BIO_FLAGS_SHOULD_RETRY_def)
qed

subsection \<open>Properties\<close>

text \<open>
  The two ends in any order of calls: the heap, the bytes each end has accepted for sending
  and the bytes each end has handed to its reader.
\<close>

type_synonym pair_state = "pair_heap \<times> (nat \<Rightarrow> byte list) \<times> (nat \<Rightarrow> byte list)"

inductive pair_step :: "nat \<Rightarrow> nat \<Rightarrow> pair_state \<Rightarrow> pair_state \<Rightarrow> bool" for a1 a2 where
  do_write: "x \<in> {a1, a2} \<Longrightarrow> nat n \<le> length data \<Longrightarrow> BIO_write methods_biop x (Some data) n h = Some (ret, h') \<Longrightarrow>
    pair_step a1 a2 (h, sent, got) (h', sent(x := sent x @ take (nat ret) data), got)"
| do_read: "x \<in> {a1, a2} \<Longrightarrow> BIO_read methods_biop x True n h = Some (ret, out, h') \<Longrightarrow>
    pair_step a1 a2 (h, sent, got) (h', sent, got(x := got x @ out))"
| do_ctrl: "x \<in> {a1, a2} \<Longrightarrow> BIO_ctrl methods_biop x cmd num ptr h = (ret, h') \<Longrightarrow> pair_step a1 a2 (h, sent, got) (h', sent, got)"

definition conserved :: "nat \<Rightarrow> nat \<Rightarrow> pair_state \<Rightarrow> bool" where
  "conserved a1 a2 st \<longleftrightarrow>
     (case st of (h, sent, got) \<Rightarrow> pair_ok a1 a2 h \<and>
        sent a1 = got a2 @ ring_data (end_of h a1) \<and> sent a2 = got a1 @ ring_data (end_of h a2))"

lemma conserved_sym: "conserved a1 a2 st \<longleftrightarrow> conserved a2 a1 st"
  by (auto simp: conserved_def pair_ok_def split: prod.splits)

lemma conserved_write:
  assumes inv: "conserved x y (h, sent, got)" and n: "nat n \<le> length data" and w: "BIO_write methods_biop x (Some data) n h = Some (ret, h')"
  shows "conserved x y (h', sent(x := sent x @ take (nat ret) data), got)"
proof (cases "0 < n")
  case True
  have ok: "pair_ok x y h" using inv by (simp add: conserved_def)
  then show ?thesis using BIO_write_ok [OF ok True n] inv w by (auto simp: conserved_def pair_ok_def)
next
  case False
  then have "ret = 0" "h' = h" using w inv by (auto simp: BIO_write_def methods_biop_def conserved_def pair_ok_def)
  then show ?thesis using inv by (simp add: conserved_def)
qed

lemma conserved_read:
  assumes inv: "conserved x y (h, sent, got)" and r: "BIO_read methods_biop x True n h = Some (ret, out, h')"
  shows "conserved x y (h', sent, got(x := got x @ out))"
proof (cases "0 < n")
  case True
  have ok: "pair_ok x y h" using inv by (simp add: conserved_def)
  then show ?thesis using BIO_read_ok [OF ok True] inv r by (auto simp: conserved_def pair_ok_def)
next
  case False
  then have "out = []" "h' = h" using r inv by (auto simp: BIO_read_def methods_biop_def conserved_def pair_ok_def)
  then show ?thesis using inv by (simp add: conserved_def)
qed

lemma conserved_step: "pair_step a1 a2 st st' \<Longrightarrow> conserved a1 a2 st \<Longrightarrow> conserved a1 a2 st'"
proof (induction rule: pair_step.induct)
  case (do_write x n data h ret h' sent got)
  then show ?case using conserved_write [of a1 a2] conserved_write [of a2 a1] by (auto simp: conserved_sym [of a1 a2])
next
  case (do_read x n h ret out h' sent got)
  then show ?case using conserved_read [of a1 a2] conserved_read [of a2 a1] by (auto simp: conserved_sym [of a1 a2])
next
  case (do_ctrl x cmd num ptr h ret h' sent got)
  then show ?case using bio_ctrl_ok [of a1 a2 h x cmd num ptr ret h'] by (auto simp: conserved_def BIO_ctrl_def methods_biop_def)
qed

text \<open>
  C23: a BIO pair is two reliable byte streams. From a pair made by \<open>BIO_new_bio_pair\<close>, after
  any interleaving of writes, reads and control calls at the two ends, what one end has read
  followed by what is still in the ring is exactly what the other end's writes accepted, in
  order: nothing is lost, duplicated or reordered, across the wrap-around of the rings.
\<close>

theorem bio_pair_streams:
  assumes "BIO_new_bio_pair m a1 l1 a2 l2 h0 = (True, h)" "a1 \<noteq> a2"
    and "(pair_step a1 a2)\<^sup>*\<^sup>* (h, (\<lambda>_. []), (\<lambda>_. [])) (h', sent, got)"
  shows "sent a1 = got a2 @ ring_data (end_of h' a1) \<and> sent a2 = got a1 @ ring_data (end_of h' a2) \<and> pair_ok a1 a2 h'"
proof -
  have "conserved a1 a2 (h, (\<lambda>_. []), (\<lambda>_. []))" using new_pair_ok [OF assms(1,2)] by (simp add: conserved_def)
  with assms(3) have "conserved a1 a2 (h', sent, got)"
    by (induction rule: rtranclp_induct) (auto intro: conserved_step)
  then show ?thesis by (simp add: conserved_def)
qed

definition blank_heap :: pair_heap where
  "blank_heap = \<lparr>bios = (\<lambda>_. \<lparr>bio_init = False, bio_shutdown = 0, bio_flags = 0, bio_retry_reason = 0, bio_num = 0,
     bio_ptr = \<lparr>bb_peer = None, bb_closed = False, bb_len = 0, bb_offset = 0, bb_size = 0, bb_buf = None, bb_request = 0\<rparr>,
     bio_num_read = 0, bio_num_write = 0\<rparr>), ballocs = 0\<rparr>"

lemma blank_pair: "fst (BIO_new_bio_pair zero_alloc 2 4 3 4 blank_heap)"
  by (simp add: BIO_new_bio_pair_def BIO_new_def bio_new_def bio_make_pair_def make_buf_def OPENSSL_malloc_def zero_alloc_def
      sizeof_BIO_def sizeof_bio_bio_def OPENSSL_MALLOC_PREFIX_def blank_heap_def Let_def)

theorem bio_pair_streams_witness:
  "\<exists>h ret h'. BIO_new_bio_pair zero_alloc 2 4 3 4 blank_heap = (True, h) \<and>
    BIO_write methods_biop 2 (Some [7, 8, 9]) 3 h = Some (ret, h') \<and> take (nat ret) [7, 8, 9] = ring_data (end_of h' 2)"
proof -
  obtain h where h: "BIO_new_bio_pair zero_alloc 2 4 3 4 blank_heap = (True, h)" using blank_pair by (metis prod.collapse)
  have ok: "pair_ok 2 3 h" using new_pair_ok [OF h] by simp
  obtain ret h' where w: "BIO_write methods_biop 2 (Some [7, 8, 9]) 3 h = Some (ret, h')"
    using BIO_write_ok [OF ok, of 3 "[7, 8, 9]"] by auto
  have step: "pair_step 2 3 (h, (\<lambda>_. []), (\<lambda>_. [])) (h', (\<lambda>_. [])(2 := [] @ take (nat ret) [7, 8, 9]), (\<lambda>_. []))"
    by (rule pair_step.do_write [OF _ _ w]) simp_all
  have "take (nat ret) [7, 8, 9] = ring_data (end_of h' 2)"
    using bio_pair_streams [OF h _ r_into_rtranclp, OF _ step] by simp
  then show ?thesis using h w by blast
qed

text \<open>
  \<open>BIO_write\<close> on one end of a pair has exactly these outcomes. With the write side shut
  down it returns \<open>-1\<close>; with a full ring it returns \<open>-1\<close> and raises the retry and write flags;
  otherwise it accepts as many bytes as there is room for, at least one, and says how
  many. Only accepted bytes reach the ring, and the other end is not disturbed.
\<close>

theorem BIO_write_outcomes:
  assumes ok: "pair_ok a1 a2 h" and n: "0 < n" "nat n \<le> length data"
  shows "\<exists>ret h'. BIO_write methods_biop a1 (Some data) n h = Some (ret, h') \<and> pair_ok a1 a2 h' \<and> end_of h' a2 = end_of h a2 \<and>
    ring_data (end_of h' a1) = ring_data (end_of h a1) @ take (nat ret) data \<and>
    (if bb_closed (end_of h a1) then ret = - 1
     else if ring_room (end_of h a1) = 0
     then ret = - 1 \<and> BIO_should_retry (bios h' a1) \<noteq> 0 \<and> BIO_should_write (bios h' a1) \<noteq> 0 \<and> BIO_should_read (bios h' a1) = 0
     else ret = min n (int (ring_room (end_of h a1))) \<and> 0 < ret)"
proof -
  obtain ret h' where w: "BIO_write methods_biop a1 (Some data) n h = Some (ret, h')" "pair_ok a1 a2 h'" "end_of h' a2 = end_of h a2"
    "ring_data (end_of h' a1) = ring_data (end_of h a1) @ take (nat ret) data"
    "ret = (if bb_closed (end_of h a1) \<or> ring_room (end_of h a1) = 0 then - 1 else min n (int (ring_room (end_of h a1))))"
    using BIO_write_ok [OF ok n] by blast
  have flags: "BIO_should_retry (bios h' a1) \<noteq> 0 \<and> BIO_should_write (bios h' a1) \<noteq> 0 \<and> BIO_should_read (bios h' a1) = 0"
    if full: "\<not> bb_closed (end_of h a1)" "ring_room (end_of h a1) = 0"
  proof -
    have "bb_len (end_of h a1) = bb_size (end_of h a1)" using full(2) ok by (auto simp: ring_room_def pair_ok_def ring_ok_def)
    then have "bio_flags (bios h' a1) = (bio_flags (bios h a1) AND NOT kRetryFlags) OR (BIO_FLAGS_WRITE OR BIO_FLAGS_SHOULD_RETRY)"
      using w(1) full(1) ok n(1)
      by (auto simp: BIO_write_def methods_biop_def bio_write_def Let_def pair_ok_def BIO_clear_retry_flags_def BIO_set_retry_write_def)
    then show ?thesis
      by (simp add: BIO_should_retry_def BIO_should_write_def BIO_should_read_def BIO_test_flags_def retry_bits)
  qed
  show ?thesis using w flags n(1) by (intro exI [of _ ret] exI [of _ h']) auto
qed

definition demo_pair :: pair_heap where
  "demo_pair = snd (BIO_new_bio_pair zero_alloc 2 4 3 4 blank_heap)"

lemma demo_pair: "pair_ok 2 3 demo_pair" "ring_data (end_of demo_pair 2) = []" "ring_data (end_of demo_pair 3) = []"
  "ring_room (end_of demo_pair 2) = 4" "\<not> bb_closed (end_of demo_pair 2)" "\<not> bb_closed (end_of demo_pair 3)"
  using new_pair_ok [of zero_alloc 2 4 3 4 blank_heap demo_pair] blank_pair by (auto simp: demo_pair_def prod_eq_iff)

theorem BIO_write_outcomes_witness:
  "\<exists>h'. BIO_write methods_biop 2 (Some [1, 2, 3, 4, 5, 6]) 6 demo_pair = Some (4, h') \<and> ring_data (end_of h' 2) = [1, 2, 3, 4]"
  using BIO_write_outcomes [OF demo_pair(1), of 6 "[1, 2, 3, 4, 5, 6]"] by (auto simp: demo_pair)

text \<open>
  \<open>BIO_read\<close> on one end of a pair has exactly these outcomes. It delivers the oldest bytes
  of the other end's ring, up to the number asked for; on an empty ring it returns 0, end of
  file, if the other end has shut down, and else \<open>-1\<close> with the retry and read flags raised
  and the number of bytes wanted recorded for the other end.
\<close>

theorem BIO_read_outcomes:
  assumes ok: "pair_ok a1 a2 h" and n: "0 < n"
  shows "\<exists>ret out h'. BIO_read methods_biop a1 True n h = Some (ret, out, h') \<and> pair_ok a1 a2 h' \<and>
    ring_data (end_of h' a1) = ring_data (end_of h a1) \<and>
    out = take (nat n) (ring_data (end_of h a2)) \<and> ring_data (end_of h' a2) = drop (nat n) (ring_data (end_of h a2)) \<and>
    (if ring_data (end_of h a2) \<noteq> [] then ret = int (length out) \<and> 0 < ret
     else if bb_closed (end_of h a2) then ret = 0
     else ret = - 1 \<and> BIO_should_retry (bios h' a1) \<noteq> 0 \<and> BIO_should_read (bios h' a1) \<noteq> 0 \<and> BIO_should_write (bios h' a1) = 0 \<and>
       BIO_ctrl_get_read_request a2 h' = min n (int (bb_size (end_of h a2))))"
proof -
  obtain ret out h' where w: "BIO_read methods_biop a1 True n h = Some (ret, out, h')" "pair_ok a1 a2 h'"
    "ring_data (end_of h' a1) = ring_data (end_of h a1)"
    "out = take (nat n) (ring_data (end_of h a2))" "ring_data (end_of h' a2) = drop (nat n) (ring_data (end_of h a2))"
    "ret = (if ring_data (end_of h a2) \<noteq> [] then int (length out) else if bb_closed (end_of h a2) then 0 else - 1)"
    using BIO_read_ok [OF ok n] by blast
  have retry: "BIO_should_retry (bios h' a1) \<noteq> 0 \<and> BIO_should_read (bios h' a1) \<noteq> 0 \<and> BIO_should_write (bios h' a1) = 0 \<and>
      BIO_ctrl_get_read_request a2 h' = min n (int (bb_size (end_of h a2)))"
    if empty: "ring_data (end_of h a2) = []" "\<not> bb_closed (end_of h a2)"
  proof -
    have len: "bb_len (end_of h a2) = 0" using empty(1) by (metis length_0_conv length_ring_data)
    have p: "a1 \<noteq> a2" "bio_init (bios h a1)" "bb_peer (end_of h a1) = Some a2" using ok by (auto simp: pair_ok_def)
    have "bio_flags (bios h' a1) = (bio_flags (bios h a1) AND NOT kRetryFlags) OR (BIO_FLAGS_READ OR BIO_FLAGS_SHOULD_RETRY)"
      using w(1) len empty(2) p n
      by (auto simp: BIO_read_def methods_biop_def bio_read_def Let_def BIO_clear_retry_flags_def BIO_set_retry_read_def)
    moreover have "bb_request (end_of h' a2) = min (nat n) (bb_size (end_of h a2))"
      using w(1) len empty(2) p n by (auto simp: BIO_read_def methods_biop_def bio_read_def Let_def)
    ultimately show ?thesis
      using n by (simp add: BIO_should_retry_def BIO_should_write_def BIO_should_read_def BIO_test_flags_def retry_bits
          BIO_ctrl_get_read_request_def BIO_ctrl_def methods_biop_def bio_ctrl_def BIO_C_GET_READ_REQUEST_def BIO_C_GET_WRITE_BUF_SIZE_def
          BIO_C_GET_WRITE_GUARANTEE_def)
  qed
  have "ring_data (end_of h a2) \<noteq> [] \<longleftrightarrow> 0 < bb_len (end_of h a2)" by (metis length_greater_0_conv length_ring_data)
  then show ?thesis using w retry n by (intro exI [of _ ret] exI [of _ out] exI [of _ h']) auto
qed

theorem BIO_read_outcomes_witness:
  "\<exists>h'. BIO_read methods_biop 3 True 3 demo_pair = Some (- 1, [], h') \<and> BIO_should_read (bios h' 3) \<noteq> 0"
  using BIO_read_outcomes [OF pair_ok_sym [OF demo_pair(1)], of 3] by (auto simp: demo_pair)

text \<open>
  C24: \<open>BIO_write_all\<close> on a pair always returns. It succeeds exactly when the ring has room for
  everything (and the write side is open, or there is nothing to write); if it fails, it
  has still queued as much of a prefix of the data as there was room for.
\<close>

theorem BIO_write_all_pair:
  assumes "pair_ok a1 a2 h"
  shows "\<exists>ret h'. BIO_write_all methods_biop a1 data (length data) h = Some (ret, h') \<and> pair_ok a1 a2 h' \<and>
    (ret \<longleftrightarrow> data = [] \<or> \<not> bb_closed (end_of h a1) \<and> length data \<le> ring_room (end_of h a1)) \<and>
    ring_data (end_of h' a1) = ring_data (end_of h a1) @ (if bb_closed (end_of h a1) then [] else take (ring_room (end_of h a1)) data)"
  using assms
proof (induction "length data" arbitrary: data h rule: less_induct)
  case less
  show ?case
  proof (cases "data = []")
    case True
    then have "BIO_write_all methods_biop a1 data (length data) h = Some (True, h)" by (subst BIO_write_all.simps) simp
    then show ?thesis using less.prems True by auto
  next
    case False
    define n :: int where "n = (if length data > 2 ^ 31 - 1 then 2 ^ 31 - 1 else int (length data))"
    have n: "0 < n" "nat n \<le> length data" "n \<le> int (length data)" using False by (auto simp: n_def)
    obtain r h1 where w: "BIO_write methods_biop a1 (Some data) n h = Some (r, h1)" "pair_ok a1 a2 h1"
      "bb_closed (end_of h1 a1) = bb_closed (end_of h a1)" "bb_size (end_of h1 a1) = bb_size (end_of h a1)"
      "ring_data (end_of h1 a1) = ring_data (end_of h a1) @ take (nat r) data"
      "r = (if bb_closed (end_of h a1) \<or> ring_room (end_of h a1) = 0 then - 1 else min n (int (ring_room (end_of h a1))))"
      using BIO_write_ok [OF less.prems n(1,2)] by blast
    have step: "BIO_write_all methods_biop a1 data (length data) h =
        (if r \<le> 0 then Some (False, h1) else BIO_write_all methods_biop a1 (drop (nat r) data) (length data - nat r) h1)"
      using False w(1) by (subst BIO_write_all.simps) (simp add: n_def)
    show ?thesis
    proof (cases "bb_closed (end_of h a1) \<or> ring_room (end_of h a1) = 0")
      case True
      then have "r = - 1" using w(6) by simp
      then show ?thesis using step w True False by auto
    next
      case open_room: False
      then have r: "0 < r" "nat r \<le> length data" "nat r \<le> ring_room (end_of h a1)" using w(6) n by auto
      have len: "bb_len (end_of h1 a1) = bb_len (end_of h a1) + nat r" using w(5) r(2) by (metis length_append length_ring_data length_take min.absorb2)
      then have room: "ring_room (end_of h1 a1) = ring_room (end_of h a1) - nat r" by (simp add: ring_room_def w(4))
      have lt: "length (drop (nat r) data) < length data" using r(1) False by simp
      obtain ret h' where ih: "BIO_write_all methods_biop a1 (drop (nat r) data) (length (drop (nat r) data)) h1 = Some (ret, h')" "pair_ok a1 a2 h'"
        "ret \<longleftrightarrow> drop (nat r) data = [] \<or> \<not> bb_closed (end_of h1 a1) \<and> length (drop (nat r) data) \<le> ring_room (end_of h1 a1)"
        "ring_data (end_of h' a1) = ring_data (end_of h1 a1) @ (if bb_closed (end_of h1 a1) then [] else take (ring_room (end_of h1 a1)) (drop (nat r) data))"
        using less.hyps [OF lt w(2)] by blast
      have "take (nat r) data @ take (ring_room (end_of h a1) - nat r) (drop (nat r) data) = take (ring_room (end_of h a1)) data"
        using r(3) by (simp flip: take_add)
      then have "ring_data (end_of h' a1) = ring_data (end_of h a1) @ take (ring_room (end_of h a1)) data"
        using ih(4) w(3,5) open_room unfolding room by simp
      moreover have "ret \<longleftrightarrow> length data \<le> ring_room (end_of h a1)" using ih(3) w(3) open_room r unfolding room by auto
      ultimately show ?thesis using step r(1) ih(1,2) open_room False by auto
    qed
  qed
qed

theorem BIO_write_all_pair_witness:
  "\<exists>h'. BIO_write_all methods_biop 2 [1, 2, 3, 4, 5] (length [1, 2, 3, 4, 5 :: byte]) demo_pair = Some (False, h') \<and>
    ring_data (end_of h' 2) = [1, 2, 3, 4]"
  using BIO_write_all_pair [OF demo_pair(1), of "[1, 2, 3, 4, 5]"] by (auto simp: demo_pair)

end
