(* ===== verification/Calendar.thy ===== *)
theory Calendar
  imports Prelude "HOL-Library.Signed_Division" "HOL-Library.Monad_Syntax"
begin

text \<open>
  The date arithmetic of \<open>crypto/asn1/time_support.c\<close>, on which the certificate validity
  times rest. The sources compute in \<open>int\<close> (32 bits) and \<open>long\<close> (64 bits); the values are
  unbounded integers here and every operation that could overflow is checked, so \<open>None\<close>
  is the undefined behaviour of a signed overflow and \<open>Some\<close> a computation free of it.
  Division is C's, which truncates (\<open>sdiv\<close>). The lemmas compare the conversions between
  dates and Julian day numbers with the Gregorian calendar, given by its leap-year rule
  and its successor function on dates, and the adjustment and the difference of times with
  the number of seconds between them.
\<close>

subsection \<open>Checked arithmetic\<close>

definition c_int :: "int \<Rightarrow> int option" where
  "c_int x = (if - (2 ^ 31) \<le> x \<and> x < 2 ^ 31 then Some x else None)"

definition c_long :: "int \<Rightarrow> int option" where
  "c_long x = (if - (2 ^ 63) \<le> x \<and> x < 2 ^ 63 then Some x else None)"

text \<open>The conversion of a \<open>long\<close> to an \<open>int\<close> keeps the low 32 bits.\<close>

definition to_int :: "int \<Rightarrow> int" where
  "to_int x = (x + 2 ^ 31) mod 2 ^ 32 - 2 ^ 31"

subsection \<open>Julian day numbers\<close>

definition SECS_PER_DAY :: int where
  "SECS_PER_DAY = 24 * 60 * 60"

definition date_to_julian :: "int \<Rightarrow> int \<Rightarrow> int \<Rightarrow> int option" where
  "date_to_julian y m d = do {
     m14 \<leftarrow> c_int (m - 14);
     let adj = m14 sdiv 12;
     y1 \<leftarrow> c_int (y + 4800);
     y1 \<leftarrow> c_int (y1 + adj);
     a \<leftarrow> c_int (1461 * y1);
     m1 \<leftarrow> c_int (m - 2);
     m2 \<leftarrow> c_int (12 * adj);
     m1 \<leftarrow> c_int (m1 - m2);
     b \<leftarrow> c_int (367 * m1);
     y2 \<leftarrow> c_int (y + 4900);
     y2 \<leftarrow> c_int (y2 + adj);
     c \<leftarrow> c_int (3 * (y2 sdiv 100));
     s \<leftarrow> c_int (a sdiv 4 + b sdiv 12);
     s \<leftarrow> c_int (s - c sdiv 4);
     s \<leftarrow> c_int (s + d);
     c_int (s - 32075)
   }"

text \<open>The out-parameters \<open>y\<close>, \<open>m\<close>, \<open>d\<close>; each is a \<open>long\<close> stored in an \<open>int\<close>.\<close>

definition julian_to_date :: "int \<Rightarrow> (int \<times> int \<times> int) option" where
  "julian_to_date jd = do {
     L \<leftarrow> c_long (jd + 68569);
     L4 \<leftarrow> c_long (4 * L);
     let n = L4 sdiv 146097;
     n1 \<leftarrow> c_long (146097 * n);
     n1 \<leftarrow> c_long (n1 + 3);
     L \<leftarrow> c_long (L - n1 sdiv 4);
     L1 \<leftarrow> c_long (L + 1);
     i1 \<leftarrow> c_long (4000 * L1);
     let i = i1 sdiv 1461001;
     i4 \<leftarrow> c_long (1461 * i);
     L \<leftarrow> c_long (L - i4 sdiv 4);
     L \<leftarrow> c_long (L + 31);
     j1 \<leftarrow> c_long (80 * L);
     let j = j1 sdiv 2447;
     d1 \<leftarrow> c_long (2447 * j);
     d \<leftarrow> c_long (L - d1 sdiv 80);
     let L = j sdiv 11;
     m \<leftarrow> c_long (j + 2);
     m \<leftarrow> c_long (m - 12 * L);
     y \<leftarrow> c_long (100 * (n - 49));
     y \<leftarrow> c_long (y + i);
     y \<leftarrow> c_long (y + L);
     Some (to_int y, to_int m, to_int d)
   }"

subsection \<open>Broken-down times\<close>

text \<open>The members of \<open>struct tm\<close> that the library reads and writes.\<close>

record tm =
  tm_sec :: int
  tm_min :: int
  tm_hour :: int
  tm_mday :: int
  tm_mon :: int
  tm_year :: int

text \<open>
  Inside the outer option, \<open>None\<close> is the return value 0 and \<open>Some\<close> the return value 1
  with \<open>*pday\<close> and \<open>*psec\<close>.
\<close>

definition julian_adj :: "tm \<Rightarrow> int \<Rightarrow> int \<Rightarrow> (int \<times> int) option option" where
  "julian_adj tm off_day offset_sec = do {
     let offset_day = to_int (offset_sec sdiv SECS_PER_DAY);
     days_sec \<leftarrow> c_int (offset_day * SECS_PER_DAY);
     rest \<leftarrow> c_long (offset_sec - days_sec);
     let offset_hms = to_int rest;
     offset_day \<leftarrow> c_int (offset_day + off_day);
     h \<leftarrow> c_int (tm_hour tm * 3600);
     mi \<leftarrow> c_int (tm_min tm * 60);
     s \<leftarrow> c_int (h + mi);
     s \<leftarrow> c_int (s + tm_sec tm);
     offset_hms \<leftarrow> c_int (offset_hms + s);
     (offset_day, offset_hms) \<leftarrow>
       (if offset_hms \<ge> SECS_PER_DAY
        then do { dy \<leftarrow> c_int (offset_day + 1); hms \<leftarrow> c_int (offset_hms - SECS_PER_DAY); Some (dy, hms) }
        else if offset_hms < 0
        then do { dy \<leftarrow> c_int (offset_day - 1); hms \<leftarrow> c_int (offset_hms + SECS_PER_DAY); Some (dy, hms) }
        else Some (offset_day, offset_hms));
     time_year \<leftarrow> c_int (tm_year tm + 1900);
     time_month \<leftarrow> c_int (tm_mon tm + 1);
     let time_day = tm_mday tm;
     time_jd \<leftarrow> date_to_julian time_year time_month time_day;
     time_jd \<leftarrow> c_long (time_jd + offset_day);
     Some (if time_jd < 0 then None else Some (time_jd, offset_hms))
   }"

text \<open>The inner \<open>None\<close> is the return value 0, which leaves \<open>*tm\<close> as it was.\<close>

definition OPENSSL_gmtime_adj :: "tm \<Rightarrow> int \<Rightarrow> int \<Rightarrow> tm option option" where
  "OPENSSL_gmtime_adj tm off_day offset_sec = do {
     r \<leftarrow> julian_adj tm off_day offset_sec;
     (case r of
        None \<Rightarrow> Some None
      | Some (time_jd, time_sec) \<Rightarrow> do {
          (time_year, time_month, time_day) \<leftarrow> julian_to_date time_jd;
          (if time_year < 1900 \<or> time_year > 9999 then Some None
           else do {
             yr \<leftarrow> c_int (time_year - 1900);
             mo \<leftarrow> c_int (time_month - 1);
             Some (Some (tm\<lparr>tm_year := yr, tm_mon := mo, tm_mday := time_day,
                            tm_hour := time_sec sdiv 3600, tm_min := (time_sec sdiv 60) smod 60,
                            tm_sec := time_sec smod 60\<rparr>))
           })
        })
   }"

text \<open>The out-parameters \<open>*out_days\<close> and \<open>*out_secs\<close>.\<close>

definition OPENSSL_gmtime_diff :: "tm \<Rightarrow> tm \<Rightarrow> (int \<times> int) option option" where
  "OPENSSL_gmtime_diff from to = do {
     f \<leftarrow> julian_adj from 0 0;
     (case f of
        None \<Rightarrow> Some None
      | Some (from_jd, from_sec) \<Rightarrow> do {
          t \<leftarrow> julian_adj to 0 0;
          (case t of
             None \<Rightarrow> Some None
           | Some (to_jd, to_sec) \<Rightarrow> do {
               diff_day \<leftarrow> c_long (to_jd - from_jd);
               diff_sec \<leftarrow> c_int (to_sec - from_sec);
               (diff_day, diff_sec) \<leftarrow>
                 (if diff_day > 0 \<and> diff_sec < 0
                  then do { dy \<leftarrow> c_long (diff_day - 1); s \<leftarrow> c_int (diff_sec + SECS_PER_DAY); Some (dy, s) }
                  else Some (diff_day, diff_sec));
               (diff_day, diff_sec) \<leftarrow>
                 (if diff_day < 0 \<and> diff_sec > 0
                  then do { dy \<leftarrow> c_long (diff_day + 1); s \<leftarrow> c_int (diff_sec - SECS_PER_DAY); Some (dy, s) }
                  else Some (diff_day, diff_sec));
               Some (Some (to_int diff_day, diff_sec))
             })
        })
   }"

subsection \<open>The Gregorian calendar\<close>

definition leap_year :: "int \<Rightarrow> bool" where
  "leap_year y \<longleftrightarrow> y mod 4 = 0 \<and> (y mod 100 \<noteq> 0 \<or> y mod 400 = 0)"

definition days_in_month :: "int \<Rightarrow> int \<Rightarrow> int" where
  "days_in_month y m =
     (if m = 2 then (if leap_year y then 29 else 28) else if m \<in> {4, 6, 9, 11} then 30 else 31)"

definition valid_date :: "int \<Rightarrow> int \<Rightarrow> int \<Rightarrow> bool" where
  "valid_date y m d \<longleftrightarrow> 1 \<le> m \<and> m \<le> 12 \<and> 1 \<le> d \<and> d \<le> days_in_month y m"

definition next_date :: "int \<times> int \<times> int \<Rightarrow> int \<times> int \<times> int" where
  "next_date = (\<lambda>(y, m, d).
     if d < days_in_month y m then (y, m, d + 1)
     else if m < 12 then (y, m + 1, 1) else (y + 1, 1, 1))"

text \<open>
  The day number in closed form: years count from 1 March, so that the leap day is the last
  day of a year; \<open>march_year\<close> is that year, \<open>month_start\<close> the days before the month.
\<close>

definition march_year :: "int \<Rightarrow> int \<Rightarrow> int" where
  "march_year y m = y + 4800 - (if m \<le> 2 then 1 else 0)"

definition month_start :: "int \<Rightarrow> int" where
  "month_start m = (367 * (m - 2 + (if m \<le> 2 then 12 else 0))) div 12 - 30"

definition year_days :: "int \<Rightarrow> int" where
  "year_days Y = 365 * Y + Y div 4 - Y div 100 + Y div 400"

definition jdn :: "int \<Rightarrow> int \<Rightarrow> int \<Rightarrow> int" where
  "jdn y m d = year_days (march_year y m) + month_start m + d - 32045"

lemma year_days_eq: "year_days Y = 1461 * Y div 4 - 3 * (Y div 100 + 1) div 4"
proof -
  have "1461 * Y div 4 = 365 * Y + Y div 4"
    using div_mult_self1 [of 4 Y "365 * Y"] by (simp add: algebra_simps)
  moreover have "3 * (C + 1) div 4 = C - C div 4" for C :: int
  proof -
    have *: "3 * (C + 1) = 4 * (3 * (C div 4) + (C mod 4)) + (3 - C mod 4)" by (simp add: minus_div_mult_eq_mod [symmetric])
    have "0 \<le> C mod 4" "C mod 4 < 4" by simp_all
    then have "3 * (C + 1) div 4 = 3 * (C div 4) + C mod 4" using int_div_pos_eq [OF *] by simp
    then show ?thesis by (simp add: minus_div_mult_eq_mod [symmetric])
  qed
  moreover have "Y div 400 = Y div 100 div 4" by (simp add: zdiv_zmult2_eq [symmetric])
  ultimately show ?thesis unfolding year_days_def by simp
qed

lemma div_step: "0 < k \<Longrightarrow> (Y + 1) div k = Y div k + (if (Y + 1) mod k = 0 then 1 else 0 :: int)"
proof -
  assume k: "0 < k"
  have *: "Y + 1 = k * (Y div k) + (Y mod k + 1)" by simp
  have b: "0 \<le> Y mod k" "Y mod k < k" using k by simp_all
  show ?thesis
  proof (cases "Y mod k + 1 = k")
    case True
    then have "Y + 1 = k * (Y div k + 1)" using * by (simp add: algebra_simps)
    then show ?thesis using k by simp
  next
    case False
    then have "0 \<le> Y mod k + 1" "Y mod k + 1 < k" using b by simp_all
    then have "(Y + 1) div k = Y div k" "(Y + 1) mod k = Y mod k + 1"
      using int_div_pos_eq [OF *] int_mod_pos_eq [OF *] by simp_all
    then show ?thesis using b by simp
  qed
qed

lemma month_cases:
  "1 \<le> m \<Longrightarrow> m \<le> (12 :: int) \<Longrightarrow>
     m = 1 \<or> m = 2 \<or> m = 3 \<or> m = 4 \<or> m = 5 \<or> m = 6 \<or> m = 7 \<or> m = 8 \<or> m = 9 \<or> m = 10 \<or> m = 11 \<or> m = 12"
  by presburger

lemma sdiv_nonneg: "0 \<le> x \<Longrightarrow> 0 < k \<Longrightarrow> x sdiv k = x div (k :: int)"
  by (cases "x = 0") (simp_all add: signed_divide_int_def sgn_if)

lemma smod_nonneg: "0 \<le> x \<Longrightarrow> 0 < k \<Longrightarrow> x smod k = x mod (k :: int)"
  by (simp add: minus_sdiv_mult_eq_smod [symmetric] sdiv_nonneg minus_div_mult_eq_mod)

lemma c_int_ok: "- 2147483648 \<le> x \<Longrightarrow> x < 2147483648 \<Longrightarrow> c_int x = Some x"
  by (simp add: c_int_def)

lemma c_long_ok: "- 9223372036854775808 \<le> x \<Longrightarrow> x < 9223372036854775808 \<Longrightarrow> c_long x = Some x"
  by (simp add: c_long_def)

lemma to_int_ok: "- 2147483648 \<le> x \<Longrightarrow> x < 2147483648 \<Longrightarrow> to_int x = x"
  by (simp add: to_int_def)

lemma month_adjust: "1 \<le> m \<Longrightarrow> m \<le> 12 \<Longrightarrow> (m - 14) sdiv 12 = (if m \<le> 2 then - 1 else 0 :: int)"
  by (drule (1) month_cases) (auto simp: signed_divide_int_def)

lemma date_to_julian_eq:
  assumes y: "- 4799 \<le> y" "y \<le> 1000000" and m: "1 \<le> m" "m \<le> 12" and d: "1 \<le> d" "d \<le> 31"
  shows "date_to_julian y m d = Some (jdn y m d)"
proof -
  define Y where "Y = march_year y m"
  have Y: "0 \<le> Y" "Y \<le> 1004800" using y by (auto simp: Y_def march_year_def)
  have adj: "y + 4800 + (m - 14) sdiv 12 = Y" "y + 4900 + (m - 14) sdiv 12 = Y + 100"
    using m by (auto simp: month_adjust Y_def march_year_def)
  define M where "M = m - 2 + (if m \<le> 2 then 12 else 0)"
  have M: "1 \<le> M" "M \<le> 12" and Ma: "m - 2 - 12 * ((m - 14) sdiv 12) = M"
    using m by (auto simp: month_adjust M_def)
  have b: "367 * M div 12 \<le> 367" "0 \<le> 367 * M div 12" using M by simp_all
  have "(m - 14) sdiv 12 \<in> {- 1, 0}" using m by (simp add: month_adjust)
  then have q: "- 1 \<le> (m - 14) sdiv 12" "(m - 14) sdiv 12 \<le> 0" by auto
  define C where "C = Y div 100"
  have cY: "C \<le> 10048" "0 \<le> C" using Y by (simp_all add: C_def)
  have a: "0 \<le> 1461 * Y div 4" "1461 * Y div 4 \<le> 1461 * Y" using Y by simp_all
  have s: "(Y + 100) sdiv 100 = C + 1" "(1461 * Y) sdiv 4 = 1461 * Y div 4"
    "(367 * M) sdiv 12 = 367 * M div 12" "(3 * (C + 1)) sdiv 4 = 3 * (C + 1) div 4"
    using Y M cY by (simp_all add: sdiv_nonneg C_def)
  have ok: "c_int (m - 14) = Some (m - 14)" "c_int (y + 4800) = Some (y + 4800)" "c_int Y = Some Y"
    "c_int (1461 * Y) = Some (1461 * Y)" "c_int (m - 2) = Some (m - 2)"
    "c_int (12 * ((m - 14) sdiv 12)) = Some (12 * ((m - 14) sdiv 12))" "c_int M = Some M"
    "c_int (367 * M) = Some (367 * M)" "c_int (y + 4900) = Some (y + 4900)"
    "c_int (Y + 100) = Some (Y + 100)"
    using y m d Y M q by (intro c_int_ok; linarith)+
  have okC: "c_int (3 * (C + 1)) = Some (3 * (C + 1))"
    by (rule c_int_ok) (use cY in \<open>simp_all add: algebra_simps\<close>)
  define E where "E = 3 * (C + 1) div 4"
  have E: "0 \<le> E" "E \<le> 30200" using cY unfolding E_def by simp_all
  have sums: "c_int (1461 * Y div 4 + 367 * M div 12) = Some (1461 * Y div 4 + 367 * M div 12)"
    "c_int (1461 * Y div 4 + 367 * M div 12 - E) =
       Some (1461 * Y div 4 + 367 * M div 12 - E)"
    "c_int (1461 * Y div 4 + 367 * M div 12 - E + d) =
       Some (1461 * Y div 4 + 367 * M div 12 - E + d)"
    "c_int (1461 * Y div 4 + 367 * M div 12 - E + d - 32075) =
       Some (1461 * Y div 4 + 367 * M div 12 - E + d - 32075)"
    using d Y b E a by (intro c_int_ok; linarith)+
  have "jdn y m d = 1461 * Y div 4 + 367 * M div 12 - E + d - 32075"
    by (simp add: jdn_def year_days_eq month_start_def Y_def M_def C_def E_def)
  then show ?thesis
    unfolding date_to_julian_def
    by (simp only: Let_def ok okC adj Ma s sums E_def [symmetric] Option.bind.simps)
qed

subsection \<open>Day numbers follow the calendar\<close>

lemma leap_sum:
  assumes "p100 \<longrightarrow> p4" "p400 \<longrightarrow> p100"
  shows "365 * (y + 4800) + (a + (if p4 then 1 else 0)) - (b + (if p100 then 1 else 0)) + (c + (if p400 then 1 else 0)) =
     365 * (y + 4799) + a - b + c + (if p4 \<and> (\<not> p100 \<or> p400) then 366 else 365 :: int)"
  using assms by (cases p4; cases p100; cases p400; simp)

lemma year_days_step: "year_days (y + 4800) = year_days (y + 4799) + (if leap_year y then 366 else 365)"
proof -
  have r: "y + 4800 = y + 4799 + 1" by simp
  have m: "(y + 4800) mod 4 = y mod 4" "(y + 4800) mod 100 = y mod 100" "(y + 4800) mod 400 = y mod 400"
    using mod_mult_self1 [of y 1200 4] mod_mult_self1 [of y 48 100] mod_mult_self1 [of y 12 400] by simp_all
  have d: "(y + 4800) div k = (y + 4799) div k + (if (y + 4800) mod k = 0 then 1 else 0)" if "0 < k" for k
    using div_step [OF that, of "y + 4799"] unfolding r [symmetric] .
  have imp: "y mod 100 = 0 \<longrightarrow> y mod 4 = 0" "y mod 400 = 0 \<longrightarrow> y mod 100 = 0"
    using mod_mod_cancel [of 4 100 y] mod_mod_cancel [of 100 400 y] by auto
  have d4: "(y + 4800) div 4 = (y + 4799) div 4 + (if y mod 4 = 0 then 1 else 0)"
    using d [of 4, OF zero_less_numeral] unfolding m .
  have d100: "(y + 4800) div 100 = (y + 4799) div 100 + (if y mod 100 = 0 then 1 else 0)"
    using d [of 100, OF zero_less_numeral] unfolding m .
  have d400: "(y + 4800) div 400 = (y + 4799) div 400 + (if y mod 400 = 0 then 1 else 0)"
    using d [of 400, OF zero_less_numeral] unfolding m .
  show ?thesis
    unfolding year_days_def leap_year_def d4 d100 d400 using imp by (rule leap_sum)
qed

lemma jdn_next:
  assumes "valid_date y m d" "next_date (y, m, d) = (y', m', d')"
  shows "jdn y' m' d' = jdn y m d + 1"
proof -
  have m: "1 \<le> m" "m \<le> 12" using assms(1) by (simp_all add: valid_date_def)
  show ?thesis
    using month_cases [OF m] assms year_days_step [of y] year_days_step [of "y + 1"]
    by (elim disjE) (auto simp: next_date_def valid_date_def days_in_month_def jdn_def march_year_def month_start_def add.commute split: if_splits)
qed

subsection \<open>The inverse conversion\<close>

text \<open>
  The day number counted from the start of its century \<open>n\<close>, of the year \<open>i\<close> in the century
  and of the month: the three divisions of \<open>julian_to_date\<close> recover them.
\<close>

definition century_start :: "int \<Rightarrow> int" where
  "century_start n = (146097 * n + 3) div 4"

lemma div_in: "k * q \<le> x \<Longrightarrow> x < k * q + k \<Longrightarrow> x div k = (q :: int)"
  using int_div_pos_eq [of x k q "x - k * q"] by simp

lemma mod_in: "k * q \<le> x \<Longrightarrow> x < k * q + k \<Longrightarrow> x mod k = x - k * (q :: int)"
  by (simp add: div_in minus_mult_div_eq_mod [symmetric])

lemma century_of:
  assumes "century_start n \<le> L" "L < century_start (n + 1)"
  shows "4 * L div 146097 = n"
proof (rule div_in)
  have up: "x \<le> 4 * ((x + 3) div 4)" "4 * ((x + 3) div 4) \<le> x + 3" for x :: int by linarith+
  show "146097 * n \<le> 4 * L" using up(1) [of "146097 * n"] assms(1) unfolding century_start_def by linarith
  show "4 * L < 146097 * n + 146097"
    using up(2) [of "146097 * n + 146097"] assms(2) unfolding century_start_def distrib_left by linarith
qed

lemma century_start_Suc: "century_start (c + 1) = 36524 * c + c div 4 + 36525"
proof -
  have "146097 * (c + 1) + 3 = c + 4 * (36524 * c + 36525)" by simp
  then show ?thesis unfolding century_start_def by (simp only:) simp
qed

lemma div_4_split: "(4 * k + r) div 4 = k + r div (4 :: int)"
  by simp

lemma year_days_century:
  assumes "0 \<le> r" "r < 100"
  shows "year_days (100 * c + r) = 36524 * c + c div 4 + 1461 * r div 4"
proof -
  have a: "(100 * c + r) div 100 = c" by (rule div_in) (use assms in linarith)+
  have b: "(100 * c + r) div 400 = c div 4"
    using zdiv_zmult2_eq [of 4 "100 * c + r" 100] by (simp add: a)
  have e: "(100 * c + r) div 4 = 25 * c + r div 4"
    using div_4_split [of "25 * c" r] by simp
  have f: "1461 * r div 4 = 365 * r + r div 4"
    using div_4_split [of "365 * r" r] by simp
  show ?thesis unfolding year_days_def a b e f by simp
qed

lemma year_of_century:
  fixes D r :: int
  assumes "0 \<le> r" "r < 100" "1461 * r div 4 \<le> D" "D < 1461 * (r + 1) div 4"
  shows "4000 * (D + 1) div 1461001 = r"
proof (rule div_in)
  have "1461 * r \<le> 4 * (1461 * r div 4) + 3" "4 * ((1461 * r + 1461) div 4) \<le> 1461 * r + 1461" by linarith+
  then show "1461001 * r \<le> 4000 * (D + 1)" "4000 * (D + 1) < 1461001 * r + 1461001"
    using assms unfolding distrib_left by linarith+
qed

text \<open>The last division: month and day from the day of the year that starts in March.\<close>

lemma month_of_day:
  assumes "valid_date y m d"
  defines "L \<equiv> month_start m + d + 30"
  shows "80 * L div 2447 = (if m \<le> 2 then m + 10 else m - 2)"
    and "L - 2447 * (80 * L div 2447) div 80 = d"
proof -
  have m: "1 \<le> m" "m \<le> 12" using assms(1) by (simp_all add: valid_date_def)
  have d: "1 \<le> d" "d \<le> (if m = 2 then 29 else if m \<in> {4, 6, 9, 11} then 30 else 31)"
    using assms(1) by (auto simp: valid_date_def days_in_month_def split: if_splits)
  have j: "80 * L div 2447 = (if m \<le> 2 then m + 10 else m - 2)"
    by (rule div_in; use month_cases [OF m] d in \<open>elim disjE; simp add: L_def month_start_def\<close>)
  show "80 * L div 2447 = (if m \<le> 2 then m + 10 else m - 2)" by (fact j)
  show "L - 2447 * (80 * L div 2447) div 80 = d"
    unfolding j using month_cases [OF m] by (elim disjE) (simp_all add: L_def month_start_def)
qed

definition day_of_year :: "int \<Rightarrow> int \<Rightarrow> int" where
  "day_of_year m d = month_start m + d - 1"

lemma day_of_year_bounds:
  assumes "valid_date y m d"
  shows "0 \<le> day_of_year m d" "day_of_year m d \<le> 365"
    "day_of_year m d < year_days (march_year y m + 1) - year_days (march_year y m)"
proof -
  have m: "1 \<le> m" "m \<le> 12" using assms(1) by (simp_all add: valid_date_def)
  show "0 \<le> day_of_year m d" "day_of_year m d \<le> 365"
    using month_cases [OF m] assms
    by (elim disjE; auto simp: day_of_year_def month_start_def valid_date_def days_in_month_def split: if_splits)+
  show "day_of_year m d < year_days (march_year y m + 1) - year_days (march_year y m)"
    using month_cases [OF m] assms year_days_step [of y] year_days_step [of "y + 1"]
    by (elim disjE)
       (auto simp: day_of_year_def month_start_def valid_date_def days_in_month_def march_year_def add.commute split: if_splits)
qed

lemma jdn_split:
  assumes v: "valid_date y m d"
  defines "Y \<equiv> march_year y m"
  defines "c \<equiv> Y div 100" and "r \<equiv> Y mod 100"
  shows "jdn y m d + 68569 = century_start (c + 1) + (1461 * r div 4 + day_of_year m d)"
    and "4 * (jdn y m d + 68569) div 146097 = c + 1"
    and "4000 * (1461 * r div 4 + day_of_year m d + 1) div 1461001 = r"
proof -
  have r: "0 \<le> r" "r < 100" and Y: "Y = 100 * c + r" by (simp_all add: r_def c_def)
  note b = day_of_year_bounds [OF v, folded Y_def]
  have yd: "year_days Y = 36524 * c + c div 4 + 1461 * r div 4" unfolding Y by (rule year_days_century [OF r])
  have next_c: "year_days (100 * (c + 1) + 0) = 36524 * (c + 1) + (c + 1) div 4 + 1461 * 0 div 4"
    by (rule year_days_century) simp_all
  show eq: "jdn y m d + 68569 = century_start (c + 1) + (1461 * r div 4 + day_of_year m d)"
    unfolding jdn_def Y_def [symmetric] yd century_start_Suc day_of_year_def by simp
  have H0: "0 \<le> 1461 * r div 4" using r by simp
  have "year_days (Y + 1) \<le> 36524 * (c + 1) + (c + 1) div 4"
    and "day_of_year m d < 1461 * (r + 1) div 4 - 1461 * r div 4"
  proof -
    consider "r < 99" | "r = 99" using r by linarith
    then have "year_days (Y + 1) \<le> 36524 * (c + 1) + (c + 1) div 4 \<and>
      day_of_year m d < 1461 * (r + 1) div 4 - 1461 * r div 4"
    proof cases
      case 1
      then have y1: "year_days (Y + 1) = 36524 * c + c div 4 + 1461 * (r + 1) div 4"
        using year_days_century [of "r + 1" c] r by (simp add: Y add.assoc)
      have "1461 * (r + 1) div 4 \<le> 36159" using 1 by simp
      moreover have "c div 4 \<le> (c + 1) div 4" by (simp add: zdiv_mono1)
      ultimately have "year_days (Y + 1) \<le> 36524 * (c + 1) + (c + 1) div 4"
        unfolding y1 distrib_left by linarith
      then show ?thesis using b(3) unfolding y1 yd by linarith
    next
      case 2
      then have "Y + 1 = 100 * (c + 1) + 0" using Y by simp
      then have y1: "year_days (Y + 1) = 36524 * (c + 1) + (c + 1) div 4" using next_c by (simp only:)
      show ?thesis unfolding y1 using b(2) 2 by simp
    qed
    then show "year_days (Y + 1) \<le> 36524 * (c + 1) + (c + 1) div 4"
      and "day_of_year m d < 1461 * (r + 1) div 4 - 1461 * r div 4" by blast+
  qed
  note hi = this
  show "4000 * (1461 * r div 4 + day_of_year m d + 1) div 1461001 = r"
    by (rule year_of_century [OF r]) (use b(1) hi(2) in linarith)+
  have s1: "century_start (c + 1) = year_days Y - 1461 * r div 4 + 36525"
    unfolding yd century_start_Suc by simp
  have "century_start (c + 1) + (1461 * r div 4 + day_of_year m d) < century_start (c + 1 + 1)"
    using b(3) hi(1) unfolding s1 century_start_Suc [of "c + 1"] by linarith
  then show "4 * (jdn y m d + 68569) div 146097 = c + 1"
    by (intro century_of) (use b(1) H0 in \<open>simp_all add: eq\<close>)
qed

lemma julian_to_date_jdn:
  assumes v: "valid_date y m d" and y: "- 4799 \<le> y" "y \<le> 10000000"
  shows "julian_to_date (jdn y m d) = Some (y, m, d)"
proof -
  define Y where "Y = march_year y m"
  define c where "c = Y div 100"
  define r where "r = Y mod 100"
  define H where "H = 1461 * r div 4"
  define q where "q = day_of_year m d"
  define L where "L = jdn y m d + 68569"
  define j where "j = (if m \<le> 2 then m + 10 else m - 2)"
  note split = jdn_split [OF v, folded Y_def, folded c_def r_def, folded H_def q_def L_def]
  note b = day_of_year_bounds [OF v, folded q_def]
  have m: "1 \<le> m" "m \<le> 12" "1 \<le> d" "d \<le> 31"
    using v by (auto simp: valid_date_def days_in_month_def split: if_splits)
  have Y: "0 \<le> Y" "Y \<le> 10004800" using y by (auto simp: Y_def march_year_def)
  have c: "0 \<le> c" "c \<le> 100048" using Y by (simp_all add: c_def)
  have r: "0 \<le> r" "r < 100" by (simp_all add: r_def)
  have H: "0 \<le> H" "H \<le> 36159" using r by (simp_all add: H_def)
  have cs: "0 \<le> century_start (c + 1)" "century_start (c + 1) \<le> 4000000000" "c div 4 \<le> c" "0 \<le> c div 4"
    using c by (simp_all add: century_start_Suc)
  have j: "1 \<le> j" "j \<le> 12" using m by (auto simp: j_def)
  have q31: "q + 31 = month_start m + d + 30" by (simp add: q_def day_of_year_def)
  have jd: "80 * (q + 31) div 2447 = j" "q + 31 - 2447 * j div 80 = d"
    using month_of_day [OF v] unfolding q31 [symmetric] j_def by simp_all
  have L: "L = century_start (c + 1) + (H + q)" by (fact split(1))
  have L0: "0 \<le> L" "L \<le> 4000100000" using L cs H b by linarith+
  have sd: "(4 * L) sdiv 146097 = c + 1" "(146097 * (c + 1) + 3) sdiv 4 = century_start (c + 1)"
    "(4000 * (H + q + 1)) sdiv 1461001 = r" "(1461 * r) sdiv 4 = H" "(80 * (q + 31)) sdiv 2447 = j"
    "(2447 * j) sdiv 80 = 2447 * j div 80" "j sdiv 11 = j div 11"
    using L0 b c r H j
    by (simp_all only: sdiv_nonneg split(2,3) century_start_def [symmetric] H_def [symmetric] jd(1)
        zero_less_numeral mult_nonneg_nonneg zero_le_numeral add_nonneg_nonneg zero_le_one)
  have Lq: "L - century_start (c + 1) = H + q" using split(1) by simp
  have m': "j + 2 - 12 * (j div 11) = m" and y': "100 * (c + 1 - 49) + r + j div 11 = y"
  proof -
    show "j + 2 - 12 * (j div 11) = m" using month_cases [OF m(1,2)] by (elim disjE) (simp_all add: j_def)
    have "j div 11 = (if m \<le> 2 then 1 else 0)" using month_cases [OF m(1,2)] by (elim disjE) (simp_all add: j_def)
    moreover have "100 * c + r = Y" by (simp add: c_def r_def)
    ultimately show "100 * (c + 1 - 49) + r + j div 11 = y" by (auto simp: Y_def march_year_def)
  qed
  have n: "146097 * (c + 1) = 146097 * c + 146097" "4000 * (H + q + 1) = 4000 * H + 4000 * q + 4000"
    "80 * (q + 31) = 80 * q + 2480" "100 * (c + 1 - 49) = 100 * c - 4800" by simp_all
  have J: "0 \<le> j div 11" "j div 11 \<le> 1" "0 \<le> 2447 * j div 80" "2447 * j div 80 \<le> 400" using j by simp_all
  have ok: "c_long L = Some L" "c_long (4 * L) = Some (4 * L)"
    "c_long (146097 * (c + 1)) = Some (146097 * (c + 1))"
    "c_long (146097 * (c + 1) + 3) = Some (146097 * (c + 1) + 3)" "c_long (H + q) = Some (H + q)"
    "c_long (H + q + 1) = Some (H + q + 1)" "c_long (4000 * (H + q + 1)) = Some (4000 * (H + q + 1))"
    "c_long (1461 * r) = Some (1461 * r)" "c_long q = Some q" "c_long (q + 31) = Some (q + 31)"
    "c_long (80 * (q + 31)) = Some (80 * (q + 31))" "c_long (2447 * j) = Some (2447 * j)" "c_long d = Some d"
    "c_long (j + 2) = Some (j + 2)" "c_long m = Some m" "c_long (100 * (c + 1 - 49)) = Some (100 * (c + 1 - 49))"
    "c_long (100 * (c + 1 - 49) + r) = Some (100 * (c + 1 - 49) + r)" "c_long y = Some y"
    using L0 b c r H j m y unfolding n by (intro c_long_ok; linarith)+
  have Hq: "H + q - H = q" by simp
  have "to_int y = y" "to_int m = m" "to_int d = d" using y m by (simp_all add: to_int_ok)
  then show ?thesis
    unfolding julian_to_date_def L_def [symmetric]
    by (simp only: Let_def sd Lq Hq m' y' jd(2) ok Option.bind.simps)
qed

subsection \<open>Every day number is a date\<close>

lemma month_start_bounds: "1 \<le> m \<Longrightarrow> m \<le> 12 \<Longrightarrow> 0 \<le> month_start m \<and> month_start m \<le> 337"
  by (drule (1) month_cases) (elim disjE; simp add: month_start_def)

lemma jdn_bounds:
  assumes "1 \<le> m" "m \<le> 12" "1 \<le> d" "d \<le> 31" "- 4799 \<le> y"
  shows "365 * (y + 4799) - 32045 \<le> jdn y m d" "jdn y m d \<le> 367 * (y + 4800)"
proof -
  define Y where "Y = march_year y m"
  have Y: "0 \<le> Y" "y + 4799 \<le> Y" "Y \<le> y + 4800" using assms(5) by (auto simp: Y_def march_year_def)
  have q: "Y div 100 \<le> Y div 4" "0 \<le> Y div 400" "Y div 4 \<le> Y" "0 \<le> Y div 100" "Y div 400 \<le> Y"
    using Y by (simp_all add: zdiv_mono2)
  then have "365 * Y \<le> year_days Y" "year_days Y \<le> 367 * Y" unfolding year_days_def by linarith+
  then show "365 * (y + 4799) - 32045 \<le> jdn y m d" "jdn y m d \<le> 367 * (y + 4800)"
    using Y month_start_bounds [OF assms(1,2)] assms(3,4)
    unfolding jdn_def Y_def [symmetric] distrib_left by linarith+
qed

lemma valid_date_month: "valid_date y m d \<Longrightarrow> 1 \<le> m \<and> m \<le> 12 \<and> 1 \<le> d \<and> d \<le> 31"
  by (auto simp: valid_date_def days_in_month_def split: if_splits)

lemma next_date_valid:
  assumes "valid_date y m d" "next_date (y, m, d) = (y', m', d')"
  shows "valid_date y' m' d'" "y \<le> y'"
proof -
  have "1 \<le> days_in_month y m" for y m by (simp add: days_in_month_def)
  then show "valid_date y' m' d'" "y \<le> y'"
    using assms by (auto simp: next_date_def valid_date_def split: if_splits)
qed

lemma jdn_onto:
  "\<exists>y m d. valid_date y m d \<and> - 4713 \<le> y \<and> jdn y m d = int n"
proof (induction n)
  case 0
  have "valid_date (- 4713) 11 24" by (simp add: valid_date_def days_in_month_def)
  moreover have "jdn (- 4713) 11 24 = 0" by (simp add: jdn_def march_year_def month_start_def year_days_def)
  ultimately show ?case by force
next
  case (Suc n)
  then obtain y m d where "valid_date y m d" "- 4713 \<le> y" "jdn y m d = int n" by blast
  moreover obtain y' m' d' where "next_date (y, m, d) = (y', m', d')" by (metis prod_cases3)
  ultimately have "valid_date y' m' d' \<and> - 4713 \<le> y' \<and> jdn y' m' d' = int (Suc n)"
    using next_date_valid [of y m d y' m' d'] jdn_next [of y m d y' m' d'] by force
  then show ?case by blast
qed

lemma julian_to_date_total:
  assumes "0 \<le> jd" "jd \<le> 3000000000"
  obtains y m d where "julian_to_date jd = Some (y, m, d)" "valid_date y m d" "jdn y m d = jd"
proof -
  obtain y m d where v: "valid_date y m d" "- 4713 \<le> y" and j: "jdn y m d = jd"
    using jdn_onto [of "nat jd"] assms(1) by auto
  have "y \<le> 10000000" using jdn_bounds(1) [of m d y] valid_date_month [OF v(1)] v(2) j assms(2) unfolding distrib_left by linarith
  then have "julian_to_date jd = Some (y, m, d)" using julian_to_date_jdn [OF v(1)] v(2) j by simp
  then show ?thesis using that v(1) j by blast
qed

subsection \<open>Times as numbers of seconds\<close>

definition valid_tm :: "tm \<Rightarrow> bool" where
  "valid_tm t \<longleftrightarrow> 0 \<le> tm_sec t \<and> tm_sec t < 60 \<and> 0 \<le> tm_min t \<and> tm_min t < 60 \<and> 0 \<le> tm_hour t \<and> tm_hour t < 24 \<and>
     valid_date (tm_year t + 1900) (tm_mon t + 1) (tm_mday t)"

text \<open>
  The ranges that the parsers of time strings check: the day need not exist in its month, and
  then counts into the next one.
\<close>

definition plausible_tm :: "tm \<Rightarrow> bool" where
  "plausible_tm t \<longleftrightarrow> 0 \<le> tm_sec t \<and> tm_sec t < 60 \<and> 0 \<le> tm_min t \<and> tm_min t < 60 \<and> 0 \<le> tm_hour t \<and> tm_hour t < 24 \<and>
     0 \<le> tm_mon t \<and> tm_mon t < 12 \<and> 1 \<le> tm_mday t \<and> tm_mday t \<le> 31"

lemma valid_tm_plausible: "valid_tm t \<Longrightarrow> plausible_tm t"
  using valid_date_month [of "tm_year t + 1900" "tm_mon t + 1" "tm_mday t"] by (auto simp: valid_tm_def plausible_tm_def)

definition tm_clock :: "tm \<Rightarrow> int" where
  "tm_clock t = tm_hour t * 3600 + tm_min t * 60 + tm_sec t"

definition tm_day :: "tm \<Rightarrow> int" where
  "tm_day t = jdn (tm_year t + 1900) (tm_mon t + 1) (tm_mday t)"

text \<open>Seconds since the start of Julian day 0.\<close>

definition tm_seconds :: "tm \<Rightarrow> int" where
  "tm_seconds t = tm_day t * 86400 + tm_clock t"

lemma tm_clock_bounds: "plausible_tm t \<Longrightarrow> 0 \<le> tm_clock t" "plausible_tm t \<Longrightarrow> tm_clock t < 86400"
  unfolding plausible_tm_def tm_clock_def by linarith+

definition max_offset_day :: int where
  "max_offset_day = 2147458790"

definition max_offset_sec :: int where
  "max_offset_sec = 24856 * 86400 - 1"

lemma sdiv_day_bounds:
  assumes "\<bar>x\<bar> \<le> max_offset_sec"
  shows "\<bar>x sdiv 86400\<bar> \<le> 24855" "\<bar>x - x sdiv 86400 * 86400\<bar> < 86400"
proof -
  show "\<bar>x - x sdiv 86400 * 86400\<bar> < 86400"
    using smod_int_range [of 86400 x] unfolding minus_sdiv_mult_eq_smod by auto
  have "\<bar>x\<bar> div 86400 \<le> 24855" using assms by (simp add: max_offset_sec_def)
  moreover have "\<bar>x sdiv 86400\<bar> \<le> \<bar>x\<bar> div 86400"
    unfolding signed_divide_int_def by (simp add: abs_mult sgn_if)
  ultimately show "\<bar>x sdiv 86400\<bar> \<le> 24855" by linarith
qed

lemma julian_adj_eq:
  assumes v: "plausible_tm t" and y: "- 6699 \<le> tm_year t" "tm_year t \<le> 990000"
    and off: "\<bar>off_day\<bar> \<le> max_offset_day" "\<bar>offset_sec\<bar> \<le> max_offset_sec"
  defines "T \<equiv> tm_seconds t + off_day * 86400 + offset_sec"
  shows "julian_adj t off_day offset_sec =
    Some (if T div 86400 < 0 then None else Some (T div 86400, T mod 86400))"
proof -
  define q where "q = offset_sec sdiv 86400"
  define s where "s = offset_sec - q * 86400"
  define hms where "hms = s + tm_clock t"
  define J where "J = tm_day t"
  note qs = sdiv_day_bounds [OF off(2), folded q_def, folded s_def]
  note cl = tm_clock_bounds [OF v]
  have t: "0 \<le> tm_hour t" "tm_hour t < 24" "0 \<le> tm_min t" "tm_min t < 60" "0 \<le> tm_sec t" "tm_sec t < 60"
    using v by (simp_all add: plausible_tm_def)
  have mon: "1 \<le> tm_mon t + 1" "tm_mon t + 1 \<le> 12" "1 \<le> tm_mday t" "tm_mday t \<le> 31"
    using v by (simp_all add: plausible_tm_def)
  have J: "date_to_julian (tm_year t + 1900) (tm_mon t + 1) (tm_mday t) = Some J"
    unfolding J_def tm_day_def by (rule date_to_julian_eq) (use y mon in linarith)+
  have "- 2147483648 \<le> J" "J < 2147483648"
    using J unfolding date_to_julian_def by (auto simp: c_int_def bind_eq_Some_conv Let_def split: if_splits)
  note J_bounds = this
  have Teq: "T = hms + (J + q + off_day) * 86400" by (simp add: T_def tm_seconds_def J_def hms_def s_def)
  have Td: "T div 86400 = J + q + off_day + hms div 86400" unfolding Teq by (subst div_mult_self1) simp_all
  have Tm: "T mod 86400 = hms mod 86400" unfolding Teq by (rule mod_mult_self1)
  have hb: "- 86400 < hms" "hms < 2 * 86400" unfolding hms_def using qs cl by linarith+
  have tq: "to_int q = q" "to_int s = s" by (rule to_int_ok; use qs in linarith)+
  have od: "- 2147483648 \<le> q + off_day - 1" "q + off_day + 1 < 2147483648"
    using qs(1) off(1) unfolding max_offset_day_def by linarith+
  have ok: "c_int (q * 86400) = Some (q * 86400)" "c_int (q + off_day) = Some (q + off_day)"
    "c_int (tm_hour t * 3600) = Some (tm_hour t * 3600)" "c_int (tm_min t * 60) = Some (tm_min t * 60)"
    "c_int (tm_hour t * 3600 + tm_min t * 60) = Some (tm_hour t * 3600 + tm_min t * 60)"
    "c_int (tm_clock t) = Some (tm_clock t)" "c_int hms = Some hms"
    "c_int (tm_year t + 1900) = Some (tm_year t + 1900)" "c_int (tm_mon t + 1) = Some (tm_mon t + 1)"
    using qs cl t od hb y mon by (intro c_int_ok; linarith)+
  have ok_day: "c_int (q + off_day + 1) = Some (q + off_day + 1)" "c_int (q + off_day - 1) = Some (q + off_day - 1)"
    "hms \<ge> 86400 \<Longrightarrow> c_int (hms - 86400) = Some (hms - 86400)" "hms < 0 \<Longrightarrow> c_int (hms + 86400) = Some (hms + 86400)"
    using od hb by (intro c_int_ok; linarith)+
  have okl: "c_long s = Some s"
    "\<And>x. \<bar>x\<bar> \<le> 2147483648 \<Longrightarrow> c_long (J + x) = Some (J + x)"
    using qs J_bounds by (intro c_long_ok; linarith)+
  note start = julian_adj_def SECS_PER_DAY_def
  consider (over) "86400 \<le> hms" | (under) "hms < 0" | (same) "0 \<le> hms" "hms < 86400" by linarith
  then show ?thesis
  proof cases
    case over
    have "hms div 86400 = 1" "hms mod 86400 = hms - 86400 * 1"
      by (rule div_in mod_in; use over hb in linarith)+
    then show ?thesis
      using over od
      by (simp add: start q_def [symmetric] s_def [symmetric] tq ok ok_day okl tm_clock_def [symmetric] hms_def [symmetric] J Td Tm)
  next
    case under
    have "hms div 86400 = - 1" "hms mod 86400 = hms - 86400 * - 1"
      by (rule div_in mod_in; use under hb in linarith)+
    then show ?thesis
      using under od
      by (simp add: start q_def [symmetric] s_def [symmetric] tq ok ok_day okl tm_clock_def [symmetric] hms_def [symmetric] J Td Tm)
  next
    case same
    then show ?thesis
      using od
      by (simp add: start q_def [symmetric] s_def [symmetric] tq ok ok_day okl tm_clock_def [symmetric] hms_def [symmetric] J Td Tm)
  qed
qed

lemma tm_day_bounds:
  assumes "plausible_tm t" "- 1900 \<le> tm_year t" "tm_year t \<le> 990000"
  shows "0 \<le> tm_day t" "tm_day t < 400000000"
proof -
  have m: "1 \<le> tm_mon t + 1" "tm_mon t + 1 \<le> 12" "1 \<le> tm_mday t" "tm_mday t \<le> 31"
    using assms(1) by (simp_all add: plausible_tm_def)
  have y: "- 4799 \<le> tm_year t + 1900" using assms(2) by simp
  show "0 \<le> tm_day t" "tm_day t < 400000000"
    using jdn_bounds [OF m y] assms(2,3) unfolding tm_day_def distrib_left by linarith+
qed

lemma seconds_div: "0 \<le> tm_clock t \<Longrightarrow> tm_clock t < 86400 \<Longrightarrow> tm_seconds t div 86400 = tm_day t"
  "0 \<le> tm_clock t \<Longrightarrow> tm_clock t < 86400 \<Longrightarrow> tm_seconds t mod 86400 = tm_clock t"
  unfolding tm_seconds_def by simp_all

text \<open>The fields that \<open>OPENSSL_gmtime_adj\<close> stores for second \<open>s\<close> of a day.\<close>

lemma clock_fields:
  fixes s :: int
  assumes "0 \<le> s" "s < 86400"
  shows "0 \<le> s sdiv 3600" "s sdiv 3600 < 24" "0 \<le> (s sdiv 60) smod 60" "(s sdiv 60) smod 60 < 60"
    "0 \<le> s smod 60" "s smod 60 < 60" "s sdiv 3600 * 3600 + (s sdiv 60) smod 60 * 60 + s smod 60 = s"
proof -
  have d: "s div 60 div 60 = s div 3600" by (simp add: zdiv_zmult2_eq [symmetric])
  show "0 \<le> s sdiv 3600" "s sdiv 3600 < 24" "0 \<le> (s sdiv 60) smod 60" "(s sdiv 60) smod 60 < 60"
    "0 \<le> s smod 60" "s smod 60 < 60"
    using assms by (simp_all add: sdiv_nonneg smod_nonneg)
  have "s div 3600 * 3600 + s div 60 mod 60 * 60 + s mod 60 = (s div 60 div 60 * 60 + s div 60 mod 60) * 60 + s mod 60"
    unfolding d by simp
  then show "s sdiv 3600 * 3600 + (s sdiv 60) smod 60 * 60 + s smod 60 = s"
    using assms by (simp add: sdiv_nonneg smod_nonneg)
qed

lemma tm_day_date:
  assumes "valid_tm t" "- 1900 \<le> tm_year t" "tm_year t \<le> 990000"
  shows "julian_to_date (tm_day t) = Some (tm_year t + 1900, tm_mon t + 1, tm_mday t)"
  unfolding tm_day_def by (rule julian_to_date_jdn) (use assms in \<open>simp_all add: valid_tm_def\<close>)

text \<open>A time is determined by its number of seconds.\<close>

lemma tm_seconds_inj:
  assumes v: "valid_tm t" "valid_tm t'" and y: "- 1900 \<le> tm_year t" "tm_year t \<le> 990000" "- 1900 \<le> tm_year t'" "tm_year t' \<le> 990000"
    and eq: "tm_seconds t = tm_seconds t'"
  shows "t = t'"
proof -
  note c = tm_clock_bounds [OF valid_tm_plausible [OF v(1)]] tm_clock_bounds [OF valid_tm_plausible [OF v(2)]]
  have "tm_day t = tm_day t'" using seconds_div(1) c eq by metis
  then have "(tm_year t + 1900, tm_mon t + 1, tm_mday t) = (tm_year t' + 1900, tm_mon t' + 1, tm_mday t')"
    using tm_day_date [OF v(1) y(1,2)] tm_day_date [OF v(2) y(3,4)] by simp
  moreover have "tm_clock t = tm_clock t'" using seconds_div(2) c eq by metis
  moreover have "tm_hour u = tm_clock u div 3600 \<and> tm_min u = tm_clock u mod 3600 div 60 \<and> tm_sec u = tm_clock u mod 3600 mod 60"
    if "valid_tm u" for u
  proof -
    have b: "0 \<le> tm_min u * 60 + tm_sec u" "tm_min u * 60 + tm_sec u < 3600" "0 \<le> tm_sec u" "tm_sec u < 60"
      using that by (auto simp: valid_tm_def)
    have "tm_clock u div 3600 = tm_hour u" "tm_clock u mod 3600 = tm_clock u - 3600 * tm_hour u"
      by (rule div_in mod_in; use b in \<open>simp add: tm_clock_def\<close>)+
    moreover have "(tm_min u * 60 + tm_sec u) div 60 = tm_min u" "(tm_min u * 60 + tm_sec u) mod 60 = (tm_min u * 60 + tm_sec u) - 60 * tm_min u"
      by (rule div_in mod_in; use b in simp)+
    ultimately show ?thesis by (simp add: tm_clock_def)
  qed
  ultimately show ?thesis
    using v by (intro tm.equality) simp_all
qed

lemma adjusted_day_bound:
  assumes "plausible_tm t" "- 1900 \<le> tm_year t" "tm_year t \<le> 8099"
    and "\<bar>off_day\<bar> \<le> max_offset_day" "\<bar>offset_sec\<bar> \<le> max_offset_sec"
  shows "(tm_seconds t + off_day * 86400 + offset_sec) div 86400 \<le> 3000000000"
proof -
  have "tm_seconds t + off_day * 86400 + offset_sec \<le> 400000000 * 86400 + 86400 + max_offset_day * 86400 + max_offset_sec"
    using tm_day_bounds(2) [OF assms(1,2)] tm_clock_bounds [OF assms(1)] assms(3-5)
    unfolding tm_seconds_def by linarith
  then show ?thesis by (simp add: max_offset_day_def max_offset_sec_def)
qed

lemma gmtime_adj_spec:
  assumes "plausible_tm t" "- 1900 \<le> tm_year t" "tm_year t \<le> 8099"
    and "\<bar>off_day\<bar> \<le> max_offset_day" "\<bar>offset_sec\<bar> \<le> max_offset_sec"
  shows "\<exists>r. OPENSSL_gmtime_adj t off_day offset_sec = Some r \<and>
    (\<forall>t'. r = Some t' \<longleftrightarrow>
       valid_tm t' \<and> 0 \<le> tm_year t' \<and> tm_year t' \<le> 8099 \<and>
       tm_seconds t' = tm_seconds t + off_day * 86400 + offset_sec)"
proof -
  define T where "T = tm_seconds t + off_day * 86400 + offset_sec"
  have adj: "julian_adj t off_day offset_sec =
      Some (if T div 86400 < 0 then None else Some (T div 86400, T mod 86400))"
    unfolding T_def by (rule julian_adj_eq [OF assms(1)]) (use assms in simp_all)
  have day: "tm_day t' = T div 86400" if "valid_tm t'" "tm_seconds t' = T" for t'
    using seconds_div(1) tm_clock_bounds valid_tm_plausible that by metis
  show ?thesis
  proof (cases "T div 86400 < 0")
    case True
    then have "OPENSSL_gmtime_adj t off_day offset_sec = Some None" by (simp add: OPENSSL_gmtime_adj_def adj)
    moreover have "\<not> (valid_tm t' \<and> 0 \<le> tm_year t' \<and> tm_year t' \<le> 8099 \<and> tm_seconds t' = T)" for t'
      using day [of t'] tm_day_bounds(1) [OF valid_tm_plausible, of t'] True by force
    ultimately show ?thesis unfolding T_def by auto
  next
    case False
    have "T div 86400 \<le> 3000000000"
      unfolding T_def by (rule adjusted_day_bound [OF assms(1)]) (use assms in simp_all)
    then obtain y m d where jd: "julian_to_date (T div 86400) = Some (y, m, d)" "valid_date y m d" "jdn y m d = T div 86400"
      using julian_to_date_total [of "T div 86400"] False by auto
    define s where "s = T mod 86400"
    have s: "0 \<le> s" "s < 86400" by (simp_all add: s_def)
    note f = clock_fields [OF s]
    show ?thesis
    proof (cases "y < 1900 \<or> y > 9999")
      case True
      then have "OPENSSL_gmtime_adj t off_day offset_sec = Some None"
        using False by (simp add: OPENSSL_gmtime_adj_def adj jd(1))
      moreover have "\<not> (valid_tm t' \<and> 0 \<le> tm_year t' \<and> tm_year t' \<le> 8099 \<and> tm_seconds t' = T)" for t'
        using day [of t'] tm_day_date [of t'] jd(1) True by force
      ultimately show ?thesis unfolding T_def by auto
    next
      case year: False
      define t0 where "t0 = t\<lparr>tm_year := y - 1900, tm_mon := m - 1, tm_mday := d, tm_hour := s sdiv 3600,
        tm_min := (s sdiv 60) smod 60, tm_sec := s smod 60\<rparr>"
      have m: "1 \<le> m" "m \<le> 12" using jd(2) by (simp_all add: valid_date_def)
      have "c_int (y - 1900) = Some (y - 1900)" "c_int (m - 1) = Some (m - 1)"
        using year m by (intro c_int_ok; linarith)+
      then have r: "OPENSSL_gmtime_adj t off_day offset_sec = Some (Some t0)"
        using False year by (simp add: OPENSSL_gmtime_adj_def adj jd(1) s_def [symmetric] t0_def)
      have v0: "valid_tm t0" using f jd(2) by (simp add: valid_tm_def t0_def)
      have "tm_hour t0 = s sdiv 3600" "tm_min t0 = (s sdiv 60) smod 60" "tm_sec t0 = s smod 60"
        by (simp_all add: t0_def)
      then have "tm_clock t0 = s" by (simp only: tm_clock_def f(7))
      moreover have "tm_day t0 = T div 86400" using jd(3) by (simp add: tm_day_def t0_def)
      ultimately have "tm_seconds t0 = T" by (simp only: tm_seconds_def s_def div_mult_mod_eq)
      moreover have "0 \<le> tm_year t0" "tm_year t0 \<le> 8099" using year by (simp_all add: t0_def)
      ultimately have a: "valid_tm t0 \<and> 0 \<le> tm_year t0 \<and> tm_year t0 \<le> 8099 \<and> tm_seconds t0 = T"
        using v0 by blast
      have "t0 = t'" if "valid_tm t' \<and> 0 \<le> tm_year t' \<and> tm_year t' \<le> 8099 \<and> tm_seconds t' = T" for t'
        by (rule tm_seconds_inj [OF v0]) (use a that in simp_all)
      then show ?thesis
        using r a unfolding T_def [symmetric] by (intro exI [of _ "Some t0"]) (metis option.inject)
    qed
  qed
qed

lemma gmtime_diff_spec:
  assumes "plausible_tm from" "- 1900 \<le> tm_year from" "tm_year from \<le> 8099"
    and "plausible_tm to" "- 1900 \<le> tm_year to" "tm_year to \<le> 8099"
  shows "\<exists>days secs. OPENSSL_gmtime_diff from to = Some (Some (days, secs)) \<and>
    days * 86400 + secs = tm_seconds to - tm_seconds from \<and> \<bar>secs\<bar> < 86400 \<and>
    \<not> (days > 0 \<and> secs < 0) \<and> \<not> (days < 0 \<and> secs > 0)"
proof -
  have adj: "julian_adj t 0 0 = Some (Some (tm_day t, tm_clock t))"
    if "plausible_tm t" "- 1900 \<le> tm_year t" "tm_year t \<le> 8099" for t
    using that julian_adj_eq [OF that(1), of 0 0] tm_day_bounds [OF that(1,2)]
      tm_clock_bounds [OF that(1)]
    by (simp add: seconds_div max_offset_day_def max_offset_sec_def)
  have d: "0 \<le> tm_day t \<and> tm_day t < 400000000 \<and> 0 \<le> tm_clock t \<and> tm_clock t < 86400"
    if "plausible_tm t" "- 1900 \<le> tm_year t" "tm_year t \<le> 8099" for t
    using that tm_day_bounds [OF that(1,2)] tm_clock_bounds [OF that(1)] by simp
  define D where "D = tm_day to - tm_day from"
  define S where "S = tm_clock to - tm_clock from"
  have b: "\<bar>D\<bar> < 400000000" "\<bar>S\<bar> < 86400"
    using d [OF assms(1-3)] d [OF assms(4-6)] unfolding D_def S_def by linarith+
  have DS: "tm_seconds to - tm_seconds from = D * 86400 + S" by (simp add: tm_seconds_def D_def S_def)
  have ok: "c_long D = Some D" "c_int S = Some S" "c_long (D - 1) = Some (D - 1)" "c_long (D + 1) = Some (D + 1)"
    "c_int (S + 86400) = Some (S + 86400)" "c_int (S - 86400) = Some (S - 86400)"
    "to_int D = D" "to_int (D - 1) = D - 1" "to_int (D + 1) = D + 1"
    using b by (intro c_long_ok c_int_ok to_int_ok; linarith)+
  note body = OPENSSL_gmtime_diff_def adj [OF assms(1-3)] adj [OF assms(4-6)] D_def [symmetric] S_def [symmetric] SECS_PER_DAY_def ok
  consider "D > 0" "S < 0" | "D < 0" "S > 0" | "\<not> (D > 0 \<and> S < 0)" "\<not> (D < 0 \<and> S > 0)" by linarith
  then show ?thesis
  proof cases
    case 1
    then show ?thesis using b by (simp add: body DS)
  next
    case 2
    then show ?thesis using b by (simp add: body DS)
  next
    case 3
    then have "OPENSSL_gmtime_diff from to = Some (Some (D, S))" by (auto simp: body)
    then show ?thesis using b 3 DS by simp
  qed
qed

subsection \<open>Properties\<close>

text \<open>
  C25: Fliegel and Van Flandern's formulas are the Gregorian calendar: for every date that
  exists from the year -4799 to 999999, \<open>date_to_julian\<close> does not overflow, gives the next
  date the next number and is inverted by \<open>julian_to_date\<close>; 1 January 1970 has day number
  2440588.
\<close>

theorem julian_calendar:
  assumes "valid_date y m d" "- 4799 \<le> y" "y \<le> 999999" "next_date (y, m, d) = (y', m', d')"
  shows "\<exists>j. date_to_julian y m d = Some j \<and> julian_to_date j = Some (y, m, d) \<and>
     date_to_julian y' m' d' = Some (j + 1) \<and> date_to_julian 1970 1 1 = Some 2440588"
proof -
  have v': "valid_date y' m' d'" "y \<le> y'" by (rule next_date_valid [OF assms(1,4)])+
  have y': "y' \<le> 1000000" using assms(3,4) by (auto simp: next_date_def split: if_splits)
  have "date_to_julian y m d = Some (jdn y m d)"
    by (rule date_to_julian_eq) (use assms valid_date_month [OF assms(1)] in linarith)+
  moreover have "date_to_julian y' m' d' = Some (jdn y m d + 1)"
    unfolding jdn_next [OF assms(1,4), symmetric]
    by (rule date_to_julian_eq) (use assms v' y' valid_date_month [OF v'(1)] in linarith)+
  moreover have "julian_to_date (jdn y m d) = Some (y, m, d)"
    by (rule julian_to_date_jdn [OF assms(1)]) (use assms in linarith)+
  moreover have "date_to_julian 1970 1 1 = Some 2440588"
    using date_to_julian_eq [of 1970 1 1] by (simp add: jdn_def march_year_def month_start_def year_days_def)
  ultimately show ?thesis by blast
qed

theorem julian_calendar_witness:
  "\<exists>j. date_to_julian 2024 2 29 = Some j \<and> julian_to_date j = Some (2024, 2, 29) \<and>
     date_to_julian 2024 3 1 = Some (j + 1) \<and> date_to_julian 1970 1 1 = Some 2440588"
  by (rule julian_calendar) (simp_all add: valid_date_def next_date_def days_in_month_def leap_year_def)

text \<open>
  C26: Adding days and seconds to a time of the years 0 to 9999 whose fields are in range (the
  day may not exist in its month) never overflows while the seconds are less than 24856 days and the
  days at most 2147458790. For such offsets it
  returns the valid time of the years 1900 to 9999 that is exactly that many seconds
  later, and it fails exactly when there is no such time.
\<close>

theorem gmtime_adj_exact:
  assumes "plausible_tm t" "- 1900 \<le> tm_year t" "tm_year t \<le> 8099"
    and "\<bar>off_day\<bar> \<le> max_offset_day" "\<bar>offset_sec\<bar> \<le> max_offset_sec"
  shows "\<exists>r. OPENSSL_gmtime_adj t off_day offset_sec = Some r \<and>
    (\<forall>t'. r = Some t' \<longleftrightarrow>
       valid_tm t' \<and> 0 \<le> tm_year t' \<and> tm_year t' \<le> 8099 \<and>
       tm_seconds t' = tm_seconds t + off_day * 86400 + offset_sec)"
  by (rule gmtime_adj_spec [OF assms])

theorem gmtime_adj_exact_witness:
  "\<exists>r. OPENSSL_gmtime_adj \<lparr>tm_sec = 0, tm_min = 0, tm_hour = 0, tm_mday = 1, tm_mon = 0, tm_year = 100\<rparr> 365 (- 5) = Some r \<and>
    (\<forall>t'. r = Some t' \<longleftrightarrow>
       valid_tm t' \<and> 0 \<le> tm_year t' \<and> tm_year t' \<le> 8099 \<and>
       tm_seconds t' = tm_seconds \<lparr>tm_sec = 0, tm_min = 0, tm_hour = 0, tm_mday = 1, tm_mon = 0, tm_year = 100\<rparr> + 365 * 86400 + - 5)"
  by (rule gmtime_adj_exact)
     (simp_all add: plausible_tm_def max_offset_day_def max_offset_sec_def)

text \<open>
  On offsets of 24856 days or more of seconds (up to the range of \<open>int\<close> days) the product
  \<open>offset_day * SECS_PER_DAY\<close> overflows \<open>int\<close>, although the parameter is a \<open>long\<close>: the
  behaviour is undefined for every time.
\<close>

theorem gmtime_adj_overflow:
  assumes "max_offset_sec < offset_sec" "offset_sec < 2 ^ 31 * 86400"
  shows "OPENSSL_gmtime_adj t off_day offset_sec = None"
proof -
  define q where "q = offset_sec div 86400"
  have "q * 86400 \<le> offset_sec" by (simp add: q_def)
  moreover have "24856 \<le> q" using zdiv_mono1 [of "24856 * 86400" offset_sec 86400] assms(1)
    by (simp add: q_def max_offset_sec_def)
  ultimately have q: "24856 \<le> q" "q < 2147483648" using assms(2) by simp_all
  have "to_int (offset_sec sdiv 86400) = q"
    using assms q by (simp add: sdiv_nonneg q_def [symmetric] max_offset_sec_def to_int_ok)
  moreover have "c_int (q * 86400) = None" using q by (simp add: c_int_def)
  ultimately show ?thesis by (simp add: OPENSSL_gmtime_adj_def julian_adj_def SECS_PER_DAY_def)
qed

theorem gmtime_adj_overflow_witness:
  "OPENSSL_gmtime_adj \<lparr>tm_sec = 0, tm_min = 0, tm_hour = 0, tm_mday = 1, tm_mon = 0, tm_year = 100\<rparr> 0 2147558400 = None"
  by (rule gmtime_adj_overflow) (simp_all add: max_offset_sec_def)

text \<open>
  The difference of two times of the years 0 to 9999 with fields in range is always
  computed and is exact: the days and seconds add up to the seconds between the times, never
  have opposite signs, and the seconds are less than a day.
\<close>

theorem gmtime_diff_exact:
  assumes "plausible_tm from" "- 1900 \<le> tm_year from" "tm_year from \<le> 8099"
    and "plausible_tm to" "- 1900 \<le> tm_year to" "tm_year to \<le> 8099"
  shows "\<exists>days secs. OPENSSL_gmtime_diff from to = Some (Some (days, secs)) \<and>
    days * 86400 + secs = tm_seconds to - tm_seconds from \<and> \<bar>secs\<bar> < 86400 \<and>
    \<not> (days > 0 \<and> secs < 0) \<and> \<not> (days < 0 \<and> secs > 0)"
  by (rule gmtime_diff_spec [OF assms])

theorem gmtime_diff_exact_witness:
  "\<exists>days secs. OPENSSL_gmtime_diff \<lparr>tm_sec = 1, tm_min = 0, tm_hour = 0, tm_mday = 1, tm_mon = 0, tm_year = 100\<rparr>
       \<lparr>tm_sec = 0, tm_min = 0, tm_hour = 0, tm_mday = 3, tm_mon = 0, tm_year = 100\<rparr> = Some (Some (days, secs)) \<and>
    days * 86400 + secs = tm_seconds \<lparr>tm_sec = 0, tm_min = 0, tm_hour = 0, tm_mday = 3, tm_mon = 0, tm_year = 100\<rparr> -
      tm_seconds \<lparr>tm_sec = 1, tm_min = 0, tm_hour = 0, tm_mday = 1, tm_mon = 0, tm_year = 100\<rparr> \<and> \<bar>secs\<bar> < 86400 \<and>
    \<not> (days > 0 \<and> secs < 0) \<and> \<not> (days < 0 \<and> secs > 0)"
  by (rule gmtime_diff_exact) (simp_all add: plausible_tm_def)

end
