(* ===== verification/Asn1_String.thy ===== *)
theory Asn1_String
  imports Calendar Mem
begin

text \<open>
  The \<open>ASN1_STRING\<close> objects of \<open>crypto/asn1/asn1_lib.c\<close>, which hold string and time values.
  The data pointer is the list of the bytes of the region it points to, or \<open>None\<close> for
  \<open>NULL\<close>. The outer option of an operation is \<open>None\<close> on undefined behaviour: a signed
  overflow of an \<open>int\<close>, or an access outside a region. The number of allocator calls is
  threaded through. Lemmas: storing a string keeps the invariant that the region holds at
  least \<open>length\<close> bytes, terminates the copy, and fails only without memory.
\<close>

record ASN1_STRING =
  as_length :: int
  as_type :: int
  as_data :: "byte list option"
  as_flags :: int

definition V_ASN1_OCTET_STRING :: int where "V_ASN1_OCTET_STRING = 4"

definition V_ASN1_UTCTIME :: int where "V_ASN1_UTCTIME = 23"

definition V_ASN1_GENERALIZEDTIME :: int where "V_ASN1_GENERALIZEDTIME = 24"

definition sizeof_ASN1_STRING :: nat where
  "sizeof_ASN1_STRING = 24"

definition ASN1_STRING_type_new :: "allocator \<Rightarrow> nat \<Rightarrow> int \<Rightarrow> ASN1_STRING option \<times> nat" where
  "ASN1_STRING_type_new m k type =
     (case OPENSSL_malloc m k sizeof_ASN1_STRING of
        None \<Rightarrow> (None, k + 1)
      | Some _ \<Rightarrow> (Some \<lparr>as_length = 0, as_type = type, as_data = None, as_flags = 0\<rparr>, k + 1))"

definition ASN1_STRING_new :: "allocator \<Rightarrow> nat \<Rightarrow> ASN1_STRING option \<times> nat" where
  "ASN1_STRING_new m k = ASN1_STRING_type_new m k V_ASN1_OCTET_STRING"

text \<open>\<open>memcpy\<close> of \<open>n\<close> bytes and the terminator behind them; outside a region it is undefined.\<close>

definition store_string :: "byte list \<Rightarrow> byte list \<Rightarrow> nat \<Rightarrow> byte list option" where
  "store_string region src n =
     (if n \<le> length src \<and> n < length region then Some (mem_write 0 (take n src @ [0]) region) else None)"

text \<open>Return value, the string and the number of allocator calls.\<close>

definition ASN1_STRING_set ::
  "allocator \<Rightarrow> nat \<Rightarrow> ASN1_STRING \<Rightarrow> byte list option \<Rightarrow> int \<Rightarrow> (bool \<times> ASN1_STRING \<times> nat) option" where
  "ASN1_STRING_set m k str data len0 =
     (if len0 < 0 \<and> data = None then Some (False, str, k)
      else do {
        let n = (if len0 < 0 then to_int (int (strlen (the data))) else len0);
        (ok, region, k) \<leftarrow>
          (if as_length str \<le> n \<or> as_data str = None
           then do {
             n1 \<leftarrow> c_int (n + 1);
             (case OPENSSL_realloc m k (as_data str) (nat n1) of
                None \<Rightarrow> Some (False, as_data str, k + 1)
              | Some p \<Rightarrow> Some (True, Some p, k + 1))
           }
           else Some (True, as_data str, k));
        (if \<not> ok then Some (False, str, k)
         else (case data of
                 None \<Rightarrow> Some (True, str\<lparr>as_data := region, as_length := n\<rparr>, k)
               | Some src \<Rightarrow> do {
                   r \<leftarrow> store_string (the region) src (nat n);
                   Some (True, str\<lparr>as_data := Some r, as_length := n\<rparr>, k)
                 }))
      })"

definition ASN1_STRING_set0 :: "ASN1_STRING \<Rightarrow> byte list option \<Rightarrow> int \<Rightarrow> ASN1_STRING" where
  "ASN1_STRING_set0 str data n = str\<lparr>as_data := data, as_length := n\<rparr>"

definition ASN1_STRING_copy ::
  "allocator \<Rightarrow> nat \<Rightarrow> ASN1_STRING \<Rightarrow> ASN1_STRING option \<Rightarrow> (bool \<times> ASN1_STRING \<times> nat) option" where
  "ASN1_STRING_copy m k dst str =
     (case str of
        None \<Rightarrow> Some (False, dst, k)
      | Some s \<Rightarrow> do {
          (ok, dst, k) \<leftarrow> ASN1_STRING_set m k dst (as_data s) (as_length s);
          Some (if ok then (True, dst\<lparr>as_type := as_type s, as_flags := as_flags s\<rparr>, k) else (False, dst, k))
        })"

definition ASN1_STRING_dup ::
  "allocator \<Rightarrow> nat \<Rightarrow> ASN1_STRING option \<Rightarrow> (ASN1_STRING option \<times> nat) option" where
  "ASN1_STRING_dup m k str =
     (case str of
        None \<Rightarrow> Some (None, k)
      | Some s \<Rightarrow>
          (case ASN1_STRING_new m k of
             (None, k) \<Rightarrow> Some (None, k)
           | (Some ret, k) \<Rightarrow> do {
               (ok, ret, k) \<leftarrow> ASN1_STRING_copy m k ret (Some s);
               Some (if ok then Some ret else None, k)
             }))"

definition ASN1_STRING_length :: "ASN1_STRING \<Rightarrow> int" where
  "ASN1_STRING_length str = as_length str"

definition ASN1_STRING_type :: "ASN1_STRING \<Rightarrow> int" where
  "ASN1_STRING_type str = as_type str"

definition ASN1_STRING_data :: "ASN1_STRING \<Rightarrow> byte list option" where
  "ASN1_STRING_data str = as_data str"

definition ASN1_STRING_get0_data :: "ASN1_STRING \<Rightarrow> byte list option" where
  "ASN1_STRING_get0_data str = as_data str"

subsection \<open>The invariant and what storing does\<close>

definition string_ok :: "ASN1_STRING \<Rightarrow> bool" where
  "string_ok s \<longleftrightarrow>
     0 \<le> as_length s \<and> as_length s < 2 ^ 31 \<and>
     (case as_data s of None \<Rightarrow> as_length s = 0 | Some d \<Rightarrow> nat (as_length s) \<le> length d)"

text \<open>The bytes of a value, without the terminator.\<close>

definition string_bytes :: "ASN1_STRING \<Rightarrow> byte list" where
  "string_bytes s = take (nat (as_length s)) (case as_data s of None \<Rightarrow> [] | Some d \<Rightarrow> d)"

definition terminated :: "ASN1_STRING \<Rightarrow> bool" where
  "terminated s \<longleftrightarrow>
     (\<exists>d. as_data s = Some d \<and> nat (as_length s) < length d \<and> d ! nat (as_length s) = 0)"

lemma ASN1_STRING_type_new_ok:
  "ASN1_STRING_type_new m k type = (Some s, k') \<Longrightarrow> string_ok s \<and> as_type s = type \<and> k' = k + 1"
  by (auto simp: ASN1_STRING_type_new_def string_ok_def split: option.splits)

lemma realloc_length: "OPENSSL_realloc m k p n = Some r \<Longrightarrow> length r = n"
  by (auto simp: OPENSSL_realloc_def OPENSSL_malloc_def Let_def split: option.splits if_splits)

lemma ASN1_STRING_set_result:
  assumes s: "string_ok str" and len: "0 \<le> n" "n < 2 ^ 31 - 1" and src: "nat n \<le> length src"
  obtains (fail) k' where "ASN1_STRING_set m k str (Some src) n = Some (False, str, k')"
  | (stored) str' k' where "ASN1_STRING_set m k str (Some src) n = Some (True, str', k')" "string_ok str'"
      "terminated str'" "string_bytes str' = take (nat n) src" "as_length str' = n" "as_type str' = as_type str"
proof -
  have store: thesis if r: "ASN1_STRING_set m k str (Some src) n =
      Option.bind (store_string region src (nat n)) (\<lambda>r. Some (True, str\<lparr>as_data := Some r, as_length := n\<rparr>, k'))"
      "nat n < length region" for region k'
  proof -
    define d where "d = mem_write 0 (take (nat n) src @ [0]) region"
    have d: "d = take (nat n) src @ [0] @ drop (nat n + 1) region"
      using src by (simp add: d_def mem_write_def min_absorb2)
    have "store_string region src (nat n) = Some d" using r(2) src by (simp add: store_string_def d_def)
    moreover have "length (take (nat n) src) = nat n" using src by simp
    then have "take (nat n) d = take (nat n) src" "d ! nat n = 0" "nat n < length d"
      unfolding d by (simp_all add: nth_append)
    ultimately show thesis
      using r(1) len by (intro stored [of "str\<lparr>as_data := Some d, as_length := n\<rparr>" k']) (simp_all add: string_ok_def terminated_def string_bytes_def)
  qed
  show thesis
  proof (cases "as_length str \<le> n \<or> as_data str = None")
    case True
    have n1: "c_int (n + 1) = Some (n + 1)" using len by (intro c_int_ok) auto
    show thesis
    proof (cases "OPENSSL_realloc m k (as_data str) (nat (n + 1))")
      case None
      then show thesis using True len n1 by (intro fail) (simp add: ASN1_STRING_set_def)
    next
      case (Some p)
      then have "nat n < length p" using realloc_length [OF Some] len by simp
      then show thesis using True len n1 Some by (intro store [of p]) (simp_all add: ASN1_STRING_set_def)
    qed
  next
    case False
    then obtain d where d: "as_data str = Some d" by auto
    then have "nat n < length d" using False s len by (simp add: string_ok_def) linarith
    then show thesis using False len d by (intro store [of d]) (simp_all add: ASN1_STRING_set_def)
  qed
qed

end
