(* ===== verification/Decimal.thy ===== *)
theory Decimal
  imports Mem
begin

text \<open>
  The integer conversions of the C library's \<open>printf\<close> that the sources use: \<open>%u\<close> and its
  64-bit variant print a number in decimal, \<open>%0wd\<close> pads a signed number with zeros to
  the width \<open>w\<close>. The lemmas say which bytes they print and that reading the digits gives
  the number back.
\<close>

definition digit :: "nat \<Rightarrow> byte" where
  "digit n = word_of_nat (0x30 + n)"

definition is_digit :: "byte \<Rightarrow> bool" where
  "is_digit c \<longleftrightarrow> 0x30 \<le> c \<and> c \<le> 0x39"

definition digit_val :: "byte \<Rightarrow> nat" where
  "digit_val c = unat (c - 0x30)"

fun decimal :: "nat \<Rightarrow> byte list" where
  "decimal n = (if n < 10 then [digit n] else decimal (n div 10) @ [digit (n mod 10)])"

declare decimal.simps [simp del]

definition printf_0d :: "nat \<Rightarrow> int \<Rightarrow> byte list" where
  "printf_0d w x =
     (let ds = decimal (nat \<bar>x\<bar>); sign = (if x < 0 then [0x2d] else [])
      in sign @ replicate (w - length sign - length ds) 0x30 @ ds)"

text \<open>\<open>BIO_snprintf\<close> stores at most \<open>n - 1\<close> characters and a terminator.\<close>

definition BIO_snprintf :: "byte list \<Rightarrow> nat \<Rightarrow> byte list \<Rightarrow> byte list" where
  "BIO_snprintf buf n out = (if n = 0 then buf else mem_write 0 (take (n - 1) out @ [0]) buf)"

definition decimal_val :: "byte list \<Rightarrow> nat" where
  "decimal_val ds = foldl (\<lambda>v c. v * 10 + digit_val c) 0 ds"

lemma unat_digit: "n < 10 \<Longrightarrow> unat (digit n) = 48 + n"
  by (simp add: digit_def unat_of_nat del: of_nat_add)

lemma is_digit_unat: "is_digit c \<longleftrightarrow> 48 \<le> unat c \<and> unat c \<le> 57"
  by (simp add: is_digit_def word_le_nat_alt)

lemma digit_val_unat: "is_digit c \<Longrightarrow> digit_val c = unat c - 48"
  unfolding digit_val_def by (subst unat_sub) (simp_all add: is_digit_unat word_le_nat_alt)

lemma is_digit_digit [simp]: "n < 10 \<Longrightarrow> is_digit (digit n)"
  by (simp add: is_digit_unat unat_digit)

lemma digit_val_digit [simp]: "n < 10 \<Longrightarrow> digit_val (digit n) = n"
  by (simp add: digit_val_unat unat_digit)

lemma digit_val_bound: "is_digit c \<Longrightarrow> digit_val c < 10"
  by (auto simp: digit_val_unat is_digit_unat)

lemma digit_of_val: "is_digit c \<Longrightarrow> digit (digit_val c) = c"
  by (rule unsigned_word_eqI [where ?'a = nat])
     (simp add: digit_val_bound unat_digit, simp add: digit_val_unat is_digit_unat)

lemma decimal_nonempty [simp]: "decimal n \<noteq> []"
  by (subst decimal.simps) simp

lemma decimal_digits: "c \<in> set (decimal n) \<Longrightarrow> is_digit c"
proof (induction n rule: decimal.induct)
  case (1 n)
  then show ?case by (subst (asm) (2) decimal.simps) (auto split: if_splits)
qed

lemma decimal_val_decimal [simp]: "decimal_val (decimal n) = n"
proof (induction n rule: decimal.induct)
  case (1 n)
  then show ?case by (subst decimal.simps) (simp add: decimal_val_def)
qed

lemma decimal_single: "n < 10 \<Longrightarrow> decimal n = [digit n]"
  by (simp add: decimal.simps)

lemma decimal_step: "10 \<le> n \<Longrightarrow> decimal n = decimal (n div 10) @ [digit (n mod 10)]"
  by (simp add: decimal.simps [of n])

lemma length_decimal: "n < 10 ^ k \<Longrightarrow> 0 < k \<Longrightarrow> length (decimal n) \<le> k"
proof (induction n arbitrary: k rule: decimal.induct)
  case (1 n)
  show ?case
  proof (cases "n < 10")
    case True
    then show ?thesis using "1.prems" by (simp add: decimal_single)
  next
    case False
    then obtain j where k: "k = Suc j" "0 < j" using "1.prems" by (cases k; cases "k - 1") auto
    then have "n div 10 < 10 ^ j" using "1.prems"(1) by (simp add: less_mult_imp_div_less mult.commute)
    then have "length (decimal (n div 10)) \<le> j" using "1.IH" [of j] False k by simp
    then show ?thesis using False k by (subst decimal.simps) simp
  qed
qed

text \<open>A two-digit field is its two digits.\<close>

lemma printf_02d:
  assumes "0 \<le> x" "x < 100"
  shows "printf_0d 2 x = [digit (nat x div 10), digit (nat x mod 10)]"
proof (cases "x < 10")
  case True
  have "(0x30 :: byte) = digit 0" by (simp add: digit_def)
  then show ?thesis using True assms by (simp add: printf_0d_def decimal_single)
next
  case False
  then have "nat x div 10 < 10" using assms by simp
  then have "decimal (nat x) = [digit (nat x div 10), digit (nat x mod 10)]"
    using False by (subst decimal.simps) (simp add: decimal_single)
  then show ?thesis using assms by (simp add: printf_0d_def)
qed

text \<open>A four-digit field is two two-digit fields.\<close>

lemma printf_04d:
  assumes "0 \<le> x" "x < 10000"
  shows "printf_0d 4 x = printf_0d 2 (x div 100) @ printf_0d 2 (x mod 100)"
proof -
  define n where "n = nat x"
  have n: "n < 10000" "x = int n" using assms by (simp_all add: n_def)
  have z: "(0x30 :: byte) = digit 0" by (simp add: digit_def)
  have d: "decimal n =
      (if n < 10 then [digit n] else if n < 100 then [digit (n div 10), digit (n mod 10)]
       else if n < 1000 then [digit (n div 100), digit (n div 10 mod 10), digit (n mod 10)]
       else [digit (n div 1000), digit (n div 100 mod 10), digit (n div 10 mod 10), digit (n mod 10)])"
  proof -
    consider "n < 10" | "10 \<le> n" "n < 100" | "100 \<le> n" "n < 1000" | "1000 \<le> n" "n < 10000" using n(1) by linarith
    then show ?thesis
      by cases (simp_all add: decimal_single decimal_step div_mult2_eq [symmetric])
  qed
  have r: "replicate 3 c = [c, c, c]" "replicate 2 c = [c, c]" for c :: byte by (simp_all add: numeral_eq_Suc)
  have "printf_0d 4 x = [digit (n div 1000), digit (n div 100 mod 10), digit (n div 10 mod 10), digit (n mod 10)]"
  proof -
    consider "n < 10" | "10 \<le> n" "n < 100" | "100 \<le> n" "n < 1000" | "1000 \<le> n" "n < 10000" using n(1) by linarith
    then show ?thesis unfolding n(2) by cases (simp_all add: printf_0d_def d z r)
  qed
  moreover have "printf_0d 2 (x div 100) = [digit (n div 1000), digit (n div 100 mod 10)]"
    using n by (subst printf_02d) (simp_all add: nat_div_distrib div_mult2_eq [symmetric])
  moreover have "printf_0d 2 (x mod 100) = [digit (n div 10 mod 10), digit (n mod 10)]"
  proof -
    have "n mod 100 div 10 = n div 10 mod 10" "n mod 100 mod 10 = n mod 10"
      using mod_mult2_eq [of n 10 10] by (simp_all add: mod_mod_cancel)
    then show ?thesis using n by (subst printf_02d) (simp_all add: nat_mod_distrib)
  qed
  ultimately show ?thesis by simp
qed

end
