(* ===== verification/Asn1_Time.thy ===== *)
theory Asn1_Time
  imports Asn1_String Decimal
begin

text \<open>
  UTCTime and GeneralizedTime values: \<open>crypto/asn1/a_utctm.c\<close>, \<open>a_gentm.c\<close> and \<open>a_time.c\<close>.
  The outer option is \<open>None\<close> on undefined behaviour, in particular when a parser reads
  outside the region of the string. \<open>gmtime\<close> is the C library's \<open>gmtime_r\<close>, a parameter
  like the allocator.
\<close>

subsection \<open>Reading a string\<close>

definition char_at :: "byte list \<Rightarrow> nat \<Rightarrow> byte option" where
  "char_at a i = (if i < length a then Some (a ! i) else None)"

text \<open>
  One two-digit field at \<open>i\<close>, with the two checks against the length \<open>l\<close>: the inner option is
  \<open>None\<close> for the jump to \<open>err\<close>.
\<close>

definition field_at :: "byte list \<Rightarrow> int \<Rightarrow> nat \<Rightarrow> int option option" where
  "field_at a l i = do {
     c \<leftarrow> char_at a i;
     (if \<not> is_digit c \<or> int (i + 1) > l then Some None
      else do {
        d \<leftarrow> char_at a (i + 1);
        Some (if \<not> is_digit d \<or> int (i + 2) > l then None
              else Some (int (digit_val c) * 10 + int (digit_val d)))
      })
   }"

text \<open>
  The loop over the fields \<open>is\<close>, which both parsers have with their own limits and members; the
  seconds, field \<open>sec_field\<close>, may be missing. The result is the position reached, or \<open>None\<close> for the
  jump to \<open>err\<close>, and \<open>*tm\<close>.
\<close>

fun time_fields ::
  "(int \<times> int) list \<Rightarrow> (nat \<Rightarrow> int \<Rightarrow> tm \<Rightarrow> tm) \<Rightarrow> nat \<Rightarrow> byte list \<Rightarrow> int \<Rightarrow> nat list \<Rightarrow> nat \<Rightarrow> tm option \<Rightarrow>
     (nat option \<times> tm option) option" where
  "time_fields limits store sec_field a l [] p tm = Some (Some p, tm)"
| "time_fields limits store sec_field a l (i # is) p tm = do {
     c \<leftarrow> char_at a p;
     (if i = sec_field \<and> (c = 0x5a \<or> c = 0x2b \<or> c = 0x2d) then Some (Some p, map_option (\<lambda>t. t\<lparr>tm_sec := 0\<rparr>) tm)
      else do {
        r \<leftarrow> field_at a l p;
        (case r of
           None \<Rightarrow> Some (None, tm)
         | Some n \<Rightarrow>
             if n < fst (limits ! i) \<or> n > snd (limits ! i) then Some (None, tm)
             else time_fields limits store sec_field a l is (p + 2) (map_option (store i n) tm))
      })
   }"

text \<open>A two-digit field without the length checks, as in the time-zone loop.\<close>

definition zone_field_at :: "byte list \<Rightarrow> nat \<Rightarrow> int option option" where
  "zone_field_at a i = do {
     c \<leftarrow> char_at a i;
     (if \<not> is_digit c then Some None
      else do {
        d \<leftarrow> char_at a (i + 1);
        Some (if \<not> is_digit d then None else Some (int (digit_val c) * 10 + int (digit_val d)))
      })
   }"

text \<open>
  The two iterations of the time-zone loop; \<open>lims\<close> are the bounds of hours and minutes. The
  value is the offset in seconds, counted only when there is a \<open>tm\<close> to adjust.
\<close>

definition zone_offset :: "byte list \<Rightarrow> nat \<Rightarrow> (int \<times> int) list \<Rightarrow> bool \<Rightarrow> int option option" where
  "zone_offset a i lims has_tm = do {
     h \<leftarrow> zone_field_at a i;
     (case h of
        None \<Rightarrow> Some None
      | Some h \<Rightarrow>
          if h < fst (lims ! 0) \<or> h > snd (lims ! 0) then Some None
          else do {
            mi \<leftarrow> zone_field_at a (i + 2);
            Some (case mi of
                    None \<Rightarrow> None
                  | Some mi \<Rightarrow>
                      if mi < fst (lims ! 1) \<or> mi > snd (lims ! 1) then None
                      else Some (if has_tm then h * 3600 + mi * 60 else 0))
          })
   }"

text \<open>
  The branch on the time zone at \<open>i\<close>: \<open>None\<close> is the return value 0, \<open>Some\<close> the position
  reached; \<open>*tm\<close> comes with either. \<open>0x5a\<close> is \<open>Z\<close>, \<open>0x2b\<close> and \<open>0x2d\<close> are the signs.
\<close>

definition apply_zone ::
  "byte list \<Rightarrow> int \<Rightarrow> nat \<Rightarrow> byte \<Rightarrow> (int \<times> int) list \<Rightarrow> tm option \<Rightarrow> (nat option \<times> tm option) option" where
  "apply_zone a l i c lims tm =
     (let offsign = (if c = 0x2d then 1 else - 1 :: int); i = i + 1
      in if int (i + 4) > l then Some (None, tm)
         else do {
           r \<leftarrow> zone_offset a i lims (tm \<noteq> None);
           (case r of
              None \<Rightarrow> Some (None, tm)
            | Some offset \<Rightarrow>
                if offset = 0 then Some (Some (i + 4), tm)
                else do {
                  t \<leftarrow> OPENSSL_gmtime_adj (the tm) 0 (offset * offsign);
                  Some (case t of None \<Rightarrow> (None, tm) | Some t \<Rightarrow> (Some (i + 4), Some t))
                })
         })"

subsection \<open>UTCTime\<close>

definition utctime_limits :: "(int \<times> int) list" where
  "utctime_limits = [(0, 99), (1, 12), (1, 31), (0, 23), (0, 59), (0, 59), (0, 12), (0, 59)]"

definition utctime_store :: "nat \<Rightarrow> int \<Rightarrow> tm \<Rightarrow> tm" where
  "utctime_store i n tm =
     (if i = 0 then tm\<lparr>tm_year := (if n < 50 then n + 100 else n)\<rparr>
      else if i = 1 then tm\<lparr>tm_mon := n - 1\<rparr>
      else if i = 2 then tm\<lparr>tm_mday := n\<rparr>
      else if i = 3 then tm\<lparr>tm_hour := n\<rparr>
      else if i = 4 then tm\<lparr>tm_min := n\<rparr>
      else tm\<lparr>tm_sec := n\<rparr>)"

definition utctime_fields :: "byte list \<Rightarrow> int \<Rightarrow> nat list \<Rightarrow> nat \<Rightarrow> tm option \<Rightarrow> (nat option \<times> tm option) option" where
  "utctime_fields = time_fields utctime_limits utctime_store 5"

text \<open>Return value and \<open>*tm\<close>.\<close>

definition asn1_utctime_to_tm :: "tm option \<Rightarrow> ASN1_STRING \<Rightarrow> (bool \<times> tm option) option" where
  "asn1_utctime_to_tm tm d =
     (if as_type d \<noteq> V_ASN1_UTCTIME \<or> as_length d < 11 then Some (False, tm)
      else do {
        a \<leftarrow> as_data d;
        (p, tm) \<leftarrow> utctime_fields a (as_length d) [0..<6] 0 tm;
        (case p of
           None \<Rightarrow> Some (False, tm)
         | Some p \<Rightarrow> do {
             c \<leftarrow> char_at a p;
             (if c = 0x5a then Some (int (p + 1) = as_length d, tm)
              else if c = 0x2b \<or> c = 0x2d then do {
                (p, tm) \<leftarrow> apply_zone a (as_length d) p c (drop 6 utctime_limits) tm;
                Some (case p of None \<Rightarrow> (False, tm) | Some p \<Rightarrow> (int p = as_length d, tm))
              }
              else Some (int p = as_length d, tm))
           })
      })"

definition ASN1_UTCTIME_check :: "ASN1_STRING \<Rightarrow> bool option" where
  "ASN1_UTCTIME_check d = map_option fst (asn1_utctime_to_tm None d)"

text \<open>A C string as a time object on the stack, as the two \<open>set_string\<close> functions build it.\<close>

definition stack_string :: "int \<Rightarrow> byte list \<Rightarrow> ASN1_STRING" where
  "stack_string type str = \<lparr>as_length = to_int (int (strlen str)), as_type = type, as_data = Some str, as_flags = 0\<rparr>"

definition set_checked ::
  "allocator \<Rightarrow> nat \<Rightarrow> ASN1_STRING option \<Rightarrow> ASN1_STRING \<Rightarrow> (bool \<times> ASN1_STRING option \<times> nat) option" where
  "set_checked m k s t =
     (case s of
        None \<Rightarrow> Some (True, None, k)
      | Some s \<Rightarrow> do {
          (ok, s, k) \<leftarrow> ASN1_STRING_set m k s (as_data t) (as_length t);
          Some (ok, Some (if ok then s\<lparr>as_type := as_type t\<rparr> else s), k)
        })"

definition ASN1_UTCTIME_set_string ::
  "allocator \<Rightarrow> nat \<Rightarrow> ASN1_STRING option \<Rightarrow> byte list \<Rightarrow> (bool \<times> ASN1_STRING option \<times> nat) option" where
  "ASN1_UTCTIME_set_string m k s str = do {
     let t = stack_string V_ASN1_UTCTIME str;
     ok \<leftarrow> ASN1_UTCTIME_check t;
     (if ok then set_checked m k s t else Some (False, s, k))
   }"

subsection \<open>GeneralizedTime\<close>

definition gentime_limits :: "(int \<times> int) list" where
  "gentime_limits = [(0, 99), (0, 99), (1, 12), (1, 31), (0, 23), (0, 59), (0, 59), (0, 12), (0, 59)]"

definition gentime_store :: "nat \<Rightarrow> int \<Rightarrow> tm \<Rightarrow> tm" where
  "gentime_store i n tm =
     (if i = 0 then tm\<lparr>tm_year := n * 100 - 1900\<rparr>
      else if i = 1 then tm\<lparr>tm_year := tm_year tm + n\<rparr>
      else if i = 2 then tm\<lparr>tm_mon := n - 1\<rparr>
      else if i = 3 then tm\<lparr>tm_mday := n\<rparr>
      else if i = 4 then tm\<lparr>tm_hour := n\<rparr>
      else if i = 5 then tm\<lparr>tm_min := n\<rparr>
      else tm\<lparr>tm_sec := n\<rparr>)"

definition gentime_fields :: "byte list \<Rightarrow> int \<Rightarrow> nat list \<Rightarrow> nat \<Rightarrow> tm option \<Rightarrow> (nat option \<times> tm option) option" where
  "gentime_fields = time_fields gentime_limits gentime_store 6"

text \<open>The loop over fractional digits: where it stops.\<close>

function skip_fraction :: "byte list \<Rightarrow> int \<Rightarrow> nat \<Rightarrow> nat option" where
  "skip_fraction a l p =
     (case char_at a p of
        None \<Rightarrow> None
      | Some c \<Rightarrow> if is_digit c \<and> int p \<le> l then skip_fraction a l (p + 1) else Some p)"
  by pat_completeness auto
termination
  by (relation "measure (\<lambda>(a, l, p). length a - p)") (auto simp: char_at_def split: if_splits)

declare skip_fraction.simps [simp del]

definition gentime_fraction :: "byte list \<Rightarrow> int \<Rightarrow> nat \<Rightarrow> nat option option" where
  "gentime_fraction a l p = do {
     c \<leftarrow> char_at a p;
     (if c \<noteq> 0x2e then Some (Some p)
      else if int (p + 1) > l then Some None
      else do {
        q \<leftarrow> skip_fraction a l (p + 1);
        Some (if q = p + 1 then None else Some q)
      })
   }"

definition asn1_generalizedtime_to_tm :: "tm option \<Rightarrow> ASN1_STRING \<Rightarrow> (bool \<times> tm option) option" where
  "asn1_generalizedtime_to_tm tm d =
     (if as_type d \<noteq> V_ASN1_GENERALIZEDTIME \<or> as_length d < 13 then Some (False, tm)
      else do {
        a \<leftarrow> as_data d;
        (p, tm) \<leftarrow> gentime_fields a (as_length d) [0..<7] 0 tm;
        (case p of
           None \<Rightarrow> Some (False, tm)
         | Some p \<Rightarrow> do {
             f \<leftarrow> gentime_fraction a (as_length d) p;
             (case f of
                None \<Rightarrow> Some (False, tm)
              | Some p \<Rightarrow> do {
                  c \<leftarrow> char_at a p;
                  (if c = 0x5a then Some (int (p + 1) = as_length d, tm)
                   else if c = 0x2b \<or> c = 0x2d then do {
                     (p, tm) \<leftarrow> apply_zone a (as_length d) p c (drop 7 gentime_limits) tm;
                     Some (case p of None \<Rightarrow> (False, tm) | Some p \<Rightarrow> (int p = as_length d, tm))
                   }
                   else if c \<noteq> 0 then Some (False, tm)
                   else Some (int p = as_length d, tm))
                })
           })
      })"

definition ASN1_GENERALIZEDTIME_check :: "ASN1_STRING \<Rightarrow> bool option" where
  "ASN1_GENERALIZEDTIME_check d = map_option fst (asn1_generalizedtime_to_tm None d)"

definition ASN1_GENERALIZEDTIME_set_string ::
  "allocator \<Rightarrow> nat \<Rightarrow> ASN1_STRING option \<Rightarrow> byte list \<Rightarrow> (bool \<times> ASN1_STRING option \<times> nat) option" where
  "ASN1_GENERALIZEDTIME_set_string m k s str = do {
     let t = stack_string V_ASN1_GENERALIZEDTIME str;
     ok \<leftarrow> ASN1_GENERALIZEDTIME_check t;
     (if ok then set_checked m k s t else Some (False, s, k))
   }"

subsection \<open>Writing a time\<close>

text \<open>
  The reuse or replacement of the string's buffer by one of 20 bytes, and the text printed
  into it; \<open>None\<close> inside is the failed allocation.
\<close>

definition time_buffer :: "allocator \<Rightarrow> nat \<Rightarrow> ASN1_STRING \<Rightarrow> byte list option \<times> nat" where
  "time_buffer m k s =
     (case as_data s of
        Some p \<Rightarrow> if 0 \<le> as_length s \<and> as_length s < 20 then (OPENSSL_malloc m k 20, k + 1) else (Some p, k)
      | None \<Rightarrow> (OPENSSL_malloc m k 20, k + 1))"

definition print_time :: "allocator \<Rightarrow> nat \<Rightarrow> ASN1_STRING \<Rightarrow> int \<Rightarrow> byte list \<Rightarrow> ASN1_STRING option \<times> nat" where
  "print_time m k s type text =
     (case time_buffer m k s of
        (None, k) \<Rightarrow> (None, k)
      | (Some p, k) \<Rightarrow>
          (let p = BIO_snprintf p 20 text
           in (Some (s\<lparr>as_data := Some p, as_length := int (strlen p), as_type := type\<rparr>), k)))"

definition utctime_text :: "tm \<Rightarrow> byte list" where
  "utctime_text ts =
     printf_0d 2 (tm_year ts smod 100) @ printf_0d 2 (tm_mon ts + 1) @ printf_0d 2 (tm_mday ts) @
     printf_0d 2 (tm_hour ts) @ printf_0d 2 (tm_min ts) @ printf_0d 2 (tm_sec ts) @ [0x5a]"

definition gentime_text :: "tm \<Rightarrow> byte list" where
  "gentime_text ts =
     printf_0d 4 (tm_year ts + 1900) @ printf_0d 2 (tm_mon ts + 1) @ printf_0d 2 (tm_mday ts) @
     printf_0d 2 (tm_hour ts) @ printf_0d 2 (tm_min ts) @ printf_0d 2 (tm_sec ts) @ [0x5a]"

text \<open>\<open>OPENSSL_gmtime\<close> and the optional adjustment: \<open>None\<close> inside is the jump to \<open>err\<close>.\<close>

definition OPENSSL_gmtime :: "(int \<Rightarrow> tm option) \<Rightarrow> int \<Rightarrow> tm option" where
  "OPENSSL_gmtime gmtime_r t = gmtime_r t"

definition adjusted_time :: "(int \<Rightarrow> tm option) \<Rightarrow> int \<Rightarrow> int \<Rightarrow> int \<Rightarrow> tm option option" where
  "adjusted_time gmtime_r t offset_day offset_sec =
     (case OPENSSL_gmtime gmtime_r t of
        None \<Rightarrow> Some None
      | Some ts \<Rightarrow>
          if offset_day \<noteq> 0 \<or> offset_sec \<noteq> 0 then OPENSSL_gmtime_adj ts offset_day offset_sec
          else Some (Some ts))"

text \<open>
  The \<open>adj\<close> functions, with the object to fill or \<open>None\<close> for \<open>NULL\<close>: the object returned and
  the number of allocator calls. On failure a given object is left as it was.
\<close>

definition ASN1_UTCTIME_adj ::
  "(int \<Rightarrow> tm option) \<Rightarrow> allocator \<Rightarrow> nat \<Rightarrow> ASN1_STRING option \<Rightarrow> int \<Rightarrow> int \<Rightarrow> int \<Rightarrow> (ASN1_STRING option \<times> nat) option" where
  "ASN1_UTCTIME_adj gmtime_r m k s t offset_day offset_sec =
     (case (case s of Some s \<Rightarrow> (Some s, k) | None \<Rightarrow> ASN1_STRING_type_new m k V_ASN1_UTCTIME) of
        (None, k) \<Rightarrow> Some (None, k)
      | (Some s, k) \<Rightarrow> do {
          ts \<leftarrow> adjusted_time gmtime_r t offset_day offset_sec;
          Some (case ts of
                  None \<Rightarrow> (None, k)
                | Some ts \<Rightarrow>
                    if tm_year ts < 50 \<or> tm_year ts \<ge> 150 then (None, k)
                    else print_time m k s V_ASN1_UTCTIME (utctime_text ts))
        })"

definition ASN1_UTCTIME_set ::
  "(int \<Rightarrow> tm option) \<Rightarrow> allocator \<Rightarrow> nat \<Rightarrow> ASN1_STRING option \<Rightarrow> int \<Rightarrow> (ASN1_STRING option \<times> nat) option" where
  "ASN1_UTCTIME_set gmtime_r m k s t = ASN1_UTCTIME_adj gmtime_r m k s t 0 0"

definition ASN1_GENERALIZEDTIME_adj ::
  "(int \<Rightarrow> tm option) \<Rightarrow> allocator \<Rightarrow> nat \<Rightarrow> ASN1_STRING option \<Rightarrow> int \<Rightarrow> int \<Rightarrow> int \<Rightarrow> (ASN1_STRING option \<times> nat) option" where
  "ASN1_GENERALIZEDTIME_adj gmtime_r m k s t offset_day offset_sec =
     (case (case s of Some s \<Rightarrow> (Some s, k) | None \<Rightarrow> ASN1_STRING_type_new m k V_ASN1_GENERALIZEDTIME) of
        (None, k) \<Rightarrow> Some (None, k)
      | (Some s, k) \<Rightarrow> do {
          ts \<leftarrow> adjusted_time gmtime_r t offset_day offset_sec;
          Some (case ts of
                  None \<Rightarrow> (None, k)
                | Some ts \<Rightarrow>
                    if tm_year ts < 0 - 1900 \<or> tm_year ts > 9999 - 1900 then (None, k)
                    else print_time m k s V_ASN1_GENERALIZEDTIME (gentime_text ts))
        })"

definition ASN1_GENERALIZEDTIME_set ::
  "(int \<Rightarrow> tm option) \<Rightarrow> allocator \<Rightarrow> nat \<Rightarrow> ASN1_STRING option \<Rightarrow> int \<Rightarrow> (ASN1_STRING option \<times> nat) option" where
  "ASN1_GENERALIZEDTIME_set gmtime_r m k s t = ASN1_GENERALIZEDTIME_adj gmtime_r m k s t 0 0"

subsection \<open>Times of either form\<close>

definition ASN1_TIME_adj ::
  "(int \<Rightarrow> tm option) \<Rightarrow> allocator \<Rightarrow> nat \<Rightarrow> ASN1_STRING option \<Rightarrow> int \<Rightarrow> int \<Rightarrow> int \<Rightarrow> (ASN1_STRING option \<times> nat) option" where
  "ASN1_TIME_adj gmtime_r m k s t offset_day offset_sec = do {
     ts \<leftarrow> adjusted_time gmtime_r t offset_day offset_sec;
     (case ts of
        None \<Rightarrow> Some (None, k)
      | Some ts \<Rightarrow>
          if tm_year ts \<ge> 50 \<and> tm_year ts < 150
          then ASN1_UTCTIME_adj gmtime_r m k s t offset_day offset_sec
          else ASN1_GENERALIZEDTIME_adj gmtime_r m k s t offset_day offset_sec)
   }"

definition ASN1_TIME_set ::
  "(int \<Rightarrow> tm option) \<Rightarrow> allocator \<Rightarrow> nat \<Rightarrow> ASN1_STRING option \<Rightarrow> int \<Rightarrow> (ASN1_STRING option \<times> nat) option" where
  "ASN1_TIME_set gmtime_r m k s t = ASN1_TIME_adj gmtime_r m k s t 0 0"

definition ASN1_TIME_check :: "ASN1_STRING \<Rightarrow> bool option" where
  "ASN1_TIME_check t =
     (if as_type t = V_ASN1_GENERALIZEDTIME then ASN1_GENERALIZEDTIME_check t
      else if as_type t = V_ASN1_UTCTIME then ASN1_UTCTIME_check t
      else Some False)"

text \<open>
  \<open>out\<close> is \<open>*out\<close> when the caller passes an object to fill. A UTCTime is copied behind the two
  digits of its century.
\<close>

definition ASN1_TIME_to_generalizedtime ::
  "allocator \<Rightarrow> nat \<Rightarrow> ASN1_STRING \<Rightarrow> ASN1_STRING option \<Rightarrow> (ASN1_STRING option \<times> nat) option" where
  "ASN1_TIME_to_generalizedtime m k t out = do {
     ok \<leftarrow> ASN1_TIME_check t;
     (if \<not> ok then Some (None, k)
      else (case (case out of Some r \<Rightarrow> (Some r, k) | None \<Rightarrow> ASN1_STRING_type_new m k V_ASN1_GENERALIZEDTIME) of
              (None, k) \<Rightarrow> Some (None, k)
            | (Some ret, k) \<Rightarrow>
                if as_type t = V_ASN1_GENERALIZEDTIME
                then do {
                  (ok, ret, k) \<leftarrow> ASN1_STRING_set m k ret (as_data t) (as_length t);
                  Some (if ok then Some ret else None, k)
                }
                else do {
                  n2 \<leftarrow> c_int (as_length t + 2);
                  (ok, ret, k) \<leftarrow> ASN1_STRING_set m k ret None n2;
                  (if \<not> ok then Some (None, k)
                   else do {
                     newlen \<leftarrow> c_int (n2 + 1);
                     d \<leftarrow> as_data t;
                     c \<leftarrow> char_at d 0;
                     str \<leftarrow> as_data ret;
                     let str = fst (OPENSSL_strlcpy str (if c \<ge> 0x35 then [0x31, 0x39, 0] else [0x32, 0x30, 0]) (nat newlen));
                     let str = fst (OPENSSL_strlcat str d (nat newlen));
                     Some (Some (ret\<lparr>as_data := Some str\<rparr>), k)
                   })
                }))
   }"

definition ASN1_TIME_set_string ::
  "allocator \<Rightarrow> nat \<Rightarrow> ASN1_STRING option \<Rightarrow> byte list \<Rightarrow> (bool \<times> ASN1_STRING option \<times> nat) option" where
  "ASN1_TIME_set_string m k s str = do {
     let t = stack_string V_ASN1_UTCTIME str;
     utc \<leftarrow> ASN1_TIME_check t;
     let t = (if utc then t else stack_string V_ASN1_GENERALIZEDTIME str);
     ok \<leftarrow> (if utc then Some True else ASN1_TIME_check t);
     (if \<not> ok then Some (False, s, k)
      else (case s of
              None \<Rightarrow> Some (True, None, k)
            | Some s \<Rightarrow> do {
                (copied, s, k) \<leftarrow> ASN1_STRING_copy m k s (Some t);
                Some (copied, Some s, k)
              }))
   }"

text \<open>\<open>now\<close> is the clock that \<open>time\<close> reads.\<close>

definition asn1_time_to_tm :: "(int \<Rightarrow> tm option) \<Rightarrow> int \<Rightarrow> tm \<Rightarrow> ASN1_STRING option \<Rightarrow> (bool \<times> tm option) option" where
  "asn1_time_to_tm gmtime_r now tm t =
     (case t of
        None \<Rightarrow> (case OPENSSL_gmtime gmtime_r now of None \<Rightarrow> Some (False, Some tm) | Some r \<Rightarrow> Some (True, Some r))
      | Some t \<Rightarrow>
          if as_type t = V_ASN1_UTCTIME then asn1_utctime_to_tm (Some tm) t
          else if as_type t = V_ASN1_GENERALIZEDTIME then asn1_generalizedtime_to_tm (Some tm) t
          else Some (False, Some tm))"

text \<open>The two \<open>struct tm\<close> on the stack start with arbitrary contents \<open>junk\<close>.\<close>

definition ASN1_TIME_diff ::
  "(int \<Rightarrow> tm option) \<Rightarrow> int \<Rightarrow> tm \<Rightarrow> ASN1_STRING option \<Rightarrow> ASN1_STRING option \<Rightarrow> (int \<times> int) option option" where
  "ASN1_TIME_diff gmtime_r now junk from to = do {
     (ok, tm_from) \<leftarrow> asn1_time_to_tm gmtime_r now junk from;
     (if \<not> ok then Some None
      else do {
        (ok, tm_to) \<leftarrow> asn1_time_to_tm gmtime_r now junk to;
        (if \<not> ok then Some None else OPENSSL_gmtime_diff (the tm_from) (the tm_to))
      })
   }"

definition ASN1_UTCTIME_cmp_time_t :: "(int \<Rightarrow> tm option) \<Rightarrow> tm \<Rightarrow> ASN1_STRING \<Rightarrow> int \<Rightarrow> int option" where
  "ASN1_UTCTIME_cmp_time_t gmtime_r junk s t = do {
     (ok, stm) \<leftarrow> asn1_utctime_to_tm (Some junk) s;
     (if \<not> ok then Some (- 2)
      else (case OPENSSL_gmtime gmtime_r t of
              None \<Rightarrow> Some (- 2)
            | Some ttm \<Rightarrow> do {
                r \<leftarrow> OPENSSL_gmtime_diff ttm (the stm);
                Some (case r of
                        None \<Rightarrow> - 2
                      | Some (day, sec) \<Rightarrow>
                          if day > 0 then 1 else if day < 0 then - 1
                          else if sec > 0 then 1 else if sec < 0 then - 1 else 0)
              }))
   }"

subsection \<open>Reading what was printed\<close>

lemma field_at_text:
  assumes "0 \<le> x" "x < 100" "int (length pre + 2) \<le> l"
  shows "field_at (pre @ printf_0d 2 x @ rest) l (length pre) = Some (Some x)"
    and "\<exists>c. char_at (pre @ printf_0d 2 x @ rest) (length pre) = Some c \<and> is_digit c"
proof -
  define n where "n = nat x"
  have n: "n div 10 < 10" "n mod 10 < 10" using assms by (simp_all add: n_def)
  have nx: "int (n div 10) * 10 + int (n mod 10) = x"
    using assms div_mult_mod_eq [of x 10] by (simp add: n_def zdiv_int zmod_int)
  have a: "pre @ printf_0d 2 x @ rest = pre @ digit (n div 10) # digit (n mod 10) # rest"
    using assms by (simp add: printf_02d n_def)
  have c: "char_at (pre @ printf_0d 2 x @ rest) (length pre) = Some (digit (n div 10))"
    "char_at (pre @ printf_0d 2 x @ rest) (Suc (length pre)) = Some (digit (n mod 10))"
    unfolding a by (simp_all add: char_at_def nth_append)
  show "field_at (pre @ printf_0d 2 x @ rest) l (length pre) = Some (Some x)"
    using assms n nx by (simp add: field_at_def c is_digit_digit)
  show "\<exists>c. char_at (pre @ printf_0d 2 x @ rest) (length pre) = Some c \<and> is_digit c"
    using c(1) n by (auto intro: is_digit_digit)
qed

lemma digit_not_zone: "is_digit c \<Longrightarrow> c \<noteq> 0x5a \<and> c \<noteq> 0x2b \<and> c \<noteq> 0x2d \<and> c \<noteq> 0x2e \<and> c \<noteq> 0"
  by (auto simp: is_digit_def)

lemma length_printf_02d [simp]: "0 \<le> x \<Longrightarrow> x < 100 \<Longrightarrow> length (printf_0d 2 x) = 2"
  by (simp add: printf_02d)

definition field_ok :: "(int \<times> int) list \<Rightarrow> nat \<times> int \<Rightarrow> bool" where
  "field_ok limits = (\<lambda>(i, x). 0 \<le> x \<and> x < 100 \<and> fst (limits ! i) \<le> x \<and> x \<le> snd (limits ! i))"

definition digits_of :: "(nat \<times> int) list \<Rightarrow> byte list" where
  "digits_of fs = concat (map (\<lambda>(i, x). printf_0d 2 x) fs)"

definition store_all :: "(nat \<Rightarrow> int \<Rightarrow> tm \<Rightarrow> tm) \<Rightarrow> (nat \<times> int) list \<Rightarrow> tm option \<Rightarrow> tm option" where
  "store_all store fs tm = foldl (\<lambda>tm (i, x). map_option (store i x) tm) tm fs"

lemma time_fields_text:
  assumes "list_all (field_ok limits) fs" "int (length pre + 2 * length fs) \<le> l"
    and "a = pre @ digits_of fs @ rest"
  shows "time_fields limits store sec a l (map fst fs) (length pre) tm =
     Some (Some (length pre + 2 * length fs), store_all store fs tm)"
  using assms
proof (induction fs arbitrary: pre tm)
  case Nil
  then show ?case by (simp add: store_all_def)
next
  case (Cons f fs)
  obtain i x where f: "f = (i, x)" by (cases f)
  have x: "0 \<le> x" "x < 100" "fst (limits ! i) \<le> x" "x \<le> snd (limits ! i)"
    using Cons.prems(1) by (simp_all add: f field_ok_def)
  have a: "a = pre @ printf_0d 2 x @ digits_of fs @ rest" using Cons.prems(3) by (simp add: f digits_of_def)
  note field = field_at_text [OF x(1,2), of pre l "digits_of fs @ rest", folded a]
  obtain c where c: "char_at a (length pre) = Some c" "is_digit c" using field(2) Cons.prems(2) by auto
  have "time_fields limits store sec a l (map fst fs) (length (pre @ printf_0d 2 x)) (map_option (store i x) tm) =
      Some (Some (length (pre @ printf_0d 2 x) + 2 * length fs), store_all store fs (map_option (store i x) tm))"
    by (rule Cons.IH) (use Cons.prems x a in simp_all)
  then show ?case
    using x c field(1) Cons.prems(2) digit_not_zone [OF c(2)] by (simp add: f store_all_def)
qed

subsection \<open>Round trip of the two forms\<close>

definition utctime_parts :: "tm \<Rightarrow> (nat \<times> int) list" where
  "utctime_parts ts = [(0, tm_year ts mod 100), (1, tm_mon ts + 1), (2, tm_mday ts), (3, tm_hour ts), (4, tm_min ts), (5, tm_sec ts)]"

definition gentime_parts :: "tm \<Rightarrow> (nat \<times> int) list" where
  "gentime_parts ts = [(0, (tm_year ts + 1900) div 100), (1, (tm_year ts + 1900) mod 100), (2, tm_mon ts + 1), (3, tm_mday ts),
     (4, tm_hour ts), (5, tm_min ts), (6, tm_sec ts)]"

lemma parts_fields:
  "map fst (utctime_parts ts) = [0..<6]" "length (utctime_parts ts) = 6"
  "map fst (gentime_parts ts) = [0..<7]" "length (gentime_parts ts) = 7"
  by (simp_all add: utctime_parts_def gentime_parts_def upt_rec)

lemma valid_tm_ranges:
  assumes "valid_tm ts"
  shows "0 \<le> tm_mon ts" "tm_mon ts \<le> 11" "1 \<le> tm_mday ts" "tm_mday ts \<le> 31" "0 \<le> tm_hour ts" "tm_hour ts \<le> 23"
    "0 \<le> tm_min ts" "tm_min ts \<le> 59" "0 \<le> tm_sec ts" "tm_sec ts \<le> 59"
  using assms by (auto simp: valid_tm_def valid_date_def days_in_month_def split: if_splits)

lemma utctime_text_parts:
  assumes "valid_tm ts" "50 \<le> tm_year ts"
  shows "utctime_text ts = digits_of (utctime_parts ts) @ [0x5a]"
    and "list_all (field_ok utctime_limits) (utctime_parts ts)"
proof -
  have "tm_year ts smod 100 = tm_year ts mod 100" using assms(2) by (simp add: smod_nonneg)
  then show "utctime_text ts = digits_of (utctime_parts ts) @ [0x5a]"
    by (simp add: utctime_text_def digits_of_def utctime_parts_def)
  show "list_all (field_ok utctime_limits) (utctime_parts ts)"
    using valid_tm_ranges [OF assms(1)] by (simp add: utctime_parts_def field_ok_def utctime_limits_def)
qed

lemma gentime_text_parts:
  assumes "valid_tm ts" "- 1900 \<le> tm_year ts" "tm_year ts \<le> 8099"
  shows "gentime_text ts = digits_of (gentime_parts ts) @ [0x5a]"
    and "list_all (field_ok gentime_limits) (gentime_parts ts)"
proof -
  have "printf_0d 4 (tm_year ts + 1900) = printf_0d 2 ((tm_year ts + 1900) div 100) @ printf_0d 2 ((tm_year ts + 1900) mod 100)"
    using assms by (intro printf_04d) simp_all
  then show "gentime_text ts = digits_of (gentime_parts ts) @ [0x5a]"
    by (simp add: gentime_text_def digits_of_def gentime_parts_def)
  have "0 \<le> (tm_year ts + 1900) div 100" "(tm_year ts + 1900) div 100 \<le> 99" using assms by simp_all
  then show "list_all (field_ok gentime_limits) (gentime_parts ts)"
    using valid_tm_ranges [OF assms(1)] by (simp add: gentime_parts_def field_ok_def gentime_limits_def)
qed

lemma utctime_stored:
  assumes "50 \<le> tm_year ts" "tm_year ts < 150"
  shows "store_all utctime_store (utctime_parts ts) (Some junk) = Some ts"
proof -
  have "(if tm_year ts mod 100 < 50 then tm_year ts mod 100 + 100 else tm_year ts mod 100) = tm_year ts"
    using assms mod_in [of 100 0 "tm_year ts"] mod_in [of 100 1 "tm_year ts"] by (cases "tm_year ts < 100") auto
  then show ?thesis
    by (simp add: store_all_def utctime_parts_def utctime_store_def)
qed

lemma gentime_stored: "store_all gentime_store (gentime_parts ts) (Some junk) = Some ts"
proof -
  have "(tm_year ts + 1900) div 100 * 100 - 1900 + (tm_year ts + 1900) mod 100 = tm_year ts"
    using div_mult_mod_eq [of "tm_year ts + 1900" 100] by linarith
  then show ?thesis
    by (simp add: store_all_def gentime_parts_def gentime_store_def)
qed

lemma length_digits_of: "list_all (field_ok limits) fs \<Longrightarrow> length (digits_of fs) = 2 * length fs"
  by (induction fs) (auto simp: digits_of_def field_ok_def)

lemma digits_of_no_zero: "list_all (field_ok limits) fs \<Longrightarrow> 0 \<notin> set (digits_of fs)"
proof (induction fs)
  case (Cons f fs)
  obtain i x where f: "f = (i, x)" by (cases f)
  have "0 \<le> x" "x < 100" using Cons.prems by (simp_all add: f field_ok_def)
  then have "set (printf_0d 2 x) = {digit (nat x div 10), digit (nat x mod 10)}" "nat x div 10 < 10" "nat x mod 10 < 10"
    by (auto simp: printf_02d)
  then have "0 \<notin> set (printf_0d 2 x)"
    using is_digit_digit [of "nat x div 10"] is_digit_digit [of "nat x mod 10"] by (auto simp: is_digit_def)
  then show ?case using Cons by (simp add: f digits_of_def)
qed (simp add: digits_of_def)

text \<open>The string that holds \<open>text\<close>: its bytes, a terminator, whatever follows.\<close>

definition holds :: "ASN1_STRING \<Rightarrow> byte list \<Rightarrow> bool" where
  "holds s text \<longleftrightarrow> (\<exists>rest. as_data s = Some (text @ 0 # rest)) \<and> as_length s = int (length text)"

lemma asn1_utctime_read:
  assumes v: "valid_tm ts" "50 \<le> tm_year ts" "tm_year ts < 150"
    and s: "holds s (utctime_text ts)" "as_type s = V_ASN1_UTCTIME"
  shows "asn1_utctime_to_tm (Some junk) s = Some (True, Some ts)"
proof -
  note p = utctime_text_parts [OF v(1,2)]
  have len: "length (digits_of (utctime_parts ts)) = 12"
    using length_digits_of [OF p(2)] by (simp add: utctime_parts_def)
  obtain rest where a: "as_data s = Some (digits_of (utctime_parts ts) @ 0x5a # 0 # rest)" "as_length s = 13"
    using s(1) len by (auto simp: holds_def p(1))
  have "utctime_fields (digits_of (utctime_parts ts) @ 0x5a # 0 # rest) 13 [0..<6] 0 (Some junk) = Some (Some 12, Some ts)"
    using time_fields_text [OF p(2), of "[]" 13 "digits_of (utctime_parts ts) @ 0x5a # 0 # rest" "0x5a # 0 # rest" utctime_store 5 "Some junk"]
    by (simp add: utctime_fields_def utctime_stored [OF v(2,3)] parts_fields del: upt_rec_numeral)
  moreover have "char_at (digits_of (utctime_parts ts) @ 0x5a # 0 # rest) 12 = Some 0x5a"
    using len by (simp add: char_at_def nth_append)
  ultimately show ?thesis by (simp add: asn1_utctime_to_tm_def s(2) a)
qed

lemma asn1_generalizedtime_read:
  assumes v: "valid_tm ts" "- 1900 \<le> tm_year ts" "tm_year ts \<le> 8099"
    and s: "holds s (gentime_text ts)" "as_type s = V_ASN1_GENERALIZEDTIME"
  shows "asn1_generalizedtime_to_tm (Some junk) s = Some (True, Some ts)"
proof -
  note p = gentime_text_parts [OF v]
  have len: "length (digits_of (gentime_parts ts)) = 14"
    using length_digits_of [OF p(2)] by (simp add: gentime_parts_def)
  obtain rest where a: "as_data s = Some (digits_of (gentime_parts ts) @ 0x5a # 0 # rest)" "as_length s = 15"
    using s(1) len by (auto simp: holds_def p(1))
  have "gentime_fields (digits_of (gentime_parts ts) @ 0x5a # 0 # rest) 15 [0..<7] 0 (Some junk) = Some (Some 14, Some ts)"
    using time_fields_text [OF p(2), of "[]" 15 "digits_of (gentime_parts ts) @ 0x5a # 0 # rest" "0x5a # 0 # rest" gentime_store 6 "Some junk"]
    by (simp add: gentime_fields_def gentime_stored parts_fields del: upt_rec_numeral)
  moreover have "char_at (digits_of (gentime_parts ts) @ 0x5a # 0 # rest) 14 = Some 0x5a"
    using len by (simp add: char_at_def nth_append)
  ultimately show ?thesis by (simp add: asn1_generalizedtime_to_tm_def gentime_fraction_def s(2) a)
qed

end
