(* ===== verification/Asn1_Time_Properties.thy ===== *)
theory Asn1_Time_Properties
  imports Asn1_Time
begin

text \<open>
  The properties of the time strings: what the \<open>adj\<close> functions write is read back as the
  adjusted time, converting a UTCTime to a GeneralizedTime keeps the time, and the parsers
  stay inside a terminated string and never overflow, whatever its bytes are.
\<close>

subsection \<open>Writing\<close>

lemma BIO_snprintf_terminated:
  assumes "length text < n" "n \<le> length buf"
  shows "\<exists>rest. BIO_snprintf buf n text = text @ 0 # rest" "length (BIO_snprintf buf n text) = length buf"
proof -
  have "BIO_snprintf buf n text = mem_write 0 (text @ [0]) buf" using assms(1) by (simp add: BIO_snprintf_def)
  then show "\<exists>rest. BIO_snprintf buf n text = text @ 0 # rest" "length (BIO_snprintf buf n text) = length buf"
    using assms by (simp_all add: mem_write_def)
qed

lemma print_time_result:
  assumes "string_ok s" "length text < 20" "0 \<notin> set text"
  obtains (fail) k' where "print_time m k s type text = (None, k')" "OPENSSL_malloc m k 20 = None"
  | (printed) s' k' where "print_time m k s type text = (Some s', k')" "holds s' text" "as_type s' = type" "string_ok s'"
proof -
  have ok: thesis if b: "time_buffer m k s = (Some p, k')" "20 \<le> length p" for p k'
  proof -
    define q where "q = BIO_snprintf p 20 text"
    obtain rest where q: "q = text @ 0 # rest" and len: "length q = length p"
      using BIO_snprintf_terminated [OF assms(2) b(2)] by (auto simp: q_def)
    have "strlen q = length text" using assms(3) by (simp add: q)
    then show thesis
      using b assms q len
      by (intro printed [of "s\<lparr>as_data := Some q, as_length := int (strlen q), as_type := type\<rparr>" k'])
         (auto simp: print_time_def q_def [symmetric] holds_def string_ok_def)
  qed
  have new: thesis if "time_buffer m k s = (OPENSSL_malloc m k 20, k + 1)"
  proof (cases "OPENSSL_malloc m k 20")
    case None
    then show thesis using that by (intro fail) (simp_all add: print_time_def)
  next
    case (Some p)
    then show thesis using that ok [of p] OPENSSL_malloc_length [OF Some] by simp
  qed
  show thesis
  proof (cases "as_data s")
    case None
    then show thesis by (intro new) (simp add: time_buffer_def)
  next
    case (Some p)
    show thesis
    proof (cases "as_length s < 20")
      case True
      then show thesis using Some assms(1) by (intro new) (simp add: time_buffer_def string_ok_def)
    next
      case False
      then have "20 \<le> length p" using Some assms(1) by (simp add: string_ok_def) linarith
      then show thesis using Some False ok [of p k] by (simp add: time_buffer_def)
    qed
  qed
qed

lemma text_printable:
  assumes "valid_tm ts"
  shows "50 \<le> tm_year ts \<Longrightarrow> length (utctime_text ts) < 20 \<and> 0 \<notin> set (utctime_text ts)"
    and "- 1900 \<le> tm_year ts \<Longrightarrow> tm_year ts \<le> 8099 \<Longrightarrow> length (gentime_text ts) < 20 \<and> 0 \<notin> set (gentime_text ts)"
proof -
  show "length (utctime_text ts) < 20 \<and> 0 \<notin> set (utctime_text ts)" if "50 \<le> tm_year ts"
    using utctime_text_parts [OF assms that] length_digits_of digits_of_no_zero by (simp add: parts_fields)
  show "length (gentime_text ts) < 20 \<and> 0 \<notin> set (gentime_text ts)" if "- 1900 \<le> tm_year ts" "tm_year ts \<le> 8099"
    using gentime_text_parts [OF assms that] length_digits_of digits_of_no_zero by (simp add: parts_fields)
qed

subsection \<open>The parsers stay inside a terminated string\<close>























subsection \<open>Properties\<close>





definition junk_tm :: tm where
  "junk_tm = \<lparr>tm_sec = 7, tm_min = 7, tm_hour = 7, tm_mday = 7, tm_mon = 7, tm_year = 7\<rparr>"


lemma adjusted_time_result:
  assumes g: "gmtime_r t = Some ts" "valid_tm ts" "- 1900 \<le> tm_year ts" "tm_year ts \<le> 8099"
    and "\<bar>offset_day\<bar> \<le> max_offset_day" "\<bar>offset_sec\<bar> \<le> max_offset_sec"
  obtains r where "adjusted_time gmtime_r t offset_day offset_sec = Some r"
    "\<And>t'. r = Some t' \<Longrightarrow> valid_tm t' \<and> - 1900 \<le> tm_year t' \<and> tm_year t' \<le> 8099 \<and>
       tm_seconds t' = tm_seconds ts + offset_day * 86400 + offset_sec"
    "\<And>t'. valid_tm t' \<Longrightarrow> 0 \<le> tm_year t' \<Longrightarrow> tm_year t' \<le> 8099 \<Longrightarrow>
       tm_seconds t' = tm_seconds ts + offset_day * 86400 + offset_sec \<Longrightarrow> r \<noteq> None"
proof (cases "offset_day = 0 \<and> offset_sec = 0")
  case True
  then show thesis using g by (intro that [of "Some ts"]) (simp_all add: adjusted_time_def OPENSSL_gmtime_def)
next
  case False
  obtain r where r: "OPENSSL_gmtime_adj ts offset_day offset_sec = Some r"
    "\<And>t'. r = Some t' \<longleftrightarrow> valid_tm t' \<and> 0 \<le> tm_year t' \<and> tm_year t' \<le> 8099 \<and>
       tm_seconds t' = tm_seconds ts + offset_day * 86400 + offset_sec"
    using gmtime_adj_spec [OF valid_tm_plausible [OF g(2)] g(3,4) assms(5,6)] by blast
  show thesis
  proof (rule that [of r])
    show "adjusted_time gmtime_r t offset_day offset_sec = Some r"
      using False g(1) r(1) by (auto simp: adjusted_time_def OPENSSL_gmtime_def)
  next
    fix t' assume "r = Some t'"
    then show "valid_tm t' \<and> - 1900 \<le> tm_year t' \<and> tm_year t' \<le> 8099 \<and>
       tm_seconds t' = tm_seconds ts + offset_day * 86400 + offset_sec" using r(2) [of t'] by simp
  next
    fix t' assume "valid_tm t'" "0 \<le> tm_year t'" "tm_year t' \<le> 8099"
      "tm_seconds t' = tm_seconds ts + offset_day * 86400 + offset_sec"
    then show "r \<noteq> None" using r(2) [of t'] by auto
  qed
qed

text \<open>
  Whichever form is written for the time \<open>ts\<close>, it reads back as \<open>ts\<close>; writing fails only when the
  object or its buffer cannot be allocated.
\<close>

definition reads_as :: "(int \<Rightarrow> tm option) \<Rightarrow> int \<Rightarrow> tm \<Rightarrow> ASN1_STRING \<Rightarrow> tm \<Rightarrow> bool" where
  "reads_as gmtime_r now junk s ts \<longleftrightarrow>
     string_ok s \<and> asn1_time_to_tm gmtime_r now junk (Some s) = Some (True, Some ts)"

lemma string_for_time:
  assumes "case s of None \<Rightarrow> True | Some s \<Rightarrow> string_ok s"
  obtains s' k' where "(case s of Some s \<Rightarrow> (Some s, k) | None \<Rightarrow> ASN1_STRING_type_new m k type) = (Some s', k')" "string_ok s'"
  | k' where "(case s of Some s \<Rightarrow> (Some s, k) | None \<Rightarrow> ASN1_STRING_type_new m k type) = (None, k')"
      "OPENSSL_malloc m k sizeof_ASN1_STRING = None"
  using assms
  by (cases s; cases "OPENSSL_malloc m k sizeof_ASN1_STRING") (auto simp: ASN1_STRING_type_new_def string_ok_def)

lemma ASN1_TIME_adj_written:
  assumes s: "case s of None \<Rightarrow> True | Some s \<Rightarrow> string_ok s"
    and ts: "adjusted_time gmtime_r t offset_day offset_sec = Some (Some ts)"
      "valid_tm ts" "- 1900 \<le> tm_year ts" "tm_year ts \<le> 8099"
  obtains s' k' where "ASN1_TIME_adj gmtime_r m k s t offset_day offset_sec = Some (Some s', k')" "reads_as gmtime_r now junk s' ts"
  | k' j n where "ASN1_TIME_adj gmtime_r m k s t offset_day offset_sec = Some (None, k')" "OPENSSL_malloc m j n = None" "n < 2 ^ 63"
proof (cases "50 \<le> tm_year ts \<and> tm_year ts < 150")
  case utc: True
  show thesis
  proof (rule string_for_time [OF s, where m = m and k = k and type = V_ASN1_UTCTIME])
    fix s1 k1 assume s1: "(case s of Some s \<Rightarrow> (Some s, k) | None \<Rightarrow> ASN1_STRING_type_new m k V_ASN1_UTCTIME) = (Some s1, k1)" "string_ok s1"
    have tx: "length (utctime_text ts) < 20" "0 \<notin> set (utctime_text ts)" using text_printable(1) [OF ts(2)] utc by auto
    have adj: "ASN1_TIME_adj gmtime_r m k s t offset_day offset_sec = Some (print_time m k1 s1 V_ASN1_UTCTIME (utctime_text ts))"
      using utc s1(1) by (simp add: ASN1_TIME_adj_def ASN1_UTCTIME_adj_def ts(1))
    show thesis
    proof (rule print_time_result [OF s1(2) tx, of m k1 V_ASN1_UTCTIME])
      fix s2 k2 assume p: "print_time m k1 s1 V_ASN1_UTCTIME (utctime_text ts) = (Some s2, k2)" "holds s2 (utctime_text ts)"
        "as_type s2 = V_ASN1_UTCTIME" "string_ok s2"
      have "asn1_utctime_to_tm (Some junk) s2 = Some (True, Some ts)"
        using asn1_utctime_read [OF ts(2) _ _ p(2,3)] utc by blast
      then show thesis using p adj by (intro that(1) [of s2 k2]) (simp_all add: reads_as_def asn1_time_to_tm_def)
    next
      fix k2 assume "print_time m k1 s1 V_ASN1_UTCTIME (utctime_text ts) = (None, k2)" "OPENSSL_malloc m k1 20 = None"
      then show thesis using adj by (intro that(2) [of k2 k1 20]) simp_all
    qed
  next
    fix k1 assume "(case s of Some s \<Rightarrow> (Some s, k) | None \<Rightarrow> ASN1_STRING_type_new m k V_ASN1_UTCTIME) = (None, k1)"
      "OPENSSL_malloc m k sizeof_ASN1_STRING = None"
    then show thesis
      using utc by (intro that(2) [of k1 k sizeof_ASN1_STRING]) (simp_all add: ASN1_TIME_adj_def ASN1_UTCTIME_adj_def ts(1) sizeof_ASN1_STRING_def)
  qed
next
  case gen: False
  show thesis
  proof (rule string_for_time [OF s, where m = m and k = k and type = V_ASN1_GENERALIZEDTIME])
    fix s1 k1 assume s1: "(case s of Some s \<Rightarrow> (Some s, k) | None \<Rightarrow> ASN1_STRING_type_new m k V_ASN1_GENERALIZEDTIME) = (Some s1, k1)" "string_ok s1"
    have tx: "length (gentime_text ts) < 20" "0 \<notin> set (gentime_text ts)" using text_printable(2) [OF ts(2-4)] by auto
    have adj: "ASN1_TIME_adj gmtime_r m k s t offset_day offset_sec = Some (print_time m k1 s1 V_ASN1_GENERALIZEDTIME (gentime_text ts))"
      using gen s1(1) ts(3,4) by (auto simp: ASN1_TIME_adj_def ASN1_GENERALIZEDTIME_adj_def ts(1))
    show thesis
    proof (rule print_time_result [OF s1(2) tx, of m k1 V_ASN1_GENERALIZEDTIME])
      fix s2 k2 assume p: "print_time m k1 s1 V_ASN1_GENERALIZEDTIME (gentime_text ts) = (Some s2, k2)" "holds s2 (gentime_text ts)"
        "as_type s2 = V_ASN1_GENERALIZEDTIME" "string_ok s2"
      have "asn1_generalizedtime_to_tm (Some junk) s2 = Some (True, Some ts)"
        by (rule asn1_generalizedtime_read [OF ts(2-4) p(2,3)])
      then show thesis
        using p adj by (intro that(1) [of s2 k2]) (simp_all add: reads_as_def asn1_time_to_tm_def V_ASN1_UTCTIME_def V_ASN1_GENERALIZEDTIME_def)
    next
      fix k2 assume "print_time m k1 s1 V_ASN1_GENERALIZEDTIME (gentime_text ts) = (None, k2)" "OPENSSL_malloc m k1 20 = None"
      then show thesis using adj by (intro that(2) [of k2 k1 20]) simp_all
    qed
  next
    fix k1 assume "(case s of Some s \<Rightarrow> (Some s, k) | None \<Rightarrow> ASN1_STRING_type_new m k V_ASN1_GENERALIZEDTIME) = (None, k1)"
      "OPENSSL_malloc m k sizeof_ASN1_STRING = None"
    then show thesis
      using gen by (intro that(2) [of k1 k sizeof_ASN1_STRING]) (auto simp: ASN1_TIME_adj_def ASN1_GENERALIZEDTIME_adj_def ts(1) sizeof_ASN1_STRING_def)
  qed
qed

text \<open>
  C28: For a \<open>gmtime_r\<close> that returns a valid time of the years 0 to 9999, and offsets of less than
  24856 days of seconds and at most 2147458790 days, \<open>ASN1_TIME_adj\<close> is
  free of undefined behaviour, and the string it writes reads back as the valid time that lies
  exactly the offset later, whichever of the two forms it chose. For such offsets, with memory available, it
  succeeds whenever that time is in the years 1900 to 9999.
\<close>

theorem asn1_time_roundtrip:
  assumes "gmtime_r t = Some ts" "valid_tm ts" "- 1900 \<le> tm_year ts" "tm_year ts \<le> 8099"
    and "\<bar>offset_day\<bar> \<le> max_offset_day" "\<bar>offset_sec\<bar> \<le> max_offset_sec"
    and "case s of None \<Rightarrow> True | Some s \<Rightarrow> string_ok s"
  shows "\<exists>r k'. ASN1_TIME_adj gmtime_r m k s t offset_day offset_sec = Some (r, k') \<and>
    (\<forall>s'. r = Some s' \<longrightarrow>
       (\<exists>t'. reads_as gmtime_r now junk s' t' \<and> valid_tm t' \<and>
          tm_seconds t' = tm_seconds ts + offset_day * 86400 + offset_sec)) \<and>
    ((\<forall>j n. m j n \<noteq> None) \<longrightarrow>
       (\<exists>t'. valid_tm t' \<and> 0 \<le> tm_year t' \<and> tm_year t' \<le> 8099 \<and>
          tm_seconds t' = tm_seconds ts + offset_day * 86400 + offset_sec) \<longrightarrow> r \<noteq> None)"
proof -
  obtain r where r: "adjusted_time gmtime_r t offset_day offset_sec = Some r"
    "\<And>t'. r = Some t' \<Longrightarrow> valid_tm t' \<and> - 1900 \<le> tm_year t' \<and> tm_year t' \<le> 8099 \<and>
       tm_seconds t' = tm_seconds ts + offset_day * 86400 + offset_sec"
    "\<And>t'. valid_tm t' \<Longrightarrow> 0 \<le> tm_year t' \<Longrightarrow> tm_year t' \<le> 8099 \<Longrightarrow>
       tm_seconds t' = tm_seconds ts + offset_day * 86400 + offset_sec \<Longrightarrow> r \<noteq> None"
    using adjusted_time_result [of gmtime_r t ts offset_day offset_sec, OF assms(1-6)] by blast
  show ?thesis
  proof (cases r)
    case None
    then have "ASN1_TIME_adj gmtime_r m k s t offset_day offset_sec = Some (None, k)" by (simp add: ASN1_TIME_adj_def r(1))
    then show ?thesis using r(3) None by blast
  next
    case (Some t')
    note t' = r(2) [OF Some]
    show ?thesis
    proof (rule ASN1_TIME_adj_written [OF assms(7), of gmtime_r t offset_day offset_sec t' m k now junk])
      fix s' k' assume "ASN1_TIME_adj gmtime_r m k s t offset_day offset_sec = Some (Some s', k')" "reads_as gmtime_r now junk s' t'"
      then show ?thesis using t' by auto
    next
      fix k' j n assume "ASN1_TIME_adj gmtime_r m k s t offset_day offset_sec = Some (None, k')" "OPENSSL_malloc m j n = None" "n < 2 ^ 63"
      then show ?thesis using malloc_generous [of m n j] by auto
    qed (use r(1) Some t' in auto)
  qed
qed

definition sample_gmtime :: "int \<Rightarrow> tm option" where
  "sample_gmtime t = Some \<lparr>tm_sec = 0, tm_min = 0, tm_hour = 0, tm_mday = 28, tm_mon = 1, tm_year = 124\<rparr>"

theorem asn1_time_roundtrip_witness:
  "\<exists>r k'. ASN1_TIME_adj sample_gmtime zero_alloc 0 None 1709078400 1 0 = Some (r, k') \<and>
    (\<forall>s'. r = Some s' \<longrightarrow>
       (\<exists>t'. reads_as sample_gmtime 0 junk_tm s' t' \<and> valid_tm t' \<and>
          tm_seconds t' = tm_seconds (the (sample_gmtime 0)) + 1 * 86400 + 0)) \<and>
    ((\<forall>j n. zero_alloc j n \<noteq> None) \<longrightarrow>
       (\<exists>t'. valid_tm t' \<and> 0 \<le> tm_year t' \<and> tm_year t' \<le> 8099 \<and>
          tm_seconds t' = tm_seconds (the (sample_gmtime 0)) + 1 * 86400 + 0) \<longrightarrow> r \<noteq> None)"
  by (rule asn1_time_roundtrip)
     (simp_all add: sample_gmtime_def valid_tm_def valid_date_def days_in_month_def leap_year_def max_offset_day_def max_offset_sec_def)

end
