(* ===== verification/Oid.thy ===== *)
theory Oid
  imports Builder_Properties Decimal
begin

text \<open>
  The textual form of OBJECT IDENTIFIERs: \<open>CBS_asn1_oid_to_text\<close> of \<open>cbs.c\<close> and
  \<open>CBB_add_asn1_oid_from_text\<close> of \<open>cbb.c\<close>. \<open>oid_content\<close> and \<open>oid_text\<close> are the contents and the
  dotted text of a list of components; the lemmas show that the printer accepts exactly the
  contents of component lists and that the reader turns its text back into the contents.
\<close>

subsection \<open>From contents to text\<close>

text \<open>The buffer on the stack holds \<open>DECIMAL_SIZE(uint64_t) + 1\<close> = 24 characters.\<close>

definition add_decimal :: "allocator \<Rightarrow> nat \<Rightarrow> u64 \<Rightarrow> cbb_heap \<Rightarrow> cbb_result" where
  "add_decimal m out v =
     (let buf = BIO_snprintf (replicate 24 0) 24 (decimal (unat v))
      in CBB_add_bytes m out buf (strlen buf))"

function oid_to_text_loop :: "allocator \<Rightarrow> nat \<Rightarrow> CBS \<Rightarrow> cbb_heap \<Rightarrow> cbb_result" where
  "oid_to_text_loop m cbb copy h =
     (if CBS_len copy \<noteq> 0 then
        (case parse_base128_integer copy of
           (None, _) \<Rightarrow> Some (False, h)
         | (Some v, copy') \<Rightarrow>
             andthen (CBB_add_u8 m cbb 0x2e) (andthen (add_decimal m cbb v) (oid_to_text_loop m cbb copy')) h)
      else Some (True, h))"
  by pat_completeness auto
termination
  by (relation "measure (\<lambda>(m, a, c, h). cbs_len c)")
     (auto simp: parse_base128_integer_def dest: parse_base128_len_decreases [OF sym])

declare oid_to_text_loop.simps [simp del]

text \<open>
  The returned pointer's region, or \<open>None\<close> for \<open>NULL\<close>, and the heap; \<open>cbb\<close> is the address of the
  builder on the stack.
\<close>

definition CBS_asn1_oid_to_text :: "allocator \<Rightarrow> nat \<Rightarrow> CBS \<Rightarrow> cbb_heap \<Rightarrow> (byte list option \<times> cbb_heap) option" where
  "CBS_asn1_oid_to_text m cbb cbs h0 =
     (case CBB_init m cbb 32 h0 of
        (False, h) \<Rightarrow> Some (None, CBB_cleanup cbb h)
      | (True, h) \<Rightarrow>
          (case parse_base128_integer cbs of
             (None, _) \<Rightarrow> Some (None, CBB_cleanup cbb h)
           | (Some v, copy) \<Rightarrow>
               (case andthen
                       (if v \<ge> 80
                        then andthen (CBB_add_bytes m cbb [0x32, 0x2e] 2) (add_decimal m cbb (v - 80))
                        else andthen (add_decimal m cbb (v div 40))
                               (andthen (CBB_add_u8 m cbb 0x2e) (add_decimal m cbb (v mod 40))))
                       (andthen (oid_to_text_loop m cbb copy) (CBB_add_u8 m cbb 0)) h of
                  None \<Rightarrow> None
                | Some (False, h) \<Rightarrow> Some (None, CBB_cleanup cbb h)
                | Some (True, h) \<Rightarrow>
                    (case CBB_finish m cbb h of
                       None \<Rightarrow> None
                     | Some (None, h) \<Rightarrow> Some (None, CBB_cleanup cbb h)
                     | Some (Some (txt, txt_len), h) \<Rightarrow> Some (Some txt, h)))))"

subsection \<open>From text to contents\<close>

function parse_dotted_loop :: "CBS \<Rightarrow> u64 \<Rightarrow> bool \<Rightarrow> u64 read" where
  "parse_dotted_loop cbs out seen_digit =
     (case CBS_get_u8 cbs of
        (None, c) \<Rightarrow> (if seen_digit then Some out else None, c)
      | (Some u, c) \<Rightarrow>
          if u = 0x2e \<and> CBS_len c > 0 then (if seen_digit then Some out else None, c)
          else if u < 0x30 \<or> u > 0x39 \<or> (seen_digit \<and> out = 0) \<or> out > (- 1) div 10 \<or>
                  out * 10 > - 1 - (ucast u - 0x30)
          then (None, c)
          else parse_dotted_loop c (out * 10 + (ucast u - 0x30)) True)"
  by pat_completeness auto
termination
  by (relation "measure (\<lambda>(c, v, b). cbs_len c)") (auto dest: CBS_get_u8_len_decreases [OF sym])

declare parse_dotted_loop.simps [simp del]

definition parse_dotted_decimal :: "CBS \<Rightarrow> u64 read" where
  "parse_dotted_decimal cbs = parse_dotted_loop cbs 0 False"

lemma parse_dotted_len_decreases:
  "parse_dotted_loop c v s = (Some w, c') \<Longrightarrow> cbs_len c' < cbs_len c \<or> s \<and> c' = c"
proof (induction c v s rule: parse_dotted_loop.induct)
  case (1 c v s)
  obtain b d where b: "CBS_get_u8 c = (b, d)" by (cases "CBS_get_u8 c")
  show ?case
  proof (cases b)
    case None
    then have "d = c" using b by (auto simp: CBS_get_u8_def cbs_get_def split: if_splits)
    then show ?thesis using "1.prems" b None by (subst (asm) parse_dotted_loop.simps) (simp split: if_splits)
  next
    case (Some u)
    then have "cbs_len d < cbs_len c" using b CBS_get_u8_len_decreases by simp
    then show ?thesis
      using 1 b Some by (subst (asm) (2) parse_dotted_loop.simps) (fastforce split: if_splits)
  qed
qed

function oid_from_text_loop :: "allocator \<Rightarrow> nat \<Rightarrow> CBS \<Rightarrow> cbb_heap \<Rightarrow> cbb_result" where
  "oid_from_text_loop m cbb cbs h =
     (if CBS_len cbs > 0 then
        (case parse_dotted_decimal cbs of
           (None, _) \<Rightarrow> Some (False, h)
         | (Some v, cbs') \<Rightarrow> andthen (add_base128_integer m cbb v) (oid_from_text_loop m cbb cbs') h)
      else Some (True, h))"
  by pat_completeness auto
termination
  by (relation "measure (\<lambda>(m, a, c, h). cbs_len c)")
     (auto simp: parse_dotted_decimal_def dest: parse_dotted_len_decreases [OF sym])

declare oid_from_text_loop.simps [simp del]

definition CBB_add_asn1_oid_from_text :: "allocator \<Rightarrow> nat \<Rightarrow> byte list \<Rightarrow> nat \<Rightarrow> cbb_heap \<Rightarrow> cbb_result" where
  "CBB_add_asn1_oid_from_text m cbb text n =
     andthen (CBB_flush m cbb) (\<lambda>h.
       case parse_dotted_decimal (CBS_init text n) of
         (None, _) \<Rightarrow> Some (False, h)
       | (Some a, cbs) \<Rightarrow>
           (case parse_dotted_decimal cbs of
              (None, _) \<Rightarrow> Some (False, h)
            | (Some b, cbs) \<Rightarrow>
                if a > 2 \<or> (a < 2 \<and> b > 39) \<or> b > - 1 - 80 then Some (False, h)
                else andthen (add_base128_integer m cbb (40 * a + b)) (oid_from_text_loop m cbb cbs) h))"

subsection \<open>Component lists\<close>

definition oid_valid :: "nat list \<Rightarrow> bool" where
  "oid_valid ns \<longleftrightarrow>
     (\<exists>a b rest. ns = a # b # rest \<and> a \<le> 2 \<and> (a < 2 \<longrightarrow> b \<le> 39) \<and> 40 * a + b < 2 ^ 64 \<and> (\<forall>n \<in> set rest. n < 2 ^ 64))"

fun oid_content :: "nat list \<Rightarrow> byte list" where
  "oid_content (a # b # rest) = base128 (40 * a + b) @ concat (map base128 rest)"
| "oid_content _ = []"

fun dotted :: "nat list \<Rightarrow> byte list" where
  "dotted [] = []"
| "dotted [n] = decimal n"
| "dotted (n # ns) = decimal n @ 0x2e # dotted ns"

lemma dotted_Cons: "ns \<noteq> [] \<Longrightarrow> dotted (n # ns) = decimal n @ 0x2e # dotted ns"
  by (cases ns) simp_all

lemma dotted_alt: "dotted (n # ns) = decimal n @ concat (map (\<lambda>k. 0x2e # decimal k) ns)"
proof (induction ns arbitrary: n)
  case (Cons k ns)
  then show ?case by (simp add: dotted_Cons)
qed simp

subsection \<open>Parsing dotted text\<close>

lemma parse_dotted_digit:
  assumes c: "cbs_bytes c = digit d # xs" "cbs_wf c" and d: "d < 10" and n: "k * 10 + d < 2 ^ 64" "s \<longrightarrow> k \<noteq> 0"
  shows "parse_dotted_loop c (word_of_nat k) s = parse_dotted_loop (adv 1 c) (word_of_nat (k * 10 + d)) True"
proof -
  let ?v = "word_of_nat k :: u64" and ?u = "ucast (digit d) - 0x30 :: u64"
  have k: "k < 2 ^ 64" using n by simp
  have uv: "unat ?v = k" using k by (simp add: unat_of_nat)
  have "?u = word_of_nat d"
  proof (rule unsigned_word_eqI [where ?'a = nat])
    have "unat (ucast (digit d) :: u64) = 48 + d" using unat_digit [OF d] by (simp add: unat_ucast_up)
    then show "unat ?u = unat (word_of_nat d :: u64)"
      using d by (subst unat_sub) (simp_all add: word_le_nat_alt unat_of_nat)
  qed
  then have u: "?u = word_of_nat d" "unat ?u = d" using d by (simp_all add: unat_of_nat)
  have m1: "unat (- 1 :: u64) = 2 ^ 64 - 1" by (simp add: unsigned_minus_1_eq_mask mask_eq_exp_minus_1)
  have mx: "unat (- 1 div 10 :: u64) = (2 ^ 64 - 1) div 10" "unat (- 1 - ?u) = 2 ^ 64 - 1 - d"
  proof -
    show "unat (- 1 div 10 :: u64) = (2 ^ 64 - 1) div 10" by (simp add: unat_div m1)
    show "unat (- 1 - ?u) = 2 ^ 64 - 1 - d"
      using d u(2) by (subst unat_sub) (simp_all add: m1 word_le_nat_alt)
  qed
  have kmul: "unat (?v * 10) = k * 10" using n by (subst unat_mult_lem [THEN iffD1]; simp add: uv)
  have "\<not> (?v > - 1 div 10)" using n unfolding word_less_nat_alt mx(1) uv by simp
  moreover have "\<not> (?v * 10 > - 1 - ?u)" using n d unfolding word_less_nat_alt mx(2) kmul by simp
  moreover have "s \<longrightarrow> ?v \<noteq> 0" using n(2) uv by (metis unsigned_0)
  ultimately have g: "\<not> (digit d < 0x30 \<or> digit d > 0x39 \<or> (s \<and> ?v = 0) \<or> ?v > - 1 div 10 \<or> ?v * 10 > - 1 - ?u)"
    using is_digit_digit [OF d] by (auto simp: is_digit_def)
  have dot: "\<not> (digit d = 0x2e \<and> CBS_len (adv 1 c) > 0)" using is_digit_digit [OF d] by (auto simp: is_digit_def)
  have out: "?v * 10 + ?u = word_of_nat (k * 10 + d)" unfolding u(1) by simp
  have "CBS_get_u8 c = (Some (digit d), adv 1 c)" using c by (simp add: CBS_get_u8_eq)
  then show ?thesis
    by (subst parse_dotted_loop.simps) (simp only: prod.case option.case if_not_P [OF dot] if_not_P [OF g] out)
qed

lemma parse_dotted_digits:
  assumes "cbs_bytes c = decimal n @ xs" "cbs_wf c" "n < 2 ^ 64"
  shows "parse_dotted_loop c 0 False = parse_dotted_loop (adv (length (decimal n)) c) (word_of_nat n) True"
  using assms
proof (induction n arbitrary: xs rule: decimal.induct)
  case (1 n)
  show ?case
  proof (cases "n < 10")
    case True
    then show ?thesis
      using parse_dotted_digit [of c n xs 0 False] "1.prems" by (simp add: decimal_single)
  next
    case False
    have d: "decimal n = decimal (n div 10) @ [digit (n mod 10)]" using False by (simp add: decimal_step)
    let ?l = "length (decimal (n div 10))"
    have "parse_dotted_loop c 0 False = parse_dotted_loop (adv ?l c) (word_of_nat (n div 10)) True"
      using "1.IH" [of "digit (n mod 10) # xs"] False "1.prems" d by simp
    also have "\<dots> = parse_dotted_loop (adv 1 (adv ?l c)) (word_of_nat (n div 10 * 10 + n mod 10)) True"
      by (rule parse_dotted_digit [where xs = xs]) (use "1.prems" d False in \<open>simp_all add: div_greater_zero_iff\<close>)
    finally show ?thesis by (simp add: d adv_adv)
  qed
qed

lemma parse_dotted_component:
  assumes c: "cbs_bytes c = dotted (n # ns)" "cbs_wf c" and n: "n < 2 ^ 64"
  obtains c' where "parse_dotted_decimal c = (Some (word_of_nat n), c')" "cbs_bytes c' = dotted ns" "cbs_wf c'"
proof -
  let ?d = "adv (length (decimal n)) c"
  obtain xs where xs: "dotted (n # ns) = decimal n @ xs" "xs = (if ns = [] then [] else 0x2e # dotted ns)"
    by (cases "ns = []") (simp_all add: dotted_Cons)
  have p: "parse_dotted_decimal c = parse_dotted_loop ?d (word_of_nat n) True"
    unfolding parse_dotted_decimal_def using parse_dotted_digits [of c n xs] assms xs(1) by simp
  have d: "cbs_bytes ?d = xs" "cbs_wf ?d" using c xs(1) by simp_all
  show thesis
  proof (cases ns)
    case Nil
    then have "parse_dotted_loop ?d (word_of_nat n) True = (Some (word_of_nat n), ?d)"
      using d xs(2) by (subst parse_dotted_loop.simps) (simp add: CBS_get_u8_eq)
    then show thesis using that p d xs(2) Nil by simp
  next
    case (Cons k ks)
    have "dotted ns \<noteq> []" using dotted_alt [of k ks] Cons by simp
    moreover have "CBS_len (adv 1 ?d) = length (dotted ns)"
      unfolding CBS_len_eq [OF cbs_wf_adv [OF d(2)]] cbs_bytes_adv [of 1 ?d] d(1) using xs(2) Cons by simp
    ultimately have "CBS_len (adv 1 ?d) > 0" by simp
    moreover have "CBS_get_u8 ?d = (Some 0x2e, adv 1 ?d)" using d xs(2) Cons by (simp add: CBS_get_u8_eq)
    ultimately have "parse_dotted_loop ?d (word_of_nat n) True = (Some (word_of_nat n), adv 1 ?d)"
      by (subst parse_dotted_loop.simps) simp
    moreover have "cbs_bytes (adv 1 ?d) = dotted ns" unfolding cbs_bytes_adv [of 1 ?d] d(1) using xs(2) Cons by simp
    ultimately show thesis using that [of "adv 1 ?d"] p cbs_wf_adv [OF d(2)] by (simp only:)
  qed
qed

subsection \<open>Writing contents\<close>

lemma works_oid_from_text_loop:
  assumes "cbs_bytes c = dotted ns" "cbs_wf c" "\<forall>n \<in> set ns. n < 2 ^ 64"
  shows "works m a S [] (oid_from_text_loop m a c) (Some (concat (map base128 ns))) []"
  using assms
proof (induction ns arbitrary: c)
  case Nil
  then have "oid_from_text_loop m a c = succeed"
    by (intro ext) (subst oid_from_text_loop.simps, simp add: CBS_len_eq)
  then show ?case using works_succeed by simp
next
  case (Cons n ns)
  obtain c' where c': "parse_dotted_decimal c = (Some (word_of_nat n), c')" "cbs_bytes c' = dotted ns" "cbs_wf c'"
    using parse_dotted_component [OF Cons.prems(1,2)] Cons.prems(3) by auto
  have "dotted (n # ns) \<noteq> []" by (simp add: dotted_alt)
  then have "oid_from_text_loop m a c = andthen (add_base128_integer m a (word_of_nat n)) (oid_from_text_loop m a c')"
    using Cons.prems(1,2) c'(1) by (intro ext) (subst oid_from_text_loop.simps, simp add: CBS_len_eq)
  moreover have "unat (word_of_nat n :: u64) = n" using Cons.prems(3) by (simp add: unat_of_nat)
  moreover have "works m a S [] (oid_from_text_loop m a c') (Some (concat (map base128 ns))) []"
    using Cons.IH c'(2,3) Cons.prems(3) by simp
  ultimately show ?case
    using works_then [OF works_add_base128 [of m a S "word_of_nat n"]] by fastforce
qed

lemma works_oid_from_text:
  assumes v: "oid_valid ns" and t: "take n text = dotted ns" "n \<le> length text" "n < size_mod"
  shows "does m a S (CBB_add_asn1_oid_from_text m a text n) (Some (oid_content ns)) []"
proof -
  obtain x y rest where ns: "ns = x # y # rest" "x \<le> 2" "x < 2 \<longrightarrow> y \<le> 39" "40 * x + y < 2 ^ 64" "\<forall>k \<in> set rest. k < 2 ^ 64"
    using v by (auto simp: oid_valid_def)
  let ?c = "CBS_init text n"
  have c: "cbs_bytes ?c = dotted (x # y # rest)" "cbs_wf ?c"
    using t ns(1) by (auto intro!: cbs_of_buffer simp: min_absorb2 dest: arg_cong [where f = length])
  have b: "x < 2 ^ 64" "y < 2 ^ 64" using ns by simp_all
  obtain c1 where c1: "parse_dotted_decimal ?c = (Some (word_of_nat x), c1)" "cbs_bytes c1 = dotted (y # rest)" "cbs_wf c1"
    using parse_dotted_component [OF c b(1)] by blast
  obtain c2 where c2: "parse_dotted_decimal c1 = (Some (word_of_nat y), c2)" "cbs_bytes c2 = dotted rest" "cbs_wf c2"
    using parse_dotted_component [OF c1(2,3) b(2)] by blast
  have u: "unat (word_of_nat x :: u64) = x" "unat (word_of_nat y :: u64) = y" using b by (simp_all add: unat_of_nat)
  have m80: "unat (- 1 - 80 :: u64) = 2 ^ 64 - 81" by simp
  have "y \<le> 2 ^ 64 - 81" using ns(2-4) by (cases "x = 2") auto
  then have g: "\<not> (word_of_nat x > (2 :: u64) \<or> (word_of_nat x < (2 :: u64) \<and> word_of_nat y > (39 :: u64)) \<or> word_of_nat y > (- 1 - 80 :: u64))"
    using ns(2,3) unfolding word_less_nat_alt u m80 by auto
  have uv: "unat (40 * word_of_nat x + word_of_nat y :: u64) = 40 * x + y"
  proof -
    have "(40 * word_of_nat x + word_of_nat y :: u64) = word_of_nat (40 * x + y)" by simp
    then show ?thesis using ns(4) by (simp only: unat_of_nat) simp
  qed
  have "works m a S [] (andthen (add_base128_integer m a (40 * word_of_nat x + word_of_nat y)) (oid_from_text_loop m a c2))
      (Some (oid_content ns)) []"
    using works_then [OF works_add_base128 [of m a S "40 * word_of_nat x + word_of_nat y"] works_oid_from_text_loop [OF c2(2,3) ns(5)]]
    unfolding uv ns(1) by simp
  then show ?thesis
    unfolding CBB_add_asn1_oid_from_text_def c1(1) c2(1) prod.case option.case if_not_P [OF g]
    by (rule works_flush_then)
qed

subsection \<open>Printing contents\<close>

lemma works_add_decimal: "does m a S (add_decimal m a v) (Some (decimal (unat v))) []"
proof -
  have "unat v < 2 ^ 64" using unsigned_less [of v, where ?'a = nat] by simp
  then have "unat v < 10 ^ 20" by simp
  then have l: "length (decimal (unat v)) \<le> 20" by (rule length_decimal) simp
  have z: "0 \<notin> set (decimal (unat v))" using decimal_digits [of 0 "unat v"] by (auto simp: is_digit_def)
  define buf where "buf = BIO_snprintf (replicate 24 0) 24 (decimal (unat v))"
  have buf: "buf = decimal (unat v) @ 0 # drop (length (decimal (unat v)) + 1) (replicate 24 0)"
    using l by (simp add: buf_def BIO_snprintf_def mem_write_def)
  have n: "strlen buf = length (decimal (unat v))" unfolding buf using z by simp
  then have "add_decimal m a v = CBB_add_bytes m a buf (length (decimal (unat v)))"
    by (simp add: add_decimal_def buf_def Let_def)
  moreover have "take (length (decimal (unat v))) buf = decimal (unat v)" unfolding buf by simp
  ultimately show ?thesis
    using works_add_bytes [of "length (decimal (unat v))" buf m a S] l unfolding buf by simp
qed

lemma oid_rest_cases:
  assumes "cbs_wf c"
  shows "(\<exists>ns. (\<forall>n \<in> set ns. n < 2 ^ 64) \<and> cbs_bytes c = concat (map base128 ns) \<and>
       works m a S [] (oid_to_text_loop m a c) (Some (concat (map (\<lambda>n. 0x2e # decimal n) ns))) []) \<or>
     (\<nexists>ns. (\<forall>n \<in> set ns. n < 2 ^ 64) \<and> cbs_bytes c = concat (map base128 ns)) \<and> fails a (oid_to_text_loop m a c)"
  using assms
proof (induction "cbs_len c" arbitrary: c rule: less_induct)
  case less
  show ?case
  proof (cases "cbs_bytes c = []")
    case True
    then have "oid_to_text_loop m a c = succeed"
      using less.prems by (intro ext) (subst oid_to_text_loop.simps, simp add: CBS_len_eq)
    then show ?thesis using True works_succeed by (intro disjI1 exI [of _ "[]"]) simp
  next
    case ne: False
    obtain r c' where r: "parse_base128_integer c = (r, c')" by (cases "parse_base128_integer c")
    have b128: "base128 n \<noteq> []" for n by (simp add: base128_def)
    have shape: "\<exists>n ns'. ns = n # ns' \<and> parse_base128_integer c = (Some (word_of_nat n), adv (length (base128 n)) c) \<and>
        cbs_bytes (adv (length (base128 n)) c) = concat (map base128 ns')"
      if "\<forall>n \<in> set ns. n < 2 ^ 64" "cbs_bytes c = concat (map base128 ns)" for ns
      using that ne less.prems by (cases ns) (auto intro!: parse_base128_complete)
    show ?thesis
    proof (cases r)
      case None
      then have "oid_to_text_loop m a c = (\<lambda>h. Some (False, h))"
        using ne less.prems r by (intro ext) (subst oid_to_text_loop.simps, simp add: CBS_len_eq)
      then have "fails a (oid_to_text_loop m a c)" by (simp add: fails_def)
      moreover have "\<nexists>ns. (\<forall>n \<in> set ns. n < 2 ^ 64) \<and> cbs_bytes c = concat (map base128 ns)"
        using shape r None by fastforce
      ultimately show ?thesis by blast
    next
      case (Some v)
      have sound: "cbs_bytes c = base128 (unat v) @ cbs_bytes c'" "cbs_wf c'"
        using parse_base128_sound [of c 0 v c'] r Some less.prems by (auto simp: parse_base128_integer_def)
      have op: "oid_to_text_loop m a c = andthen (CBB_add_u8 m a 0x2e) (andthen (add_decimal m a v) (oid_to_text_loop m a c'))"
        using ne less.prems r Some by (intro ext) (subst oid_to_text_loop.simps, simp add: CBS_len_eq)
      have dec: "works m a S [] (add_decimal m a v) (Some (decimal (unat v))) []" using works_add_decimal by blast
      have "cbs_len c' < cbs_len c"
        using parse_base128_len_decreases r Some by (simp add: parse_base128_integer_def)
      from less.hyps [OF this sound(2)] show ?thesis
      proof (elim disjE exE conjE)
        fix ns assume ns: "\<forall>n \<in> set ns. n < 2 ^ 64" "cbs_bytes c' = concat (map base128 ns)"
          "works m a S [] (oid_to_text_loop m a c') (Some (concat (map (\<lambda>n. 0x2e # decimal n) ns))) []"
        have "works m a S [] (oid_to_text_loop m a c) (Some (concat (map (\<lambda>n. 0x2e # decimal n) (unat v # ns)))) []"
          unfolding op using works_then [OF works_u8 [of m a S "[]" "0x2e"] works_then [OF dec ns(3)]] by simp
        moreover have "unat v < 2 ^ 64" using unsigned_less [of v, where ?'a = nat] by simp
        ultimately show ?thesis using ns(1,2) sound(1) by (intro disjI1 exI [of _ "unat v # ns"]) simp
      next
        assume bad: "\<nexists>ns. (\<forall>n \<in> set ns. n < 2 ^ 64) \<and> cbs_bytes c' = concat (map base128 ns)" "fails a (oid_to_text_loop m a c')"
        have "fails a (oid_to_text_loop m a c)" unfolding op by (intro fails_then [OF works_u8] fails_then [OF dec] bad(2))
        moreover have "\<nexists>ns. (\<forall>n \<in> set ns. n < 2 ^ 64) \<and> cbs_bytes c = concat (map base128 ns)"
        proof
          assume "\<exists>ns. (\<forall>n \<in> set ns. n < 2 ^ 64) \<and> cbs_bytes c = concat (map base128 ns)"
          then obtain ns where ns: "\<forall>n \<in> set ns. n < 2 ^ 64" "cbs_bytes c = concat (map base128 ns)" by blast
          from shape [OF ns] obtain n ns' where "ns = n # ns'" "c' = adv (length (base128 n)) c"
            "cbs_bytes (adv (length (base128 n)) c) = concat (map base128 ns')" using r by auto
          then show False using bad(1) ns(1) by auto
        qed
        ultimately show ?thesis by blast
      qed
    qed
  qed
qed

text \<open>The first two components share the first number.\<close>

definition oid_first :: "nat \<Rightarrow> nat \<times> nat" where
  "oid_first n = (if n \<ge> 80 then (2, n - 80) else (n div 40, n mod 40))"

lemma oid_first_inverse:
  "a \<le> 2 \<Longrightarrow> (a < 2 \<longrightarrow> b \<le> 39) \<Longrightarrow> oid_first (40 * a + b) = (a, b)"
  by (cases "a = 2") (auto simp: oid_first_def)

lemma oid_first_valid:
  assumes "oid_first n = (a, b)"
  shows "a \<le> 2" "a < 2 \<longrightarrow> b \<le> 39" "40 * a + b = n"
  using assms by (auto simp: oid_first_def split: if_splits)

definition oid_text_op :: "allocator \<Rightarrow> nat \<Rightarrow> u64 \<Rightarrow> CBS \<Rightarrow> cbb_heap \<Rightarrow> cbb_result" where
  "oid_text_op m a v c =
     andthen
       (if v \<ge> 80
        then andthen (CBB_add_bytes m a [0x32, 0x2e] 2) (add_decimal m a (v - 80))
        else andthen (add_decimal m a (v div 40))
               (andthen (CBB_add_u8 m a 0x2e) (add_decimal m a (v mod 40))))
       (andthen (oid_to_text_loop m a c) (CBB_add_u8 m a 0))"

lemma works_oid_first:
  assumes "oid_first (unat v) = (x, y)"
  shows "works m a S [] (if v \<ge> 80 then andthen (CBB_add_bytes m a [0x32, 0x2e] 2) (add_decimal m a (v - 80))
        else andthen (add_decimal m a (v div 40)) (andthen (CBB_add_u8 m a 0x2e) (add_decimal m a (v mod 40))))
      (Some (decimal x @ 0x2e # decimal y)) []"
proof -
  have dec: "works m a S [] (add_decimal m a w) (Some (decimal (unat w))) []" for w using works_add_decimal by blast
  have ge: "v \<ge> 80 \<longleftrightarrow> unat v \<ge> 80" by (simp add: word_le_nat_alt)
  show ?thesis
  proof (cases "v \<ge> 80")
    case True
    then have u: "unat (v - 80) = unat v - 80" by (simp add: unat_sub)
    have "works m a S [] (CBB_add_bytes m a [0x32, 0x2e] 2) (Some [0x32, 0x2e]) []"
      using works_add_bytes [of 2 "[0x32, 0x2e]" m a S] by simp
    from works_then [OF this dec [of "v - 80"]] show ?thesis
      using True assms ge u by (simp add: oid_first_def decimal_single digit_def)
  next
    case False
    then show ?thesis
      using works_then [OF dec [of "v div 40"] works_then [OF works_u8 [of m a S "[]" "0x2e"] dec [of "v mod 40"]]] assms ge
      by (simp add: oid_first_def unat_div unat_mod word_le_nat_alt)
  qed
qed

lemma oid_to_text_session:
  assumes "parse_base128_integer c = (Some v, c')"
  shows "map_option fst (CBS_asn1_oid_to_text m a c h) = map_option (map_option fst) (session m a 32 (oid_text_op m a v c') h)"
  unfolding CBS_asn1_oid_to_text_def session_def assms oid_text_op_def [symmetric] prod.case option.case
  by (auto split: prod.splits bool.splits option.splits)

lemma oid_content_first:
  assumes "oid_first n = (x, y)"
  shows "oid_content (x # y # ns) = base128 n @ concat (map base128 ns)"
  using oid_first_valid(3) [OF assms] by simp

lemma length_dotted:
  assumes "\<forall>n \<in> set ns. n < 2 ^ 64"
  shows "length (concat (map (\<lambda>n. 0x2e # decimal n) ns)) \<le> 21 * length (concat (map base128 ns))"
  using assms
proof (induction ns)
  case (Cons n ns)
  have "n < 10 ^ 20" using Cons.prems by simp
  then have "length (decimal n) \<le> 20" by (rule length_decimal) simp
  moreover have "1 \<le> length (base128 n)" by (simp add: base128_def)
  ultimately show ?case using Cons by simp
qed simp

lemma oid_content_parse:
  assumes "oid_valid ns" "cbs_bytes c = oid_content ns" "cbs_wf c"
  obtains x y rest where "ns = x # y # rest" "\<forall>n \<in> set rest. n < 2 ^ 64"
    "parse_base128_integer c = (Some (word_of_nat (40 * x + y)), adv (length (base128 (40 * x + y))) c)"
    "cbs_bytes (adv (length (base128 (40 * x + y))) c) = concat (map base128 rest)"
proof -
  obtain x y rest where ns: "ns = x # y # rest" "40 * x + y < 2 ^ 64" "\<forall>n \<in> set rest. n < 2 ^ 64"
    using assms(1) by (auto simp: oid_valid_def)
  have b: "cbs_bytes c = base128 (40 * x + y) @ concat (map base128 rest)" using assms(2) ns(1) by simp
  from parse_base128_complete [OF ns(2) b assms(3)] show thesis using that ns b by simp
qed

text \<open>The two directions on contents that are those of a component list.\<close>

lemma oid_dotted_length:
  assumes xy: "oid_first (unat (v :: u64)) = (x, y)" and ns: "\<forall>n \<in> set ns. n < 2 ^ 64"
    and len: "length (concat (map base128 ns)) < 2 ^ 50"
  shows "length (dotted (x # y # ns)) < 2 ^ 61"
proof -
  have "unat v < 2 ^ 64" using unsigned_less [of v, where ?'a = nat] by simp
  then have "x < 10 ^ 20" "y < 10 ^ 20" using oid_first_valid [OF xy] by simp_all
  then have "length (decimal x) \<le> 20" "length (decimal y) \<le> 20" using length_decimal [of _ 20] by simp_all
  then show ?thesis using length_dotted [OF ns] len by (simp add: dotted_alt)
qed

lemma oid_print_works:
  assumes m: "\<forall>k n. m k n \<noteq> None" and p: "parse_base128_integer c = (Some v, c')" and xy: "oid_first (unat v) = (x, y)"
    and rest: "works m a {} [] (oid_to_text_loop m a c') (Some (concat (map (\<lambda>n. 0x2e # decimal n) ns))) []"
    and len: "length (dotted (x # y # ns)) < 2 ^ 61"
  obtains h tail where "CBS_asn1_oid_to_text m a c h0 = Some (Some (dotted (x # y # ns) @ 0 # tail), h)"
proof -
  let ?t = "dotted (x # y # ns) @ [0]"
  have op: "works m a {} [] (oid_text_op m a v c') (Some ?t) []"
    unfolding oid_text_op_def
    using works_then [OF works_oid_first [OF xy] works_then [OF rest works_u8 [of m a "{}" "[]" 0]]]
    by (simp add: dotted_alt)
  obtain out where s: "session m a 32 (oid_text_op m a v c') h0 = Some (Some (out, length ?t))"
    "cbs_bytes (CBS_init out (length ?t)) = ?t"
    using session_works [OF op _ m, of "[]" 32 h0] len by fastforce
  have out: "out = dotted (x # y # ns) @ 0 # drop (length ?t) out"
    using s(2) append_take_drop_id [of "length ?t" out] by (simp add: cbs_bytes_def CBS_init_def)
  obtain h where "CBS_asn1_oid_to_text m a c h0 = Some (Some out, h)"
    using oid_to_text_session [OF p, of m a h0] s(1) by auto
  then have "CBS_asn1_oid_to_text m a c h0 = Some (Some (dotted (x # y # ns) @ 0 # drop (length ?t) out), h)"
    using out by argo
  then show thesis by (rule that)
qed

lemma oid_parse_works:
  assumes m: "\<forall>k n. m k n \<noteq> None" and cap: "cap < 2 ^ 63" and valid: "oid_valid ns"
    and len: "length (dotted ns) < 2 ^ 61" "length (oid_content ns) < 2 ^ 50" and t: "t = dotted ns @ 0 # tail"
  shows "\<exists>buf n. session m b cap (CBB_add_asn1_oid_from_text m b t (strlen t)) h1 = Some (Some (buf, n)) \<and>
    take n buf = oid_content ns"
proof -
  obtain x xs where ns: "ns = x # xs" using valid by (auto simp: oid_valid_def)
  have z: "0 \<notin> set (dotted ns)" using decimal_digits [of 0] by (auto simp: ns dotted_alt is_digit_def)
  have sl: "strlen t = length (dotted ns)" unfolding t by (rule strlen_terminated [OF z])
  have tk: "take (strlen t) t = dotted ns" using sl by (simp add: t)
  have "strlen t \<le> length t" "strlen t < size_mod" using sl len by (simp_all add: t)
  with works_oid_from_text [OF valid tk]
  have "works m b {} [] (CBB_add_asn1_oid_from_text m b t (strlen t)) (Some (oid_content ns)) []" by blast
  from session_works [OF this _ m cap, of "[]" h1] len(2) show ?thesis
    by (fastforce simp: cbs_bytes_def CBS_init_def)
qed

text \<open>
  C29: The textual form of OBJECT IDENTIFIERs, with memory available. \<open>CBS_asn1_oid_to_text\<close>
  succeeds exactly on the contents of a valid component list and returns its dotted text with
  a terminator; \<open>CBB_add_asn1_oid_from_text\<close> turns that text back into the same contents.
\<close>

theorem oid_text_roundtrip:
  assumes m: "\<forall>k n. m k n \<noteq> None" and c: "cbs_wf c" "cbs_len c < 2 ^ 50" and cap: "cap < 2 ^ 63"
  shows "if \<exists>ns. oid_valid ns \<and> cbs_bytes c = oid_content ns
    then \<exists>ns txt rest h buf n. oid_valid ns \<and> cbs_bytes c = oid_content ns \<and>
      CBS_asn1_oid_to_text m a c h0 = Some (Some txt, h) \<and> txt = dotted ns @ 0 # rest \<and>
      session m b cap (CBB_add_asn1_oid_from_text m b txt (strlen txt)) h1 = Some (Some (buf, n)) \<and>
      take n buf = cbs_bytes c
    else \<exists>h. CBS_asn1_oid_to_text m a c h0 = Some (None, h)"
proof (cases "parse_base128_integer c")
  case (Pair r c')
  show ?thesis
  proof (cases r)
    case None
    then have "\<nexists>ns. oid_valid ns \<and> cbs_bytes c = oid_content ns"
      using oid_content_parse [OF _ _ c(1)] Pair by (metis option.distinct(1) prod.inject)
    moreover obtain h where "CBB_init m a 32 h0 = (True, h)" using init_generous [OF m, of 32 a h0] by auto
    then have "\<exists>h. CBS_asn1_oid_to_text m a c h0 = Some (None, h)" using Pair None by (simp add: CBS_asn1_oid_to_text_def)
    ultimately show ?thesis by (simp only: if_False)
  next
    case (Some v)
    have p: "parse_base128_integer c = (Some v, c')" using Pair Some by simp
    have sound: "cbs_bytes c = base128 (unat v) @ cbs_bytes c'" "cbs_wf c'"
      using parse_base128_sound [of c 0 v c'] p c(1) by (auto simp: parse_base128_integer_def)
    obtain x y where xy: "oid_first (unat v) = (x, y)" by (cases "oid_first (unat v)")
    from oid_rest_cases [OF sound(2), of m a "{}"] show ?thesis
    proof (elim disjE exE conjE)
      fix ns assume ns: "\<forall>n \<in> set ns. n < 2 ^ 64" "cbs_bytes c' = concat (map base128 ns)"
        and loop: "works m a {} [] (oid_to_text_loop m a c') (Some (concat (map (\<lambda>n. 0x2e # decimal n) ns))) []"
      let ?ns = "x # y # ns"
      have valid: "oid_valid ?ns"
        using oid_first_valid [OF xy] ns(1) unsigned_less [of v, where ?'a = nat] by (auto simp: oid_valid_def)
      have content: "cbs_bytes c = oid_content ?ns" using oid_content_first [OF xy] sound(1) ns(2) by simp
      have clen: "length (oid_content ?ns) < 2 ^ 50" using content c length_cbs_bytes [OF c(1)] by simp
      then have len: "length (dotted ?ns) < 2 ^ 61"
        using oid_content_first [OF xy, of ns] by (intro oid_dotted_length [OF xy ns(1)]) simp
      obtain h tail where h: "CBS_asn1_oid_to_text m a c h0 = Some (Some (dotted ?ns @ 0 # tail), h)"
        using oid_print_works [OF m p xy loop len] by blast
      have ex: "\<exists>ns. oid_valid ns \<and> cbs_bytes c = oid_content ns" using valid content by blast
      show ?thesis unfolding if_P [OF ex]
        using oid_parse_works [OF m cap valid len clen refl, of b tail h1] valid content h by metis
    next
      assume bad: "\<nexists>ns. (\<forall>n \<in> set ns. n < 2 ^ 64) \<and> cbs_bytes c' = concat (map base128 ns)" "fails a (oid_to_text_loop m a c')"
      have "fails a (oid_text_op m a v c')"
        unfolding oid_text_op_def by (rule fails_then [OF works_oid_first [OF xy, of m a "{}"] fails_before [OF bad(2)]])
      then have "session m a 32 (oid_text_op m a v c') h0 = Some None" by (rule session_fails) simp
      then have "\<exists>h. CBS_asn1_oid_to_text m a c h0 = Some (None, h)"
        using oid_to_text_session [OF p, of m a h0] by auto
      moreover have "\<nexists>ns. oid_valid ns \<and> cbs_bytes c = oid_content ns"
        using oid_content_parse [OF _ _ c(1)] bad(1) p by (metis prod.inject)
      ultimately show ?thesis by (simp only: if_False)
    qed
  qed
qed

theorem oid_text_roundtrip_witness:
  "if \<exists>ns. oid_valid ns \<and> cbs_bytes (CBS_init [0x2a, 0x86, 0x48] 3) = oid_content ns
    then \<exists>ns txt rest h buf n. oid_valid ns \<and> cbs_bytes (CBS_init [0x2a, 0x86, 0x48] 3) = oid_content ns \<and>
      CBS_asn1_oid_to_text zero_alloc 2 (CBS_init [0x2a, 0x86, 0x48] 3) empty_heap = Some (Some txt, h) \<and> txt = dotted ns @ 0 # rest \<and>
      session zero_alloc 3 16 (CBB_add_asn1_oid_from_text zero_alloc 3 txt (strlen txt)) empty_heap = Some (Some (buf, n)) \<and>
      take n buf = cbs_bytes (CBS_init [0x2a, 0x86, 0x48] 3)
    else \<exists>h. CBS_asn1_oid_to_text zero_alloc 2 (CBS_init [0x2a, 0x86, 0x48] 3) empty_heap = Some (None, h)"
  by (rule oid_text_roundtrip [OF zero_alloc_ok]) (simp_all add: cbs_wf_def CBS_init_def)

end
