(* ===== verification/Set_Of.thy ===== *)
theory Set_Of
  imports Builder_Properties Comparison "HOL-Library.List_Lexorder"
begin

unbundle bit_operations_syntax

text \<open>
  \<open>CBB_flush_asn1_set_of\<close> of \<open>cbb.c\<close>, which sorts the elements of a DER SET OF in place. The
  comparison function is an instance of the contract that \<open>qsort\<close> asks for; the order it
  decides is the lexicographic order of byte strings, so the result is the sorted list of
  the elements, whatever order they were added in.
\<close>

subsection \<open>Definitions\<close>

text \<open>\<open>memcmp\<close> of the C library compares as \<open>unsigned char\<close>; only the sign of the result is specified.\<close>

definition OPENSSL_memcmp :: "byte list \<Rightarrow> byte list \<Rightarrow> nat \<Rightarrow> int" where
  "OPENSSL_memcmp s1 s2 n =
     (case dropWhile (\<lambda>i. s1 ! i = s2 ! i) [0..<n] of
        [] \<Rightarrow> 0
      | i # _ \<Rightarrow> int (unat (s1 ! i)) - int (unat (s2 ! i)))"

definition compare_set_of_element :: "CBS \<Rightarrow> CBS \<Rightarrow> int" where
  "compare_set_of_element a b =
     (let a_len = CBS_len a; b_len = CBS_len b;
          min_len = (if a_len < b_len then a_len else b_len);
          ret = OPENSSL_memcmp (CBS_data a) (CBS_data b) min_len
      in if ret \<noteq> 0 then ret
         else if a_len = b_len then 0
         else if a_len < b_len then - 1 else 1)"

definition sizeof_CBS :: nat where
  "sizeof_CBS = 16"

function count_children :: "CBS \<Rightarrow> nat \<Rightarrow> nat option" where
  "count_children cbs num_children =
     (if CBS_len cbs \<noteq> 0 then
        (case CBS_get_any_asn1_element cbs of
           (None, _) \<Rightarrow> None
         | (Some _, cbs') \<Rightarrow> count_children cbs' (num_children + 1))
      else Some num_children)"
  by pat_completeness auto
termination
  by (relation "measure (\<lambda>(c, n). cbs_len c)") (auto dest: CBS_get_any_asn1_element_len_decreases [OF sym])

declare count_children.simps [simp del]

primrec get_children :: "nat \<Rightarrow> CBS \<Rightarrow> CBS list option" where
  "get_children 0 cbs = Some []"
| "get_children (Suc n) cbs =
     (case CBS_get_any_asn1_element cbs of
        (None, _) \<Rightarrow> None
      | (Some (child, _), cbs') \<Rightarrow> map_option (Cons child) (get_children n cbs'))"

primrec add_children :: "allocator \<Rightarrow> nat \<Rightarrow> CBS list \<Rightarrow> cbb_heap \<Rightarrow> cbb_result" where
  "add_children m cbb [] = (\<lambda>h. Some (True, h))"
| "add_children m cbb (c # cs) = andthen (CBB_add_bytes m cbb (CBS_data c) (CBS_len c)) (add_children m cbb cs)"

text \<open>\<open>qsort\<close> is a parameter. The two blocks are allocated before either is tested.\<close>

definition CBB_flush_asn1_set_of ::
    "allocator \<Rightarrow> ((CBS \<Rightarrow> CBS \<Rightarrow> int) \<Rightarrow> CBS list \<Rightarrow> CBS list) \<Rightarrow> nat \<Rightarrow> cbb_heap \<Rightarrow> cbb_result" where
  "CBB_flush_asn1_set_of m qsort cbb =
     andthen (CBB_flush m cbb) (\<lambda>h.
       case count_children (CBS_init (CBB_data cbb h) (CBB_len cbb h)) 0 of
         None \<Rightarrow> Some (False, h)
       | Some num_children \<Rightarrow>
           if num_children < 2 then Some (True, h)
           else if num_children > size_max div sizeof_CBS then Some (False, h)
           else
             (let buf_len = CBB_len cbb h;
                  buf = OPENSSL_memdup m (hallocs h) (CBB_data cbb h) buf_len;
                  children = OPENSSL_malloc m (Suc (hallocs h)) (num_children * sizeof_CBS);
                  h1 = h\<lparr>hallocs := Suc (Suc (hallocs h))\<rparr>
              in case buf of
                   None \<Rightarrow> Some (False, h1)
                 | Some buf \<Rightarrow>
                     if children = None then Some (False, h1)
                     else
                       (case get_children num_children (CBS_init buf buf_len) of
                          None \<Rightarrow> Some (False, h1)
                        | Some children \<Rightarrow>
                            add_children m cbb (qsort compare_set_of_element children)
                              (h1\<lparr>hbase := (hbase h1)\<lparr>cb_len := cbb_offset (hcbb h1 cbb) + cbb_pending_len_len (hcbb h1 cbb)\<rparr>\<rparr>))))"

subsection \<open>The comparison decides the lexicographic order\<close>

text \<open>The cells a reader covers.\<close>

definition cells :: "CBS \<Rightarrow> byte list" where
  "cells c = map ((!) (cbs_data c)) [0..<cbs_len c]"

lemma cells_wf: "cbs_wf c \<Longrightarrow> cells c = cbs_bytes c"
  by (auto simp: cells_def cbs_bytes_def cbs_wf_def intro!: nth_equalityI)

lemma length_cells [simp]: "length (cells c) = CBS_len c"
  by (simp add: cells_def CBS_len_def)

lemma OPENSSL_memcmp_cong:
  assumes "\<And>i. i < n \<Longrightarrow> s1 ! i = t1 ! i \<and> s2 ! i = t2 ! i"
  shows "OPENSSL_memcmp s1 s2 n = OPENSSL_memcmp t1 t2 n"
proof -
  have eq: "dropWhile (\<lambda>i. s1 ! i = s2 ! i) [0..<n] = dropWhile (\<lambda>i. t1 ! i = t2 ! i) [0..<n]"
    by (rule dropWhile_cong) (simp_all add: assms)
  show ?thesis
  proof (cases "dropWhile (\<lambda>i. t1 ! i = t2 ! i) [0..<n]")
    case (Cons i js)
    then have "i \<in> set (dropWhile (\<lambda>i. t1 ! i = t2 ! i) [0..<n])" by simp
    then have "i < n" by (auto dest: set_dropWhileD)
    then show ?thesis using assms [of i] Cons eq unfolding OPENSSL_memcmp_def by simp
  qed (use eq in \<open>unfold OPENSSL_memcmp_def, simp del: dropWhile_eq_Nil_conv\<close>)
qed

lemma OPENSSL_memcmp_0 [simp]: "OPENSSL_memcmp s t 0 = 0"
  by (simp add: OPENSSL_memcmp_def)

lemma OPENSSL_memcmp_Cons [simp]:
  "OPENSSL_memcmp (x # xs) (y # ys) (Suc n) =
     (if x = y then OPENSSL_memcmp xs ys n else int (unat x) - int (unat y))"
proof -
  have "[0..<Suc n] = 0 # map Suc [0..<n]" by (simp add: upt_conv_Cons map_Suc_upt del: upt_Suc)
  then show ?thesis
    by (cases "dropWhile (\<lambda>i. xs ! i = ys ! i) [0..<n]")
       (simp_all add: OPENSSL_memcmp_def dropWhile_map o_def del: upt_Suc dropWhile_eq_Nil_conv)
qed

definition compare_bytes :: "byte list \<Rightarrow> byte list \<Rightarrow> int" where
  "compare_bytes xs ys =
     (let ret = OPENSSL_memcmp xs ys (min (length xs) (length ys))
      in if ret \<noteq> 0 then ret else if length xs = length ys then 0 else if length xs < length ys then - 1 else 1)"

lemma compare_set_of_element_cells: "compare_set_of_element a b = compare_bytes (cells a) (cells b)"
proof -
  have "OPENSSL_memcmp (cbs_data a) (cbs_data b) (min (CBS_len a) (CBS_len b)) =
      OPENSSL_memcmp (cells a) (cells b) (min (CBS_len a) (CBS_len b))"
    by (rule OPENSSL_memcmp_cong) (simp add: cells_def CBS_len_def)
  moreover have "(if k < n then k else n) = min k n" for k n :: nat by (simp add: min_def)
  ultimately show ?thesis
    by (simp only: compare_set_of_element_def compare_bytes_def CBS_data_def Let_def length_cells)
qed

lemma compare_bytes_lex:
  "compare_bytes xs ys < 0 \<longleftrightarrow> xs < ys" "0 < compare_bytes xs ys \<longleftrightarrow> ys < xs"
proof (induction xs arbitrary: ys)
  case Nil
  { case 1 then show ?case by (cases ys) (simp_all add: compare_bytes_def)
  next case 2 then show ?case by (cases ys) (simp_all add: compare_bytes_def) }
next
  case (Cons x xs)
  have step: "compare_bytes (x # xs) (y # zs) = (if x = y then compare_bytes xs zs else int (unat x) - int (unat y))" for y zs
    using unsigned_word_eqI [of x y, where ?'a = int] by (simp add: compare_bytes_def Let_def)
  { case 1 then show ?case
      using Cons.IH by (cases ys) (auto simp: step word_less_def, simp add: compare_bytes_def)
  next case 2 then show ?case
      using Cons.IH by (cases ys) (auto simp: step word_less_def, simp add: compare_bytes_def) }
qed

lemma compare_set_of_element_lex:
  "compare_set_of_element a b < 0 \<longleftrightarrow> cells a < cells b"
  "0 < compare_set_of_element a b \<longleftrightarrow> cells b < cells a"
  "compare_set_of_element a b \<le> 0 \<longleftrightarrow> cells a \<le> cells b"
  using compare_bytes_lex [of "cells a" "cells b"] by (auto simp: compare_set_of_element_cells)

interpretation set_of: comparison compare_set_of_element
  by unfold_locales (auto simp: compare_set_of_element_lex)

lemma qsort_cells:
  assumes "qsort_spec qsort"
  shows "map cells (qsort compare_set_of_element cs) = sort (map cells cs)"
proof (rule properties_for_sort [symmetric])
  note q = qsort_specD [OF assms set_of.comparison_axioms, of cs]
  show "mset (map cells (qsort compare_set_of_element cs)) = mset (map cells cs)" using q(1) by simp
  show "sorted (map cells (qsort compare_set_of_element cs))"
    using q(2) by (simp add: sorted_map compare_set_of_element_lex)
qed

subsection \<open>Walking over the elements\<close>

text \<open>A list of DER encodings.\<close>

definition der_list :: "byte list list \<Rightarrow> bool" where
  "der_list es \<longleftrightarrow> (\<forall>e \<in> set es. \<exists>t body. t < 2 ^ 32 \<and> length body < 2 ^ 32 \<and> e = der t body)"

lemma der_nonempty: "der t body \<noteq> []"
  by (simp add: der_def der_header_def)

lemma next_child:
  assumes "der_list (e # es)" "cbs_bytes c = e @ rest" "cbs_wf c"
  obtains t where "CBS_get_any_asn1_element c = (Some (cbs_view (length e) c, t), adv (length e) c)" "e \<noteq> []"
    "cbs_bytes (cbs_view (length e) c) = e" "cbs_wf (cbs_view (length e) c)" "cbs_bytes (adv (length e) c) = rest"
proof -
  obtain t body where e: "e = der t body" "t < 2 ^ 32" "length body < 2 ^ 32" using assms(1) by (auto simp: der_list_def)
  show thesis
    using CBS_get_any_asn1_element_complete [OF e(2,3) _ assms(3), of rest] assms(2,3) e(1)
    by (intro that) (auto simp: der_nonempty cbs_bytes_view cbs_wf_view)
qed

lemma count_children_complete:
  "der_list es \<Longrightarrow> cbs_bytes c = concat es \<Longrightarrow> cbs_wf c \<Longrightarrow> count_children c n = Some (n + length es)"
proof (induction es arbitrary: c n)
  case Nil
  then show ?case by (subst count_children.simps) (simp add: CBS_len_eq)
next
  case (Cons e es)
  obtain t where t: "CBS_get_any_asn1_element c = (Some (cbs_view (length e) c, t), adv (length e) c)" "e \<noteq> []"
    "cbs_bytes (adv (length e) c) = concat es"
    using next_child [OF Cons.prems(1) _ Cons.prems(3)] Cons.prems(2) by (metis concat.simps(2))
  have "der_list es" using Cons.prems(1) by (simp add: der_list_def)
  then show ?case
    using Cons.IH [of "adv (length e) c" "n + 1"] Cons.prems t by (subst count_children.simps) (simp add: CBS_len_eq)
qed

lemma count_children_sound:
  "count_children c n = Some k \<Longrightarrow> cbs_wf c \<Longrightarrow> \<exists>es. der_list es \<and> cbs_bytes c = concat es \<and> k = n + length es"
proof (induction c n rule: count_children.induct)
  case (1 c n)
  show ?case
  proof (cases "CBS_len c = 0")
    case True
    then show ?thesis
      using "1.prems" count_children.simps [of c n] by (intro exI [of _ "[]"]) (simp add: CBS_len_eq der_list_def)
  next
    case False
    obtain r c' where r: "CBS_get_any_asn1_element c = (r, c')" by (cases "CBS_get_any_asn1_element c")
    obtain out t hl where x: "r = Some (out, t, hl)" "count_children c' (n + 1) = Some k"
      using "1.prems"(1) False r count_children.simps [of c n] by (cases r) auto
    obtain body where b: "length body < 2 ^ 32" "cbs_bytes c = der (unat t) body @ cbs_bytes c'"
      "c' = adv (length (der (unat t) body)) c"
      using CBS_get_any_asn1_element_sound [OF r [unfolded x(1)] "1.prems"(2)] by blast
    have "cbs_wf c'" using b(3) "1.prems"(2) by simp
    then obtain es where es: "der_list es" "cbs_bytes c' = concat es" "k = n + 1 + length es"
      using "1.IH" [OF False r [symmetric] x(1) x(2)] by blast
    have "unat t < 2 ^ 32" using unsigned_less [of t, where ?'a = nat] by simp
    then have "der_list (der (unat t) body # es)" using es(1) b(1) by (auto simp: der_list_def)
    then show ?thesis using b(2) es by (intro exI [of _ "der (unat t) body # es"]) simp
  qed
qed

lemma get_children_complete:
  "der_list es \<Longrightarrow> cbs_bytes c = concat es \<Longrightarrow> cbs_wf c \<Longrightarrow>
   \<exists>cs. get_children (length es) c = Some cs \<and> map cbs_bytes cs = es \<and> (\<forall>x \<in> set cs. cbs_wf x)"
proof (induction es arbitrary: c)
  case (Cons e es)
  obtain t where t: "CBS_get_any_asn1_element c = (Some (cbs_view (length e) c, t), adv (length e) c)"
    "cbs_bytes (cbs_view (length e) c) = e" "cbs_wf (cbs_view (length e) c)" "cbs_bytes (adv (length e) c) = concat es"
    using next_child [OF Cons.prems(1) _ Cons.prems(3)] Cons.prems(2) by (metis concat.simps(2))
  have "der_list es" using Cons.prems(1) by (simp add: der_list_def)
  then show ?case
    using Cons.IH [of "adv (length e) c"] Cons.prems(3) t by auto
qed simp

lemma works_add_children:
  "\<forall>c \<in> set cs. cbs_wf c \<Longrightarrow> works m a S [] (add_children m a cs) (Some (concat (map cbs_bytes cs))) []"
proof (induction cs)
  case (Cons c cs)
  have "works m a S [] (CBB_add_bytes m a (CBS_data c) (CBS_len c)) (Some (cbs_bytes c)) []"
    using works_add_bytes [of "CBS_len c" "CBS_data c" m a S] Cons.prems
    by (simp add: CBS_len_def CBS_data_def cbs_bytes_def cbs_wf_def)
  from works_then [OF this Cons.IH] Cons.prems show ?case by simp
qed (use works_succeed in simp)

subsection \<open>Sorting\<close>

text \<open>The builder behind the rewind: only the bytes before the elements are left.\<close>

lemma rep_rewind:
  assumes "rep h a (Q @ R) []"
  shows "rep (h\<lparr>hallocs := k, hbase := (hbase h)\<lparr>cb_len := length Q\<rparr>\<rparr>) a Q []"
proof -
  have "take (length Q) (take (length (Q @ R)) (cb_buf (hbase h))) = Q" using assms by (simp add: rep_def buf_ok_def)
  then show ?thesis using assms by (simp add: rep_def buf_ok_def min_def)
qed

lemma concat_sort_length: "length (concat (sort es)) = length (concat es)"
  by (metis length_concat mset_map mset_sort sum_mset_sum_list)

lemma set_of_body:
  assumes "rep h a (Q @ R) []" "length Q = cbb_offset (hcbb h a) + cbb_pending_len_len (hcbb h a)"
  shows "CBB_len a h = length R" "take (length R) (CBB_data a h) = R" "length R \<le> length (CBB_data a h)"
    "cbs_bytes (CBS_init (CBB_data a h) (CBB_len a h)) = R" "cbs_wf (CBS_init (CBB_data a h) (CBB_len a h))"
proof -
  have ok: "cb_len (hbase h) = length (Q @ R)" "take (length (Q @ R)) (cb_buf (hbase h)) = Q @ R"
    "length (Q @ R) \<le> length (cb_buf (hbase h))" "length (cb_buf (hbase h)) < size_mod"
    using assms(1) by (auto simp: rep_def buf_ok_def)
  show l: "CBB_len a h = length R" using ok(1) assms(2) by (simp add: CBB_len_def)
  have "drop (length Q) (take (length (Q @ R)) (cb_buf (hbase h))) = R" unfolding ok(2) by simp
  then show t: "take (length R) (CBB_data a h) = R" using assms(2) by (simp add: CBB_data_def drop_take)
  show n: "length R \<le> length (CBB_data a h)" using ok(3) assms(2) by (simp add: CBB_data_def)
  have "length R < size_mod" using ok(3,4) by simp
  then show "cbs_bytes (CBS_init (CBB_data a h) (CBB_len a h)) = R" "cbs_wf (CBS_init (CBB_data a h) (CBB_len a h))"
    using t l n by (simp_all add: cbs_bytes_def CBS_init_def cbs_wf_def)
qed

lemma flush_closed: "rep h a P [] \<Longrightarrow> CBB_flush m a h = Some (True, h)"
  by (subst CBB_flush.simps) (simp add: rep_def buf_ok_def)

lemma keeps_refl: "keeps a S h h"
  by (simp add: keeps_def, metis CBB.surjective CBB.update_convs(2))

lemma der_list_count: "der_list es \<Longrightarrow> length es \<le> length (concat es)"
proof (induction es)
  case (Cons e es)
  then have "e \<noteq> []" using der_nonempty by (auto simp: der_list_def)
  then show ?case using Cons by (cases e) (auto simp: der_list_def)
qed simp

lemma set_of_memory:
  assumes m: "\<forall>k n. m k n \<noteq> None" and es: "der_list es" "\<not> length es < 2"
    and p: "take (length (concat es)) p = concat es" "length (concat es) \<le> length p" "length (concat es) < 2 ^ 58"
  shows "\<exists>buf. OPENSSL_memdup m k p (length (concat es)) = Some buf \<and> buf = concat es"
    "OPENSSL_malloc m k' (length es * sizeof_CBS) \<noteq> None" "\<not> length es > size_max div sizeof_CBS"
proof -
  note n = der_list_count [OF es(1)]
  obtain b where b: "OPENSSL_malloc m k (length (concat es)) = Some b" using malloc_generous [OF m] p(3) by fastforce
  have "length (concat es) \<noteq> 0" using n es(2) by linarith
  then have "OPENSSL_memdup m k p (length (concat es)) = Some (concat es @ drop (length (concat es)) b)"
    using b p(1) by (simp only: OPENSSL_memdup_def if_False option.case)
  moreover have "length b = length (concat es)" using OPENSSL_malloc_length [OF b] .
  ultimately show "\<exists>buf. OPENSSL_memdup m k p (length (concat es)) = Some buf \<and> buf = concat es" by simp
  show "OPENSSL_malloc m k' (length es * sizeof_CBS) \<noteq> None"
    using malloc_generous [OF m, of "length es * sizeof_CBS" k'] n p(3) by (auto simp: sizeof_CBS_def)
  show "\<not> length es > size_max div sizeof_CBS" using n p(3) by (simp add: sizeof_CBS_def)
qed

lemma set_of_sorts:
  assumes q: "qsort_spec qsort" and r: "rep h a (Q @ concat es) []" and g: "generous m h"
    and start: "length Q = cbb_offset (hcbb h a) + cbb_pending_len_len (hcbb h a)"
    and len: "length (Q @ concat es) < 2 ^ 58" and es: "der_list es"
  shows "\<exists>h'. CBB_flush_asn1_set_of m qsort a h = Some (True, h') \<and> rep h' a (Q @ concat (sort es)) [] \<and> keeps a {} h h'"
proof -
  note body = set_of_body [OF r start]
  have cnt: "count_children (CBS_init (CBB_data a h) (CBB_len a h)) 0 = Some (length es)"
    using count_children_complete [OF es body(4,5)] by simp
  note eq = andthen_def flush_closed [OF r] option.case prod.case if_True cnt
  show ?thesis
  proof (cases "length es < 2")
    case True
    then have "sort es = es" by (cases es; cases "tl es") simp_all
    then show ?thesis using True r keeps_refl by (simp add: CBB_flush_asn1_set_of_def eq)
  next
    case False
    have "\<forall>k n. m k n \<noteq> None" using g by (simp add: generous_def)
    note mem = set_of_memory [OF this es False body(2,3)]
    have l: "length (concat es) < 2 ^ 58" using len by simp
    let ?buf = "concat es"
    have buf: "OPENSSL_memdup m (hallocs h) (CBB_data a h) (length (concat es)) = Some ?buf" using mem(1) [OF l] by simp
    have c: "cbs_bytes (CBS_init ?buf (length ?buf)) = concat es" "cbs_wf (CBS_init ?buf (length ?buf))" using l by simp_all
    obtain cs where cs: "get_children (length es) (CBS_init ?buf (length ?buf)) = Some cs" "map cbs_bytes cs = es" "\<forall>x \<in> set cs. cbs_wf x"
      using get_children_complete [OF es c] by blast
    let ?cs = "qsort compare_set_of_element cs"
    have wf: "\<forall>x \<in> set ?cs. cbs_wf x" using cs(3) qsort_specD(4) [OF q set_of.comparison_axioms] by simp
    have "map cbs_bytes ?cs = map cells ?cs" "map cbs_bytes cs = map cells cs" using wf cs(3) by (simp_all add: cells_wf)
    then have sorted: "map cbs_bytes ?cs = sort es" using qsort_cells [OF q] cs(2) by simp
    let ?h = "h\<lparr>hallocs := Suc (Suc (hallocs h)), hbase := (hbase h)\<lparr>cb_len := length Q\<rparr>\<rparr>"
    have op: "CBB_flush_asn1_set_of m qsort a h = add_children m a ?cs ?h"
      unfolding CBB_flush_asn1_set_of_def eq unfolding body(1) Let_def buf option.case cs(1) if_not_P [OF False] if_not_P [OF mem(3) [OF l]]
        if_not_P [OF mem(2) [OF l]] by (simp add: start)
    have rw: "rep ?h a Q []" using rep_rewind [OF r] by simp
    from works_add_children [OF wf, of m a "{}"] rw show ?thesis
    proof (cases rule: worksE)
      case (fail h')
      have "generous m ?h" using g by (simp add: generous_def)
      then show ?thesis using fail(3) len by (simp add: sorted concat_sort_length)
    next
      case (success h' t bs)
      have "keeps a {} h h'" using success(5) by (simp add: keeps_def)
      then show ?thesis using success op by (simp add: sorted)
    qed
  qed
qed

lemma set_of_rejects:
  assumes r: "rep h a (Q @ R) []" and start: "length Q = cbb_offset (hcbb h a) + cbb_pending_len_len (hcbb h a)"
    and no: "\<nexists>es. der_list es \<and> R = concat es"
  shows "CBB_flush_asn1_set_of m qsort a h = Some (False, h)"
proof -
  note body = set_of_body [OF r start]
  have "count_children (CBS_init (CBB_data a h) (CBB_len a h)) 0 = None"
    using count_children_sound [of "CBS_init (CBB_data a h) (CBB_len a h)" 0] body(4,5) no by (metis not_None_eq)
  then show ?thesis by (simp add: CBB_flush_asn1_set_of_def andthen_def flush_closed [OF r])
qed

lemma set_of_flushes:
  assumes "CBB_flush m a h = Some (True, h1)" "rep h1 a P []"
  shows "CBB_flush_asn1_set_of m qsort a h = CBB_flush_asn1_set_of m qsort a h1"
  by (simp add: CBB_flush_asn1_set_of_def andthen_def assms(1) flush_closed [OF assms(2)])

text \<open>
  C30: \<open>CBB_flush_asn1_set_of\<close> sorts. Let the builder \<open>a\<close> hold, behind its own header \<open>Q\<close>, the bytes
  \<open>R\<close> and open prefixes that close to \<open>t\<close>; memory is available and \<open>qsort\<close> keeps its contract. If these
  bytes are a sequence of DER elements, the call succeeds and leaves exactly those elements in
  ascending order of their encodings, closed and ready for more; otherwise it reports failure
  and leaves the bytes as they were. Either way no other builder than the flushed children is touched.
\<close>

theorem CBB_flush_asn1_set_of_sorts:
  assumes "qsort_spec qsort" "rep h a (Q @ R) fs" "generous m h" "collapse fs = Some t"
    "length Q = cbb_offset (hcbb h a) + cbb_pending_len_len (hcbb h a)" "length (Q @ R @ t) < 2 ^ 58"
  shows "\<exists>ok h'. CBB_flush_asn1_set_of m qsort a h = Some (ok, h') \<and> keeps a (set (map fst fs)) h h' \<and>
    ok = (\<exists>es. der_list es \<and> R @ t = concat es) \<and>
    (\<forall>es. der_list es \<and> R @ t = concat es \<longrightarrow> rep h' a (Q @ concat (sort es)) []) \<and>
    (\<not> ok \<longrightarrow> rep h' a (Q @ R @ t) [])"
  using assms(2)
proof (cases rule: flush_cases [where m = m])
  case (fail h')
  then show ?thesis using assms by simp
next
  case (success h1 t')
  have t': "t' = t" using success(2) assms(4) by simp
  have r: "rep h1 a (Q @ (R @ t)) []" using success(3) t' by simp
  have g: "generous m h1" using generous_keeps [OF success(4)] assms(3) by simp
  have start: "length Q = cbb_offset (hcbb h1 a) + cbb_pending_len_len (hcbb h1 a)"
    using assms(5) success(4) by (auto simp: keeps_def)
  note eq = set_of_flushes [OF success(1) r, of qsort]
  show ?thesis
  proof (cases "\<exists>es. der_list es \<and> R @ t = concat es")
    case True
    then obtain es where es: "der_list es" "R @ t = concat es" by blast
    obtain h' where h': "CBB_flush_asn1_set_of m qsort a h1 = Some (True, h')" "keeps a {} h1 h'"
      using set_of_sorts [OF assms(1) r [unfolded es(2)] g start _ es(1)] assms(6) es(2) by auto
    have "rep h' a (Q @ concat (sort es)) []" if "der_list es" "R @ t = concat es" for es
      using set_of_sorts [OF assms(1) r [unfolded that(2)] g start _ that(1)] assms(6) that(2) h'(1) by auto
    then show ?thesis using True h' eq keeps_trans [OF success(4) h'(2)] by auto
  next
    case False
    then show ?thesis using set_of_rejects [OF r start False] eq success(4) r by auto
  qed
qed

text \<open>A builder that holds a NULL and a BOOLEAN, in this order.\<close>

definition set_heap :: cbb_heap where
  "set_heap = \<lparr>hbase = \<lparr>cb_buf = [5, 0, 1, 1, 0xff], cb_len = 5, cb_cap = 5, cb_can_resize = True, cb_error = False\<rparr>,
     hcbb = (\<lambda>_. CBB_zero\<lparr>cbb_base := True\<rparr>), hallocs = 0\<rparr>"

lemma set_heap_elements: "der_list [[5, 0], [1, 1, 0xff]]"
proof -
  have e: "[5, 0] = der 5 []" "[1, 1, 0xff] = der 1 [0xff]"
    by (simp_all add: der_def der_header_def tag_bytes_def len_bytes_def)
  have "\<exists>t body. t < 2 ^ 32 \<and> length body < 2 ^ 32 \<and> der k bs = der t body" if "k < 2 ^ 32" "length bs < 2 ^ 32" for k bs
    using that by blast
  from this [of 5 "[]"] this [of 1 "[0xff]"] show ?thesis by (simp add: der_list_def e)
qed

theorem CBB_flush_asn1_set_of_sorts_witness:
  "\<exists>h'. CBB_flush_asn1_set_of zero_alloc insertion_sort 2 set_heap = Some (True, h') \<and> rep h' 2 [1, 1, 0xff, 5, 0] []"
proof -
  have "rep set_heap 2 ([] @ [5, 0, 1, 1, 0xff]) []" by (simp add: set_heap_def rep_def buf_ok_def CBB_zero_def)
  moreover have "generous zero_alloc set_heap" using zero_alloc_ok by (simp add: generous_def set_heap_def)
  ultimately obtain ok h' where h': "CBB_flush_asn1_set_of zero_alloc insertion_sort 2 set_heap = Some (ok, h')"
    "ok = (\<exists>es. der_list es \<and> [5, 0, 1, 1, 0xff] @ [] = concat es)"
    "\<forall>es. der_list es \<and> [5, 0, 1, 1, 0xff] @ [] = concat es \<longrightarrow> rep h' 2 ([] @ concat (sort es)) []"
    using CBB_flush_asn1_set_of_sorts [OF qsort_spec_insertion, of set_heap 2 "[]" "[5, 0, 1, 1, 0xff]" "[]" zero_alloc "[]"]
    by (auto simp: set_heap_def CBB_zero_def)
  have e: "[5, 0, 1, 1, 0xff] @ [] = concat [[5, 0], [1, 1, 0xff :: byte]]" by simp
  have "sort [[5, 0], [1, 1, 0xff :: byte]] = [[1, 1, 0xff], [5, 0]]" by simp
  then show ?thesis using h' set_heap_elements e by fastforce
qed

end
