(* ===== verification/Ber.thy ===== *)
theory Ber
  imports Set_Of
begin

unbundle bit_operations_syntax

text \<open>
  The BER to DER converter \<open>crypto/bytestring/ber.c\<close>. The walks over nested elements return an
  option: \<open>None\<close> would be a walk that does not end; the lemmas show that it does not occur.
\<close>

subsection \<open>Definitions\<close>

definition kMaxDepth :: nat where
  "kMaxDepth = 2048"

abbreviation CBS_ASN1_UTF8STRING :: u32 where "CBS_ASN1_UTF8STRING \<equiv> 0x0c"
abbreviation CBS_ASN1_NUMERICSTRING :: u32 where "CBS_ASN1_NUMERICSTRING \<equiv> 0x12"
abbreviation CBS_ASN1_PRINTABLESTRING :: u32 where "CBS_ASN1_PRINTABLESTRING \<equiv> 0x13"
abbreviation CBS_ASN1_T61STRING :: u32 where "CBS_ASN1_T61STRING \<equiv> 0x14"
abbreviation CBS_ASN1_VIDEOTEXSTRING :: u32 where "CBS_ASN1_VIDEOTEXSTRING \<equiv> 0x15"
abbreviation CBS_ASN1_IA5STRING :: u32 where "CBS_ASN1_IA5STRING \<equiv> 0x16"
abbreviation CBS_ASN1_GRAPHICSTRING :: u32 where "CBS_ASN1_GRAPHICSTRING \<equiv> 0x19"
abbreviation CBS_ASN1_VISIBLESTRING :: u32 where "CBS_ASN1_VISIBLESTRING \<equiv> 0x1a"
abbreviation CBS_ASN1_GENERALSTRING :: u32 where "CBS_ASN1_GENERALSTRING \<equiv> 0x1b"
abbreviation CBS_ASN1_UNIVERSALSTRING :: u32 where "CBS_ASN1_UNIVERSALSTRING \<equiv> 0x1c"
abbreviation CBS_ASN1_BMPSTRING :: u32 where "CBS_ASN1_BMPSTRING \<equiv> 0x1e"

definition is_string_type :: "u32 \<Rightarrow> bool" where
  "is_string_type tag \<longleftrightarrow>
     (tag AND NOT CBS_ASN1_CONSTRUCTED) \<in> {CBS_ASN1_OCTETSTRING, CBS_ASN1_UTF8STRING, CBS_ASN1_NUMERICSTRING,
       CBS_ASN1_PRINTABLESTRING, CBS_ASN1_T61STRING, CBS_ASN1_VIDEOTEXSTRING, CBS_ASN1_IA5STRING,
       CBS_ASN1_GRAPHICSTRING, CBS_ASN1_VISIBLESTRING, CBS_ASN1_GENERALSTRING, CBS_ASN1_UNIVERSALSTRING,
       CBS_ASN1_BMPSTRING}"

text \<open>
  The loop of \<open>cbs_find_ber\<close> at \<open>in\<close>, with the current value of \<open>*ber_found\<close>. The inner result is
  \<open>None\<close> for the return value zero and otherwise the final value of \<open>*ber_found\<close>. The depth
  does not change inside the loop, so its test may stand before every round.
\<close>

partial_function (option) find_ber_loop :: "CBS \<Rightarrow> bool \<Rightarrow> nat \<Rightarrow> bool option option" where
  "find_ber_loop inp ber_found depth =
     (if depth > kMaxDepth then Some None
      else if CBS_len inp > 0 then
        (case CBS_get_any_ber_asn1_element inp of
           (None, _) \<Rightarrow> Some None
         | (Some (contents, tag, header_len, found), inp') \<Rightarrow>
             if found then Some (Some True)
             else if tag AND CBS_ASN1_CONSTRUCTED \<noteq> 0 then
               if is_string_type tag then Some (Some True)
               else
                 (case CBS_skip contents header_len of
                    (None, _) \<Rightarrow> Some None
                  | (Some _, contents') \<Rightarrow>
                      Option.bind (find_ber_loop contents' False (depth + 1)) (\<lambda>r.
                        case r of
                          None \<Rightarrow> Some None
                        | Some found' \<Rightarrow> find_ber_loop inp' found' depth))
             else find_ber_loop inp' found depth)
      else Some (Some ber_found))"

definition cbs_find_ber :: "CBS \<Rightarrow> nat \<Rightarrow> bool option option" where
  "cbs_find_ber orig_in depth = find_ber_loop (CBS_init (CBS_data orig_in) (CBS_len orig_in)) False depth"

definition is_eoc :: "nat \<Rightarrow> CBS \<Rightarrow> bool" where
  "is_eoc header_len contents \<longleftrightarrow>
     header_len = 2 \<and> CBS_len contents = 2 \<and> OPENSSL_memcmp (CBS_data contents) [0, 0] 2 = 0"

text \<open>
  The builder that the contents of an element go to. \<open>storage depth\<close> is the address of the
  variable \<open>out_contents_storage\<close> in the call at that depth.
\<close>

definition convert_open :: "allocator \<Rightarrow> (nat \<Rightarrow> nat) \<Rightarrow> nat \<Rightarrow> u32 \<Rightarrow> u32 \<Rightarrow> nat \<Rightarrow> cbb_heap \<Rightarrow> cbb_result" where
  "convert_open m storage out string_tag tag depth h =
     (if string_tag \<noteq> 0 then Some ((tag AND NOT CBS_ASN1_CONSTRUCTED) = string_tag, h)
      else CBB_add_asn1 m out (storage depth)
             (if tag AND CBS_ASN1_CONSTRUCTED \<noteq> 0 \<and> is_string_type tag
              then tag AND NOT CBS_ASN1_CONSTRUCTED else tag) h)"

definition child_string_tag :: "u32 \<Rightarrow> u32 \<Rightarrow> u32" where
  "child_string_tag string_tag tag =
     (if string_tag \<noteq> 0 then string_tag
      else if tag AND CBS_ASN1_CONSTRUCTED \<noteq> 0 \<and> is_string_type tag
      then tag AND NOT CBS_ASN1_CONSTRUCTED else string_tag)"

definition out_contents :: "(nat \<Rightarrow> nat) \<Rightarrow> nat \<Rightarrow> u32 \<Rightarrow> nat \<Rightarrow> nat" where
  "out_contents storage out string_tag depth = (if string_tag \<noteq> 0 then out else storage depth)"

definition is_indefinite :: "nat \<Rightarrow> CBS \<Rightarrow> bool" where
  "is_indefinite header_len contents \<longleftrightarrow>
     CBS_len contents = header_len \<and> header_len > 0 \<and> CBS_data contents ! (header_len - 1) = 0x80"

partial_function (option) cbs_convert_ber ::
    "allocator \<Rightarrow> (nat \<Rightarrow> nat) \<Rightarrow> CBS \<Rightarrow> nat \<Rightarrow> u32 \<Rightarrow> bool \<Rightarrow> nat \<Rightarrow> cbb_heap \<Rightarrow> (bool \<times> CBS \<times> cbb_heap) option" where
  "cbs_convert_ber m storage inp out string_tag looking_for_eoc depth h =
     (if depth > kMaxDepth then Some (False, inp, h)
      else if CBS_len inp > 0 then
        (case CBS_get_any_ber_asn1_element inp of
           (None, inp') \<Rightarrow> Some (False, inp', h)
         | (Some (contents, tag, header_len, ber_found), inp') \<Rightarrow>
             if is_eoc header_len contents then Some (looking_for_eoc, inp', h)
             else
               Option.bind (convert_open m storage out string_tag tag depth h) (\<lambda>r1.
                 if \<not> fst r1 then Some (False, inp', snd r1)
                 else
                   Option.bind
                     (if is_indefinite header_len contents
                      then cbs_convert_ber m storage inp' (out_contents storage out string_tag depth)
                             (child_string_tag string_tag tag) True (depth + 1) (snd r1)
                      else
                        (case CBS_skip contents header_len of
                           (None, _) \<Rightarrow> Some (False, inp', snd r1)
                         | (Some _, contents') \<Rightarrow>
                             if tag AND CBS_ASN1_CONSTRUCTED \<noteq> 0
                             then
                               Option.bind
                                 (cbs_convert_ber m storage contents' (out_contents storage out string_tag depth)
                                    (child_string_tag string_tag tag) False (depth + 1) (snd r1))
                                 (\<lambda>r. Some (fst r, inp', snd (snd r)))
                             else
                               map_option (\<lambda>(ok, h'). (ok, inp', h'))
                                 (CBB_add_bytes m (out_contents storage out string_tag depth)
                                    (CBS_data contents') (CBS_len contents') (snd r1))))
                     (\<lambda>r2.
                       if \<not> fst r2 then Some r2
                       else
                         Option.bind (CBB_flush m out (snd (snd r2))) (\<lambda>r3.
                           if \<not> fst r3 then Some (False, fst (snd r2), snd r3)
                           else cbs_convert_ber m storage (fst (snd r2)) out string_tag looking_for_eoc depth (snd r3)))))
      else Some (\<not> looking_for_eoc, inp, h))"

text \<open>
  The result: success with \<open>*out\<close> and \<open>*out_storage\<close> (\<open>None\<close> for \<open>NULL\<close>), or failure; the
  reader after the call, and the heap.
\<close>

definition CBS_asn1_ber_to_der ::
    "allocator \<Rightarrow> (nat \<Rightarrow> nat) \<Rightarrow> nat \<Rightarrow> CBS \<Rightarrow> cbb_heap \<Rightarrow> ((CBS \<times> byte list option) option \<times> CBS \<times> cbb_heap) option" where
  "CBS_asn1_ber_to_der m storage cbb inp h0 =
     (case cbs_find_ber inp 0 of
        None \<Rightarrow> None
      | Some None \<Rightarrow> Some (None, inp, h0)
      | Some (Some conversion_needed) \<Rightarrow>
          if \<not> conversion_needed then
            (case CBS_get_any_asn1_element inp of
               (None, inp') \<Rightarrow> Some (None, inp', h0)
             | (Some (out, _), inp') \<Rightarrow> Some (Some (out, None), inp', h0))
          else
            (case CBB_init m cbb (CBS_len inp) h0 of
               (False, h) \<Rightarrow> Some (None, inp, CBB_cleanup cbb h)
             | (True, h) \<Rightarrow>
                 (case cbs_convert_ber m storage inp cbb 0 False 0 h of
                    None \<Rightarrow> None
                  | Some (False, inp', h) \<Rightarrow> Some (None, inp', CBB_cleanup cbb h)
                  | Some (True, inp', h) \<Rightarrow>
                      (case CBB_finish m cbb h of
                         None \<Rightarrow> None
                       | Some (None, h) \<Rightarrow> Some (None, inp', CBB_cleanup cbb h)
                       | Some (Some (out_storage, len), h) \<Rightarrow>
                           Some (Some (CBS_init out_storage len, Some out_storage), inp', h)))))"

declare find_ber_loop.simps [code]
declare cbs_convert_ber.simps [code]

text \<open>The loop of \<open>CBS_get_asn1_implicit_string\<close> over the chunks.\<close>

lemma CBS_get_asn1_len_decreases: "CBS_get_asn1 c t = (Some out, c') \<Longrightarrow> cbs_len c' < cbs_len c"
  by (auto simp: CBS_get_asn1_def cbs_get_asn1_def split: option.splits prod.splits if_splits
      dest: CBS_get_any_asn1_element_len_decreases)

function implicit_chunks :: "allocator \<Rightarrow> nat \<Rightarrow> CBS \<Rightarrow> u32 \<Rightarrow> cbb_heap \<Rightarrow> cbb_result" where
  "implicit_chunks m result child inner_tag h =
     (if CBS_len child > 0 then
        (case CBS_get_asn1 child inner_tag of
           (None, _) \<Rightarrow> Some (False, h)
         | (Some chunk, child') \<Rightarrow>
             andthen (CBB_add_bytes m result (CBS_data chunk) (CBS_len chunk))
               (implicit_chunks m result child' inner_tag) h)
      else Some (True, h))"
  by pat_completeness auto
termination
  by (relation "measure (\<lambda>(m, a, c, t, h). cbs_len c)") (auto dest: CBS_get_asn1_len_decreases [OF sym])

declare implicit_chunks.simps [simp del]

definition CBS_get_asn1_implicit_string ::
    "allocator \<Rightarrow> nat \<Rightarrow> CBS \<Rightarrow> u32 \<Rightarrow> u32 \<Rightarrow> cbb_heap \<Rightarrow> ((CBS \<times> byte list option) option \<times> CBS \<times> cbb_heap) option" where
  "CBS_get_asn1_implicit_string m result inp outer_tag inner_tag h0 =
     (if CBS_peek_asn1_tag inp outer_tag then
        (case CBS_get_asn1 inp outer_tag of
           (None, inp') \<Rightarrow> Some (None, inp', h0)
         | (Some out, inp') \<Rightarrow> Some (Some (out, None), inp', h0))
      else
        (case CBB_init m result (CBS_len inp) h0 of
           (False, h) \<Rightarrow> Some (None, inp, CBB_cleanup result h)
         | (True, h) \<Rightarrow>
             (case CBS_get_asn1 inp (outer_tag OR CBS_ASN1_CONSTRUCTED) of
                (None, inp') \<Rightarrow> Some (None, inp', CBB_cleanup result h)
              | (Some child, inp') \<Rightarrow>
                  (case implicit_chunks m result child inner_tag h of
                     None \<Rightarrow> None
                   | Some (False, h) \<Rightarrow> Some (None, inp', CBB_cleanup result h)
                   | Some (True, h) \<Rightarrow>
                       (case CBB_finish m result h of
                          None \<Rightarrow> None
                        | Some (None, h) \<Rightarrow> Some (None, inp', CBB_cleanup result h)
                        | Some (Some (data, len), h) \<Rightarrow>
                            Some (Some (CBS_init data len, Some data), inp', h))))))"

end
