(* ===== verification/Ber_Conversion.thy ===== *)
theory Ber_Conversion
  imports Ber
begin

unbundle bit_operations_syntax

text \<open>
  What the conversion of \<open>crypto/bytestring/ber.c\<close> computes. \<open>ber\<close> is the type of BER elements with
  the choices an encoder makes: the number of length octets of a definite length (0 for the
  short form) or \<open>None\<close> for an indefinite one. \<open>enc\<close> writes such a tree down, \<open>to_der\<close> is its DER
  encoding with constructed strings joined. \<open>convert_trees\<close>: \<open>cbs_convert_ber\<close> turns the one
  into the other, whatever the nesting.
\<close>

subsection \<open>Trees\<close>

datatype ber = Prim u32 nat "byte list" | Constr u32 "nat option" "ber list"

definition len_form :: "nat \<Rightarrow> nat \<Rightarrow> byte list" where
  "len_form k n = (if k = 0 then [word_of_nat n] else word_of_nat (128 + k) # be_bytes k n)"

definition form_ok :: "nat \<Rightarrow> nat \<Rightarrow> bool" where
  "form_ok k n \<longleftrightarrow> (if k = 0 then n < 128 else k \<le> 4 \<and> n < 256 ^ k)"

definition nonminimal :: "nat \<Rightarrow> nat \<Rightarrow> bool" where
  "nonminimal k n \<longleftrightarrow> k \<noteq> 0 \<and> (n < 128 \<or> n < 256 ^ (k - 1))"

fun enc :: "ber \<Rightarrow> byte list" where
  "enc (Prim t k body) = tag_bytes (unat t) @ len_form k (length body) @ body"
| "enc (Constr t (Some k) xs) =
     (let body = concat (map enc xs) in tag_bytes (unat t) @ len_form k (length body) @ body)"
| "enc (Constr t None xs) = tag_bytes (unat t) @ 0x80 # concat (map enc xs) @ [0, 0]"

fun ber_ok :: "ber \<Rightarrow> bool" where
  "ber_ok (Prim t k body) \<longleftrightarrow>
     t AND CBS_ASN1_CONSTRUCTED = 0 \<and> form_ok k (length body) \<and> \<not> (t = 0 \<and> k = 0 \<and> body = [])"
| "ber_ok (Constr t f xs) \<longleftrightarrow>
     t AND CBS_ASN1_CONSTRUCTED \<noteq> 0 \<and> (\<forall>x \<in> set xs. ber_ok x) \<and>
     (case f of None \<Rightarrow> True | Some k \<Rightarrow> form_ok k (length (concat (map enc xs))))"

fun ber_depth :: "ber \<Rightarrow> nat" where
  "ber_depth (Prim t k body) = 0"
| "ber_depth (Constr t f xs) = Suc (foldr (\<lambda>x. max (ber_depth x)) xs 0)"

lemma length_len_form [simp]: "length (len_form k n) = Suc k"
  by (simp add: len_form_def)

lemma len_form_parts:
  assumes "form_ok k n"
  obtains (short) b where "k = 0" "n < 128" "len_form k n = [b]" "unat b = n"
  | (long) b where "k \<noteq> 0" "k \<le> 4" "n < 256 ^ k" "len_form k n = b # be_bytes k n" "unat b = 128 + k"
proof (cases "k = 0")
  case True
  then show thesis using assms by (intro short [of "word_of_nat n"]) (simp_all add: form_ok_def len_form_def unat_byte_of_nat)
next
  case False
  then have "unat (word_of_nat (128 + k) :: byte) = 128 + k"
    using assms by (simp only: unat_byte_of_nat) (simp add: form_ok_def)
  then show thesis using False assms by (intro long [of "word_of_nat (128 + k)"]) (simp_all add: form_ok_def len_form_def)
qed

lemma parse_tag_u32:
  assumes "cbs_bytes c = tag_bytes (unat t) @ xs" "cbs_wf c"
  shows "parse_asn1_tag c = (Some t, adv (length (tag_bytes (unat t))) c)"
proof -
  have "unat t < 2 ^ 32" using unsigned_less [of t, where ?'a = nat] by simp
  from parse_asn1_tag_complete [OF this assms] show ?thesis by simp
qed

lemma element_definite:
  assumes c: "cbs_bytes c = tag_bytes (unat t) @ len_form k n @ xs" "cbs_wf c" and f: "form_ok k n" "n \<le> length xs"
    and ber: "ber \<or> \<not> nonminimal k n"
  shows "cbs_get_any_asn1_element c ber =
    (Some (cbs_view (length (tag_bytes (unat t)) + Suc k + n) c, t, length (tag_bytes (unat t)) + Suc k, nonminimal k n),
     adv (length (tag_bytes (unat t)) + Suc k + n) c)"
proof -
  let ?tn = "length (tag_bytes (unat t))"
  note tag = parse_tag_u32 [OF c(1,2)]
  have h: "cbs_bytes (adv ?tn c) = len_form k n @ xs" using c(1) by simp
  have len: "length (cbs_bytes c) = ?tn + Suc k + length xs" using c(1) by simp
  from f(1) show ?thesis
  proof (cases rule: len_form_parts)
    case (short b)
    then have b: "cbs_bytes (adv ?tn c) = b # xs" using h by simp
    show ?thesis
      unfolding element_eq [OF c(2) tag length_tag_bytes b]
      using short len f(2) by (simp add: element_result_def nonminimal_def)
  next
    case (long b)
    then have b: "cbs_bytes (adv ?tn c) = b # be_bytes k n @ xs" using h by simp
    have v: "be_val (be_bytes k n) = n" using long(3) by (simp add: be_val_be_bytes)
    show ?thesis
      unfolding element_eq [OF c(2) tag length_tag_bytes b]
      using long(1,2,5) len f(2) ber by (auto simp: element_result_def nonminimal_def Let_def v)
  qed
qed

lemma ber_definite:
  assumes "cbs_bytes c = tag_bytes (unat t) @ len_form k n @ xs" "cbs_wf c" "form_ok k n" "n \<le> length xs"
  shows "CBS_get_any_ber_asn1_element c =
    (Some (cbs_view (length (tag_bytes (unat t)) + Suc k + n) c, t, length (tag_bytes (unat t)) + Suc k, nonminimal k n),
     adv (length (tag_bytes (unat t)) + Suc k + n) c)"
  unfolding CBS_get_any_ber_asn1_element_def by (rule element_definite [OF assms]) simp

lemma ber_indefinite:
  assumes c: "cbs_bytes c = tag_bytes (unat t) @ 0x80 # xs" "cbs_wf c" and t: "t AND CBS_ASN1_CONSTRUCTED \<noteq> 0"
  shows "CBS_get_any_ber_asn1_element c =
    (Some (cbs_view (Suc (length (tag_bytes (unat t)))) c, t, Suc (length (tag_bytes (unat t))), True),
     adv (Suc (length (tag_bytes (unat t)))) c)"
proof -
  let ?tn = "length (tag_bytes (unat t))"
  have b: "cbs_bytes (adv ?tn c) = 0x80 # xs" using c(1) by simp
  show ?thesis
    unfolding CBS_get_any_ber_asn1_element_def element_eq [OF c(2) parse_tag_u32 [OF c] length_tag_bytes b]
    using t c(1) by (simp add: element_result_def)
qed

text \<open>An identifier that is the single octet 0 is that of the end-of-contents tag.\<close>

lemma tag_bytes_zero:
  assumes "tag_bytes (unat (t :: u32)) = [0]"
  shows "t = 0"
proof -
  let ?n = "unat t"
  have "?n < 2 ^ 32" using unsigned_less [of t, where ?'a = nat] by simp
  then have c: "?n div 2 ^ 29 < 8" by (simp add: div_less_iff_less_mult)
  have "base128 x \<noteq> []" for x by simp
  then have "?n mod 2 ^ 29 < 31" "(word_of_nat (?n div 2 ^ 29 * 32 + ?n mod 2 ^ 29) :: byte) = 0"
    using assms by (auto simp: tag_bytes_def Let_def split: if_splits)
  moreover from this(1) c have "?n div 2 ^ 29 * 32 + ?n mod 2 ^ 29 < 256" by simp
  ultimately have "?n div 2 ^ 29 * 32 + ?n mod 2 ^ 29 = 0"
    by (metis mod_less unat_byte_of_nat unsigned_0)
  then have "?n div 2 ^ 29 = 0" "?n mod 2 ^ 29 = 0" by simp_all
  then have "?n = 0" by (metis div_mult_mod_eq add_0 mult_0)
  then show ?thesis by (simp add: unat_eq_zero)
qed

lemma OPENSSL_memcmp_eq_0:
  assumes "n \<le> length s" "n \<le> length t"
  shows "OPENSSL_memcmp s t n = 0 \<longleftrightarrow> take n s = take n t"
  using assms
proof (induction n arbitrary: s t)
  case (Suc n)
  then obtain x xs y ys where "s = x # xs" "t = y # ys" by (metis Suc_le_length_iff)
  then show ?case using Suc unsigned_word_eqI [of x y, where ?'a = int] by auto
qed simp

lemma is_eoc_iff:
  assumes "cbs_wf c"
  shows "is_eoc hl c \<longleftrightarrow> hl = 2 \<and> cbs_bytes c = [0, 0]"
proof (cases "cbs_len c = 2")
  case True
  then have "2 \<le> length (cbs_data c)" "cbs_bytes c = take 2 (cbs_data c)" using assms by (simp_all add: cbs_wf_def cbs_bytes_def)
  then show ?thesis using True OPENSSL_memcmp_eq_0 [of 2 "cbs_data c" "[0, 0]"]
    by (simp add: is_eoc_def CBS_len_def CBS_data_def)
next
  case False
  then have "cbs_bytes c \<noteq> [0, 0]" using length_cbs_bytes [OF assms] by auto
  then show ?thesis using False by (simp add: is_eoc_def CBS_len_def)
qed

lemma is_indefinite_iff:
  assumes "cbs_wf c" "hl \<le> length (cbs_bytes c)"
  shows "is_indefinite hl c \<longleftrightarrow> hl = length (cbs_bytes c) \<and> 0 < hl \<and> cbs_bytes c ! (hl - 1) = 0x80"
  using assms cbs_data_nth [OF assms(1), of "hl - 1"] by (auto simp: is_indefinite_def CBS_len_eq CBS_data_def)

lemma len_form_zero_last: "(tg @ len_form k 0) ! (length tg + k) \<noteq> 0x80"
proof (cases k)
  case 0
  then show ?thesis by (simp add: len_form_def)
next
  case (Suc j)
  have "be_bytes (Suc j) 0 ! j = 0" by (simp add: nth_append)
  then show ?thesis using Suc by (simp add: len_form_def nth_append del: be_bytes.simps)
qed

lemma definite_step:
  assumes c: "cbs_bytes c = tag_bytes (unat t) @ len_form k (length body) @ body @ xs" "cbs_wf c"
    and f: "form_ok k (length body)" "\<not> (t = 0 \<and> k = 0 \<and> body = [])"
  defines "hl \<equiv> length (tag_bytes (unat t)) + Suc k"
  obtains contents contents' where
    "CBS_get_any_ber_asn1_element c = (Some (contents, t, hl, nonminimal k (length body)), adv (hl + length body) c)"
    "\<not> is_eoc hl contents" "\<not> is_indefinite hl contents" "CBS_skip contents hl = (Some (), contents')"
    "cbs_bytes contents' = body" "cbs_wf contents'" "cbs_len contents' < cbs_len c"
proof -
  let ?c = "cbs_view (hl + length body) c"
  have len: "hl + length body \<le> length (cbs_bytes c)" "0 < hl" using c(1) by (simp_all add: hl_def)
  have b: "cbs_bytes ?c = (tag_bytes (unat t) @ len_form k (length body)) @ body"
    using cbs_bytes_view [OF len(1)] c(1) by (simp add: hl_def)
  have wf: "cbs_wf ?c" by (rule cbs_wf_view [OF c(2) len(1)])
  have lb: "length (cbs_bytes ?c) = hl + length body" unfolding b by (simp add: hl_def)
  have ne: "\<not> is_eoc hl ?c"
  proof
    assume "is_eoc hl ?c"
    then have h: "hl = 2" "cbs_bytes ?c = [0, 0]" using is_eoc_iff [OF wf, of hl] by blast+
    then have "body = []" using lb by simp
    moreover have "k = 0" "length (tag_bytes (unat t)) = 1"
      using h(1) tag_bytes_nonempty [of "unat t"] by (cases "tag_bytes (unat t)"; simp add: hl_def)+
    ultimately show False using h(2) b f(2) tag_bytes_zero [of t] by (cases "tag_bytes (unat t)") auto
  qed
  have nd: "\<not> is_indefinite hl ?c"
  proof
    assume "is_indefinite hl ?c"
    then have h: "hl = length (cbs_bytes ?c)" "cbs_bytes ?c ! (hl - 1) = 0x80"
      using is_indefinite_iff [OF wf, of hl] lb by auto
    then have "body = []" using lb by simp
    then show False using h(2) b len_form_zero_last [of "tag_bytes (unat t)" k] by (simp add: hl_def)
  qed
  have "CBS_skip ?c hl = (Some (), adv hl ?c)" using lb wf by (simp add: CBS_skip_eq)
  moreover have "cbs_bytes (adv hl ?c) = body" unfolding cbs_bytes_adv b by (simp add: hl_def)
  moreover have "cbs_len (adv hl ?c) < cbs_len c" using len length_cbs_bytes [OF c(2)] by (simp add: cbs_view_def CBS_init_def)
  moreover have "CBS_get_any_ber_asn1_element c = (Some (?c, t, hl, nonminimal k (length body)), adv (hl + length body) c)"
    unfolding hl_def using ber_definite [OF c f(1)] by simp
  ultimately show thesis using that ne nd cbs_wf_adv [OF wf] by blast
qed

lemma indefinite_step:
  assumes c: "cbs_bytes c = tag_bytes (unat t) @ 0x80 # xs" "cbs_wf c" and t: "t AND CBS_ASN1_CONSTRUCTED \<noteq> 0"
  defines "hl \<equiv> Suc (length (tag_bytes (unat t)))"
  obtains contents where "CBS_get_any_ber_asn1_element c = (Some (contents, t, hl, True), adv hl c)"
    "\<not> is_eoc hl contents" "is_indefinite hl contents"
proof -
  let ?c = "cbs_view hl c"
  have len: "hl \<le> length (cbs_bytes c)" using c(1) by (simp add: hl_def)
  have b: "cbs_bytes ?c = tag_bytes (unat t) @ [0x80]" using cbs_bytes_view [OF len] c(1) by (simp add: hl_def)
  have wf: "cbs_wf ?c" by (rule cbs_wf_view [OF c(2) len])
  have "\<not> is_eoc hl ?c" unfolding is_eoc_iff [OF wf] b by (cases "tag_bytes (unat t)") auto
  moreover have "is_indefinite hl ?c" using wf b by (subst is_indefinite_iff) (simp_all add: hl_def)
  ultimately show thesis using that ber_indefinite [OF c t] by (simp add: hl_def)
qed

lemma eoc_step:
  assumes c: "cbs_bytes c = 0 # 0 # xs" "cbs_wf c"
  obtains contents where "CBS_get_any_ber_asn1_element c = (Some (contents, 0, 2, False), adv 2 c)" "is_eoc 2 contents"
proof -
  have t: "tag_bytes (unat (0 :: u32)) = [0]" by (simp add: tag_bytes_def)
  have "cbs_bytes c = tag_bytes (unat (0 :: u32)) @ len_form 0 0 @ xs" using c(1) t by (simp add: len_form_def)
  from ber_definite [OF this c(2)]
  have "CBS_get_any_ber_asn1_element c = (Some (cbs_view 2 c, 0, 2, False), adv 2 c)"
    using t by (simp add: form_ok_def nonminimal_def numeral_2_eq_2)
  moreover have "is_eoc 2 (cbs_view 2 c)"
    using c by (subst is_eoc_iff) (simp_all add: cbs_wf_view cbs_bytes_view)
  ultimately show thesis by (rule that)
qed

subsection \<open>What the conversion means\<close>

abbreviation primitive_tag :: "u32 \<Rightarrow> u32" where
  "primitive_tag t \<equiv> t AND NOT CBS_ASN1_CONSTRUCTED"

definition der_opt :: "u32 \<Rightarrow> byte list \<Rightarrow> byte list option" where
  "der_opt t body = (if length body \<le> 0xfffffffe then Some (der (unat t) body) else None)"

fun strval :: "u32 \<Rightarrow> ber \<Rightarrow> byte list option" where
  "strval s (Prim t k body) = (if t = s then Some body else None)"
| "strval s (Constr t f xs) =
     (if primitive_tag t = s then map_option concat (those (map (strval s) xs)) else None)"

fun to_der :: "ber \<Rightarrow> byte list option" where
  "to_der (Prim t k body) = der_opt t body"
| "to_der (Constr t f xs) =
     (if is_string_type t
      then Option.bind (those (map (strval (primitive_tag t)) xs)) (\<lambda>bs. der_opt (primitive_tag t) (concat bs))
      else Option.bind (those (map to_der xs)) (\<lambda>bs. der_opt t (concat bs)))"

definition conv :: "u32 \<Rightarrow> ber list \<Rightarrow> byte list option" where
  "conv s xs = map_option concat (those (map (if s = 0 then to_der else strval s) xs))"

lemma conv_Nil: "conv s [] = Some []"
  by (simp add: conv_def)

definition conv1 :: "u32 \<Rightarrow> ber \<Rightarrow> byte list option" where
  "conv1 s = (if s = 0 then to_der else strval s)"

lemma conv_Cons: "conv s (x # xs) = Option.bind (conv1 s x) (\<lambda>b. map_option (append b) (conv s xs))"
proof -
  have "map_option concat (map_option (Cons b) r) = map_option (append b) (map_option concat r)" for b :: "byte list" and r
    by (simp add: option.map_comp o_def)
  then show ?thesis by (cases "conv1 s x") (simp_all add: conv_def conv1_def)
qed

lemma string_tag_nonzero: "is_string_type t \<Longrightarrow> primitive_tag t \<noteq> 0"
  by (auto simp: is_string_type_def)

text \<open>The conversion of one element in terms of that of its contents.\<close>

definition wrap :: "u32 \<Rightarrow> u32 \<Rightarrow> byte list \<Rightarrow> byte list option" where
  "wrap s t body =
     (if s = 0 then der_opt (if t AND CBS_ASN1_CONSTRUCTED \<noteq> 0 \<and> is_string_type t then primitive_tag t else t) body
      else if primitive_tag t = s then Some body else None)"

lemma conv1_constr:
  assumes "t AND CBS_ASN1_CONSTRUCTED \<noteq> 0"
  shows "conv1 s (Constr t f ys) = Option.bind (conv (child_string_tag s t) ys) (wrap s t)"
proof -
  have b: "Option.bind r (\<lambda>bs. g (concat bs)) = Option.bind (map_option concat r) g" for r and g :: "byte list \<Rightarrow> byte list option"
    by (cases r) simp_all
  have so: "Option.bind r Some = r" for r :: "byte list option" by (cases r) simp_all
  have no: "Option.bind r (\<lambda>_. None) = None" for r :: "byte list option" by (cases r) simp_all
  show ?thesis
    using assms string_tag_nonzero [of t] so no
    by (cases "s = 0"; cases "is_string_type t")
       (simp_all add: conv1_def conv_def wrap_def [abs_def] child_string_tag_def b del: bind_map_option)
qed

lemma primitive_tag_id:
  assumes "t AND CBS_ASN1_CONSTRUCTED = 0"
  shows "primitive_tag t = t"
proof -
  have "t = t AND (CBS_ASN1_CONSTRUCTED OR NOT CBS_ASN1_CONSTRUCTED)" by (simp only: bit.disj_cancel_right bit.conj_one_right)
  also have "\<dots> = (t AND CBS_ASN1_CONSTRUCTED) OR primitive_tag t" by (rule bit.conj_disj_distrib)
  finally show ?thesis using assms by simp
qed

lemma conv1_prim:
  assumes "t AND CBS_ASN1_CONSTRUCTED = 0"
  shows "conv1 s (Prim t k body) = wrap s t body"
  using primitive_tag_id [OF assms] assms by (simp add: conv1_def wrap_def)

subsection \<open>The conversion\<close>

definition convert_op ::
    "allocator \<Rightarrow> (nat \<Rightarrow> nat) \<Rightarrow> CBS \<Rightarrow> nat \<Rightarrow> u32 \<Rightarrow> bool \<Rightarrow> nat \<Rightarrow> cbb_heap \<Rightarrow> cbb_result" where
  "convert_op m stk c out s e d h = map_option (\<lambda>(ok, _, h'). (ok, h')) (cbs_convert_ber m stk c out s e d h)"

text \<open>Where the reader is after a successful conversion.\<close>

definition ends_at :: "allocator \<Rightarrow> (nat \<Rightarrow> nat) \<Rightarrow> CBS \<Rightarrow> nat \<Rightarrow> u32 \<Rightarrow> bool \<Rightarrow> nat \<Rightarrow> CBS \<Rightarrow> bool" where
  "ends_at m stk c out s e d c' \<longleftrightarrow> (\<forall>h c2 h'. cbs_convert_ber m stk c out s e d h = Some (True, c2, h') \<longrightarrow> c2 = c')"

text \<open>One round of the loop as a sequence of builder operations.\<close>

definition convert_contents ::
    "allocator \<Rightarrow> (nat \<Rightarrow> nat) \<Rightarrow> nat \<Rightarrow> u32 \<Rightarrow> nat \<Rightarrow> CBS \<Rightarrow> u32 \<Rightarrow> CBS \<Rightarrow> nat \<Rightarrow> cbb_heap \<Rightarrow> (bool \<times> CBS \<times> cbb_heap) option" where
  "convert_contents m stk oc s hl contents t c1 d h =
     (if is_indefinite hl contents then cbs_convert_ber m stk c1 oc s True d h
      else (case CBS_skip contents hl of
              (None, _) \<Rightarrow> Some (False, c1, h)
            | (Some _, contents') \<Rightarrow>
                if t AND CBS_ASN1_CONSTRUCTED \<noteq> 0
                then Option.bind (cbs_convert_ber m stk contents' oc s False d h) (\<lambda>r. Some (fst r, c1, snd (snd r)))
                else map_option (\<lambda>(ok, h'). (ok, c1, h')) (CBB_add_bytes m oc (CBS_data contents') (CBS_len contents') h)))"

definition carry ::
    "(cbb_heap \<Rightarrow> cbb_result) \<Rightarrow> CBS \<Rightarrow> (cbb_heap \<Rightarrow> CBS) \<Rightarrow> cbb_heap \<Rightarrow> (bool \<times> CBS \<times> cbb_heap) option" where
  "carry g c pos h = (case g h of None \<Rightarrow> None | Some (ok, h') \<Rightarrow> Some (ok, if ok then c else pos h, h'))"

lemma convert_round:
  assumes d: "\<not> d > kMaxDepth" "CBS_len c > 0"
    and get: "CBS_get_any_ber_asn1_element c = (Some (contents, t, hl, found), c1)" "\<not> is_eoc hl contents"
    and inner: "convert_contents m stk (out_contents stk out s d) (child_string_tag s t) hl contents t c1 (d + 1) = carry g c2 pos"
  shows "convert_op m stk c out s e d =
      andthen (convert_open m stk out s t d) (andthen g (andthen (CBB_flush m out) (convert_op m stk c2 out s e d)))"
    "ends_at m stk c2 out s e d c' \<Longrightarrow> ends_at m stk c out s e d c'"
proof -
  have eq: "cbs_convert_ber m stk c out s e d h =
      Option.bind (convert_open m stk out s t d h) (\<lambda>r1.
        if \<not> fst r1 then Some (False, c1, snd r1)
        else Option.bind (carry g c2 pos (snd r1))
          (\<lambda>r2. if \<not> fst r2 then Some r2
                else Option.bind (CBB_flush m out (snd (snd r2))) (\<lambda>r3.
                  if \<not> fst r3 then Some (False, fst (snd r2), snd r3)
                  else cbs_convert_ber m stk (fst (snd r2)) out s e d (snd r3))))" for h
    unfolding inner [symmetric]
    by (subst cbs_convert_ber.simps)
       (simp only: if_not_P [OF d(1)] if_P [OF d(2)] get prod.case option.case if_False convert_contents_def)
  show "convert_op m stk c out s e d =
      andthen (convert_open m stk out s t d) (andthen g (andthen (CBB_flush m out) (convert_op m stk c2 out s e d)))"
  proof (rule ext)
    fix h
    show "convert_op m stk c out s e d h =
      andthen (convert_open m stk out s t d) (andthen g (andthen (CBB_flush m out) (convert_op m stk c2 out s e d))) h"
    proof (cases "convert_open m stk out s t d h")
      case (Some r1)
      obtain ok1 h1 where r1: "r1 = (ok1, h1)" by (cases r1)
      show ?thesis
      proof (cases "g h1")
        case r2: (Some r2)
        obtain ok2 h2 where "r2 = (ok2, h2)" by (cases r2)
        then show ?thesis
          using Some r1 r2 by (cases ok1; cases ok2; cases "CBB_flush m out h2") (auto simp: convert_op_def eq carry_def andthen_def)
      qed (use Some r1 in \<open>simp add: convert_op_def eq carry_def andthen_def\<close>)
    qed (simp add: convert_op_def eq andthen_def)
  qed
  show "ends_at m stk c2 out s e d c' \<Longrightarrow> ends_at m stk c out s e d c'"
  proof (unfold ends_at_def, intro allI impI)
    fix h c3 h'
    assume e: "\<forall>h c3 h'. cbs_convert_ber m stk c2 out s e d h = Some (True, c3, h') \<longrightarrow> c3 = c'"
      and a: "cbs_convert_ber m stk c out s e d h = Some (True, c3, h')"
    obtain ok1 h1 where 1: "convert_open m stk out s t d h = Some (ok1, h1)"
      using a unfolding eq by (cases "convert_open m stk out s t d h") auto
    have "ok1" using a unfolding eq 1 by (cases ok1) auto
    note a = a [unfolded eq 1 bind.bind_lunit fst_conv snd_conv, simplified this simp_thms if_False]
    obtain ok2 h2 where 2: "g h1 = Some (ok2, h2)" using a by (cases "g h1") (auto simp: carry_def)
    have ok2: "ok2" using a unfolding carry_def 2 by (cases ok2) auto
    obtain ok3 h3 where 3: "CBB_flush m out h2 = Some (ok3, h3)"
      using a unfolding carry_def 2 by (cases "CBB_flush m out h2") (auto simp: ok2)
    then show "c3 = c'" using a e unfolding carry_def 2 by (cases ok3) (auto simp: ok2)
  qed
qed

lemma works_mono: "works m a S fs op out new \<Longrightarrow> S \<subseteq> T \<Longrightarrow> works m a T fs op out new"
  unfolding works_def by (meson Un_mono keeps_mono order_refl)

lemma works_wrap:
  assumes g: "works m (out_contents stk out s d) (stk ` {d + 1..}) [] g (Some body) []" and w: "wrap s t body = Some b"
    and out: "out \<notin> stk ` {d..}"
  shows "works m out (stk ` {d..}) [] (andthen (convert_open m stk out s t d) (andthen g (CBB_flush m out))) (Some b) []"
proof -
  have "stk ` {d + 1..} \<subseteq> stk ` {d..}" by (intro image_mono) auto
  then have g': "works m (out_contents stk out s d) (stk ` {d..}) [] g (Some body) []" by (rule works_mono [OF g])
  show ?thesis
  proof (cases "s = 0")
    case True
    let ?t = "if t AND CBS_ASN1_CONSTRUCTED \<noteq> 0 \<and> is_string_type t then primitive_tag t else t"
    have "convert_open m stk out s t d = CBB_add_asn1 m out (stk d) ?t"
      by (rule ext) (simp add: convert_open_def True)
    moreover have "length body \<le> 0xfffffffe" "b = der (unat ?t) body"
      using w unfolding wrap_def der_opt_def if_P [OF True] by (simp_all only: option.inject option.distinct simp_thms split: if_splits)
    ultimately show ?thesis
      using works_element [of m "stk d" "stk ` {d..}" g body out ?t] g' out True by (auto simp: out_contents_def)
  next
    case False
    then have "convert_open m stk out s t d = succeed" "b = body"
      using w by (auto simp: convert_open_def wrap_def split: if_splits)
    then show ?thesis
      using works_then [OF g' [unfolded out_contents_def if_P [OF False]] works_flush [of m out _ "[]"]] by simp
  qed
qed

lemma convert_end:
  assumes "\<not> d > kMaxDepth" "cbs_wf c" "cbs_bytes c = (if e then 0 # 0 # rest else [])"
  shows "convert_op m stk c out s e d = succeed" "ends_at m stk c out s e d (adv (if e then 2 else 0) c)"
proof -
  have eq: "cbs_convert_ber m stk c out s e d h = Some (True, adv (if e then 2 else 0) c, h)" for h
  proof (cases e)
    case True
    then obtain contents where "CBS_get_any_ber_asn1_element c = (Some (contents, 0, 2, False), adv 2 c)" "is_eoc 2 contents"
      using eoc_step [of c rest] assms by auto
    then show ?thesis using assms True by (subst cbs_convert_ber.simps) (simp add: CBS_len_eq)
  next
    case False
    then show ?thesis using assms by (subst cbs_convert_ber.simps) (simp add: CBS_len_eq)
  qed
  show "convert_op m stk c out s e d = succeed" by (rule ext) (simp add: convert_op_def eq)
  show "ends_at m stk c out s e d (adv (if e then 2 else 0) c)" by (simp add: ends_at_def eq)
qed

lemma enc_nonempty: "enc x \<noteq> []"
  by (cases x rule: enc.cases) (simp_all add: Let_def)

lemma child_depth: "y \<in> set ys \<Longrightarrow> Suc (ber_depth y) \<le> ber_depth (Constr t f ys)"
  by (induction ys) auto

text \<open>The operation on the contents of an element, in the form \<open>convert_round\<close> asks for.\<close>

lemma inner_prim:
  assumes "\<not> is_indefinite hl contents" "CBS_skip contents hl = (Some (), contents')" "t AND CBS_ASN1_CONSTRUCTED = 0"
  shows "convert_contents m stk oc s hl contents t c1 d =
    carry (CBB_add_bytes m oc (CBS_data contents') (CBS_len contents')) c1 (\<lambda>_. c1)"
  by (rule ext) (use assms in \<open>auto simp: convert_contents_def carry_def split: option.splits\<close>)

lemma inner_definite:
  assumes "\<not> is_indefinite hl contents" "CBS_skip contents hl = (Some (), contents')" "t AND CBS_ASN1_CONSTRUCTED \<noteq> 0"
  shows "convert_contents m stk oc s hl contents t c1 d = carry (convert_op m stk contents' oc s False d) c1 (\<lambda>_. c1)"
proof (rule ext)
  fix h
  show "convert_contents m stk oc s hl contents t c1 d h = carry (convert_op m stk contents' oc s False d) c1 (\<lambda>_. c1) h"
    using assms by (cases "cbs_convert_ber m stk contents' oc s False d h") (auto simp: convert_contents_def carry_def convert_op_def)
qed

lemma inner_indefinite:
  assumes "is_indefinite hl contents" "ends_at m stk c1 oc s True d c2"
  shows "convert_contents m stk oc s hl contents t c1 d =
    carry (convert_op m stk c1 oc s True d) c2 (\<lambda>h. fst (snd (the (cbs_convert_ber m stk c1 oc s True d h))))"
proof (rule ext)
  fix h
  show "convert_contents m stk oc s hl contents t c1 d h =
    carry (convert_op m stk c1 oc s True d) c2 (\<lambda>h. fst (snd (the (cbs_convert_ber m stk c1 oc s True d h)))) h"
  proof (cases "cbs_convert_ber m stk c1 oc s True d h")
    case (Some r)
    obtain ok c3 h' where "r = (ok, c3, h')" by (cases r)
    then show ?thesis
      using assms(1) Some assms(2) [unfolded ends_at_def, rule_format, of h c3 h']
      by (cases ok) (simp_all add: convert_contents_def carry_def convert_op_def)
  qed (use assms in \<open>simp add: convert_contents_def carry_def convert_op_def\<close>)
qed

lemma convert_step:
  assumes round: "convert_op m stk c out s e d =
      andthen (convert_open m stk out s t d) (andthen g (andthen (CBB_flush m out) (convert_op m stk c2 out s e d)))"
    and g: "works m (out_contents stk out s d) (stk ` {d + 1..}) [] g (Some body) []" "wrap s t body = Some b1"
    and out: "out \<notin> stk ` {d..}"
    and rest: "works m out (stk ` {d..}) [] (convert_op m stk c2 out s e d) (Some b2) []"
  shows "works m out (stk ` {d..}) [] (convert_op m stk c out s e d) (Some (b1 @ b2)) []"
  using works_then [OF works_wrap [OF g out] rest] unfolding round by (simp add: andthen_assoc)

text \<open>
  One element of each kind, followed by what the loop does with the rest. \<open>converted\<close> collects
  the two facts about a run: what it writes and where it leaves the reader.
\<close>

definition converted ::
    "allocator \<Rightarrow> (nat \<Rightarrow> nat) \<Rightarrow> CBS \<Rightarrow> nat \<Rightarrow> u32 \<Rightarrow> bool \<Rightarrow> nat \<Rightarrow> byte list \<Rightarrow> CBS \<Rightarrow> bool" where
  "converted m stk c out s e d bs c' \<longleftrightarrow>
     works m out (stk ` {d..}) [] (convert_op m stk c out s e d) (Some bs) [] \<and> ends_at m stk c out s e d c'"

lemma converted_round:
  assumes "\<not> d > kMaxDepth" "CBS_len c > 0"
    "CBS_get_any_ber_asn1_element c = (Some (contents, t, hl, found), c1)" "\<not> is_eoc hl contents"
    "convert_contents m stk (out_contents stk out s d) (child_string_tag s t) hl contents t c1 (d + 1) = carry g c2 pos"
    "works m (out_contents stk out s d) (stk ` {d + 1..}) [] g (Some body) []" "wrap s t body = Some b1"
    "out \<notin> stk ` {d..}" "converted m stk c2 out s e d b2 c'"
  shows "converted m stk c out s e d (b1 @ b2) c'"
proof -
  note round = convert_round [OF assms(1-5), of e]
  from assms(9) show ?thesis
    unfolding converted_def using convert_step [OF round(1) assms(6-8)] round(2) by blast
qed

lemma len_pos: "cbs_wf c \<Longrightarrow> cbs_bytes c = enc x @ tail \<Longrightarrow> CBS_len c > 0"
  using enc_nonempty [of x] by (simp add: CBS_len_eq)

lemma convert_prim:
  assumes d: "\<not> d > kMaxDepth" and out: "out \<notin> stk ` {d..}" and c: "cbs_bytes c = enc (Prim t k body) @ tail" "cbs_wf c"
    and ok: "ber_ok (Prim t k body)" and b: "conv1 s (Prim t k body) = Some b1"
    and rest: "converted m stk (adv (length (enc (Prim t k body))) c) out s e d b2 c'"
  shows "converted m stk c out s e d (b1 @ b2) c'"
proof -
  let ?hl = "length (tag_bytes (unat t)) + Suc k" and ?oc = "out_contents stk out s d"
  have t: "t AND CBS_ASN1_CONSTRUCTED = 0" "form_ok k (length body)" "\<not> (t = 0 \<and> k = 0 \<and> body = [])" using ok by simp_all
  have "cbs_bytes c = tag_bytes (unat t) @ len_form k (length body) @ body @ tail" using c(1) by simp
  from definite_step [OF this c(2) t(2,3)] obtain contents contents' where
    get: "CBS_get_any_ber_asn1_element c = (Some (contents, t, ?hl, nonminimal k (length body)), adv (?hl + length body) c)"
      "\<not> is_eoc ?hl contents"
    and i: "\<not> is_indefinite ?hl contents" "CBS_skip contents ?hl = (Some (), contents')"
    and body: "cbs_bytes contents' = body" "cbs_wf contents'" by blast
  have "works m ?oc (stk ` {d + 1..}) [] (CBB_add_bytes m ?oc (CBS_data contents') (CBS_len contents')) (Some body) []"
    using works_add_bytes [of "CBS_len contents'" "CBS_data contents'" m ?oc "stk ` {d + 1..}"] body
    by (simp add: CBS_len_def CBS_data_def cbs_bytes_def cbs_wf_def)
  from converted_round [OF d len_pos [OF c(2,1)] get inner_prim [OF i t(1)] this _ out]
  show ?thesis using rest b conv1_prim [OF t(1)] by (simp add: add.assoc)
qed

text \<open>For the constructed forms the conversion of the children is a hypothesis.\<close>

lemma convert_definite:
  assumes d: "\<not> d > kMaxDepth" and out: "out \<notin> stk ` {d..}" and c: "cbs_bytes c = enc (Constr t (Some k) ys) @ tail" "cbs_wf c"
    and ok: "ber_ok (Constr t (Some k) ys)" and b: "conv (child_string_tag s t) ys = Some body" "wrap s t body = Some b1"
    and children: "\<And>c1. cbs_len c1 < cbs_len c \<Longrightarrow> cbs_wf c1 \<Longrightarrow> cbs_bytes c1 = concat (map enc ys) \<Longrightarrow>
      \<exists>c2. converted m stk c1 (out_contents stk out s d) (child_string_tag s t) False (d + 1) body c2"
    and rest: "converted m stk (adv (length (enc (Constr t (Some k) ys))) c) out s e d b2 c'"
  shows "converted m stk c out s e d (b1 @ b2) c'"
proof -
  let ?hl = "length (tag_bytes (unat t)) + Suc k" and ?body = "concat (map enc ys)"
  have t: "t AND CBS_ASN1_CONSTRUCTED \<noteq> 0" "form_ok k (length ?body)" using ok by simp_all
  then have nz: "\<not> (t = 0 \<and> k = 0 \<and> ?body = [])" by auto
  have "cbs_bytes c = tag_bytes (unat t) @ len_form k (length ?body) @ ?body @ tail" using c(1) by (simp add: Let_def)
  from definite_step [OF this c(2) t(2) nz] obtain contents contents' where
    get: "CBS_get_any_ber_asn1_element c = (Some (contents, t, ?hl, nonminimal k (length ?body)), adv (?hl + length ?body) c)"
      "\<not> is_eoc ?hl contents"
    and i: "\<not> is_indefinite ?hl contents" "CBS_skip contents ?hl = (Some (), contents')"
    and body: "cbs_len contents' < cbs_len c" "cbs_wf contents'" "cbs_bytes contents' = ?body" by blast
  from children [OF body] have
    "works m (out_contents stk out s d) (stk ` {d + 1..}) []
       (convert_op m stk contents' (out_contents stk out s d) (child_string_tag s t) False (d + 1)) (Some body) []"
    by (auto simp: converted_def)
  from converted_round [OF d len_pos [OF c(2,1)] get inner_definite [OF i t(1)] this b(2) out]
  show ?thesis using rest by (simp add: add.assoc Let_def)
qed

lemma convert_indefinite:
  assumes d: "\<not> d > kMaxDepth" and out: "out \<notin> stk ` {d..}" and c: "cbs_bytes c = enc (Constr t None ys) @ tail" "cbs_wf c"
    and ok: "ber_ok (Constr t None ys)" and b: "conv (child_string_tag s t) ys = Some body" "wrap s t body = Some b1"
    and children: "\<And>c1. cbs_len c1 < cbs_len c \<Longrightarrow> cbs_wf c1 \<Longrightarrow> cbs_bytes c1 = concat (map enc ys) @ 0 # 0 # tail \<Longrightarrow>
      converted m stk c1 (out_contents stk out s d) (child_string_tag s t) True (d + 1) body (adv (length (concat (map enc ys)) + 2) c1)"
    and rest: "converted m stk (adv (length (enc (Constr t None ys))) c) out s e d b2 c'"
  shows "converted m stk c out s e d (b1 @ b2) c'"
proof -
  let ?hl = "Suc (length (tag_bytes (unat t)))" and ?body = "concat (map enc ys)" and ?oc = "out_contents stk out s d"
  have t: "t AND CBS_ASN1_CONSTRUCTED \<noteq> 0" using ok by simp
  have cb: "cbs_bytes c = tag_bytes (unat t) @ 0x80 # ?body @ 0 # 0 # tail" using c(1) by simp
  from indefinite_step [OF this c(2) t] obtain contents where
    get: "CBS_get_any_ber_asn1_element c = (Some (contents, t, ?hl, True), adv ?hl c)" "\<not> is_eoc ?hl contents"
    and i: "is_indefinite ?hl contents" by blast
  have pos: "CBS_len c > 0" by (rule len_pos [OF c(2,1)])
  then have "cbs_bytes (adv ?hl c) = ?body @ 0 # 0 # tail" "cbs_wf (adv ?hl c)" "cbs_len (adv ?hl c) < cbs_len c"
    using cb c(2) by (simp_all add: CBS_len_def)
  note children [OF this(3,2,1)]
  then have g: "works m ?oc (stk ` {d + 1..}) [] (convert_op m stk (adv ?hl c) ?oc (child_string_tag s t) True (d + 1)) (Some body) []"
    "ends_at m stk (adv ?hl c) ?oc (child_string_tag s t) True (d + 1) (adv (length (enc (Constr t None ys))) c)"
    by (simp_all add: converted_def add.assoc)
  from converted_round [OF d pos get inner_indefinite [OF i g(2)] g(1) b(2) out rest] show ?thesis .
qed

lemma convert_trees:
  assumes "inj stk"
  shows "(\<forall>x \<in> set xs. ber_ok x \<and> d + ber_depth x \<le> kMaxDepth) \<Longrightarrow> d \<le> kMaxDepth \<Longrightarrow> cbs_wf c \<Longrightarrow>
    cbs_bytes c = concat (map enc xs) @ (if e then 0 # 0 # rest else []) \<Longrightarrow> conv s xs = Some bs \<Longrightarrow> out \<notin> stk ` {d..} \<Longrightarrow>
    converted m stk c out s e d bs (adv (length (concat (map enc xs)) + (if e then 2 else 0)) c)"
proof (induction "cbs_len c" arbitrary: c xs d e s bs out rest rule: less_induct)
  case less
  have d: "\<not> d > kMaxDepth" using less.prems(2) by simp
  show ?case
  proof (cases xs)
    case Nil
    then have "cbs_bytes c = (if e then 0 # 0 # rest else [])" "bs = []" using less.prems by (simp_all add: conv_Nil)
    then show ?thesis
      unfolding converted_def using Nil convert_end [OF d less.prems(3), of e rest] works_succeed
      by (simp only: list.map concat.simps list.size add_0 simp_thms)
  next
    case (Cons x xs')
    obtain b1 b2 where b: "conv1 s x = Some b1" "conv s xs' = Some b2" "bs = b1 @ b2"
      using less.prems(5) unfolding Cons conv_Cons by (auto simp: bind_eq_Some_conv)
    let ?tail = "concat (map enc xs') @ (if e then 0 # 0 # rest else [])" and ?c2 = "adv (length (enc x)) c"
    have bytes: "cbs_bytes c = enc x @ ?tail" using less.prems(4) Cons by simp
    have c2: "cbs_bytes ?c2 = ?tail" "cbs_wf ?c2" "cbs_len ?c2 < cbs_len c"
      using bytes less.prems(3) enc_nonempty [of x] len_pos [OF less.prems(3) bytes] by (simp_all add: CBS_len_def)
    have more: "converted m stk ?c2 out s e d b2 (adv (length (concat (map enc xs)) + (if e then 2 else 0)) c)"
      using less.hyps [OF c2(3), of xs' d e rest s b2 out] less.prems Cons c2 b by (simp add: add.assoc)
    have oc: "out_contents stk out s d \<notin> stk ` {d + 1..}"
      using less.prems(6) assms by (auto simp: out_contents_def dest: injD)
    have ok: "ber_ok x" using less.prems(1) Cons by simp
    show ?thesis
    proof (cases x rule: enc.cases)
      case (1 t k body)
      then show ?thesis
        using convert_prim [OF d less.prems(6) bytes [unfolded 1] less.prems(3) ok [unfolded 1] b(1) [unfolded 1] more [unfolded 1]] b(3) by simp
    next
      case (2 t k ys)
      obtain body where v: "conv (child_string_tag s t) ys = Some body" "wrap s t body = Some b1"
        using b(1) ok unfolding 2 by (auto simp: conv1_constr bind_eq_Some_conv)
      have dep: "\<forall>y \<in> set ys. ber_ok y \<and> d + 1 + ber_depth y \<le> kMaxDepth" "d + 1 \<le> kMaxDepth"
        using less.prems(1) child_depth [of _ ys t "Some k"] unfolding Cons 2 by (fastforce, simp)
      show ?thesis unfolding b(3)
        by (rule convert_definite [OF d less.prems(6) bytes [unfolded 2] less.prems(3) ok [unfolded 2] v _ more [unfolded 2]])
           (use less.hyps [OF _ dep _ _ v(1) oc, of _ False] in auto)
    next
      case (3 t ys)
      obtain body where v: "conv (child_string_tag s t) ys = Some body" "wrap s t body = Some b1"
        using b(1) ok unfolding 3 by (auto simp: conv1_constr bind_eq_Some_conv)
      have dep: "\<forall>y \<in> set ys. ber_ok y \<and> d + 1 + ber_depth y \<le> kMaxDepth" "d + 1 \<le> kMaxDepth"
        using less.prems(1) child_depth [of _ ys t None] unfolding Cons 3 by (fastforce, simp)
      show ?thesis unfolding b(3)
        by (rule convert_indefinite [OF d less.prems(6) bytes [unfolded 3] less.prems(3) ok [unfolded 3] v _ more [unfolded 3]])
           (use less.hyps [OF _ dep _ _ v(1) oc, of _ True] in simp)
    qed
  qed
qed

end
