(* ===== verification/Ber_Properties.thy ===== *)
theory Ber_Properties
  imports Ber_Conversion
begin

unbundle bit_operations_syntax

text \<open>
  The properties of \<open>crypto/bytestring/ber.c\<close>: the walk that looks for BER and what it misses,
  the conversion returns on every input, \<open>CBS_asn1_ber_to_der\<close> on BER trees, and implicitly
  tagged strings.
\<close>

subsection \<open>The walk that looks for BER\<close>

lemma ber_element_bounds:
  assumes "CBS_get_any_ber_asn1_element c = (Some (contents, tag, hl, found), c')" "cbs_wf c"
  obtains n where "n \<le> length (cbs_bytes c)" "hl \<le> n" "0 < hl" "contents = cbs_view n c" "c' = adv n c"
    "cbs_len c' < cbs_len c" "cbs_wf c'" "CBS_skip contents hl = (Some (), adv hl contents)"
    "cbs_wf (adv hl contents)" "cbs_len (adv hl contents) < cbs_len c"
proof -
  obtain n where n: "n \<le> length (cbs_bytes c)" "hl \<le> n" "0 < hl" "contents = cbs_view n c" "c' = adv n c"
    using cbs_get_any_asn1_element_bounds [OF assms(1) [unfolded CBS_get_any_ber_asn1_element_def] assms(2)] by blast
  have l: "n \<le> cbs_len c" using n(1) length_cbs_bytes [OF assms(2)] by simp
  have wf: "cbs_wf contents" using n cbs_wf_view [OF assms(2)] by simp
  have "hl \<le> length (cbs_bytes contents)" using n cbs_bytes_view [OF n(1)] by simp
  then have "CBS_skip contents hl = (Some (), adv hl contents)" using wf by (simp add: CBS_skip_eq)
  moreover have "cbs_len (adv hl contents) < cbs_len c" using n l by (simp add: cbs_view_def CBS_init_def)
  ultimately show thesis using that n l wf assms(2) by simp
qed

lemma find_ber_total: "cbs_wf c \<Longrightarrow> \<exists>r. find_ber_loop c f d = Some r"
proof (induction "cbs_len c" arbitrary: c f d rule: less_induct)
  case less
  obtain r c' where get: "CBS_get_any_ber_asn1_element c = (r, c')" by (cases "CBS_get_any_ber_asn1_element c")
  show ?case
  proof (cases r)
    case None
    then show ?thesis using get by (subst find_ber_loop.simps) simp
  next
    case (Some x)
    obtain contents tag hl found where x: "x = (contents, tag, hl, found)" by (cases x)
    from ber_element_bounds [OF get [unfolded Some x] less.prems]
    have b: "cbs_len c' < cbs_len c" "cbs_wf c'" "CBS_skip contents hl = (Some (), adv hl contents)"
      "cbs_wf (adv hl contents)" "cbs_len (adv hl contents) < cbs_len c" by blast+
    obtain r1 where r1: "find_ber_loop (adv hl contents) False (d + 1) = Some r1" using less.hyps [OF b(5,4)] by blast
    have "\<exists>r. find_ber_loop c' g d = Some r" for g using less.hyps [OF b(1,2)] .
    then show ?thesis
      using get Some x b(3) r1 by (subst find_ber_loop.simps) (auto split: option.splits)
  qed
qed

text \<open>An element that is not DER itself: a length with too many octets, an indefinite length, a constructed string.\<close>

fun deviates :: "ber \<Rightarrow> bool" where
  "deviates (Prim t k body) \<longleftrightarrow> nonminimal k (length body)"
| "deviates (Constr t (Some k) ys) \<longleftrightarrow> nonminimal k (length (concat (map enc ys))) \<or> is_string_type t"
| "deviates (Constr t None ys) \<longleftrightarrow> True"

text \<open>
  What the walk reports. Every element of a level is inspected, but the report about what is
  inside one element is overwritten by its next sibling, so only the last one counts.
\<close>

fun inside :: "ber \<Rightarrow> ber list" where
  "inside (Prim t k body) = []"
| "inside (Constr t f ys) = ys"

lemma size_inside_last: "inside x \<noteq> [] \<Longrightarrow> size (last (inside x)) < size x"
proof (cases x)
  case (Constr t f ys)
  have "size y < size (Constr t f ys)" if "y \<in> set ys" for y
    using that by (induction ys) auto
  then show "inside x \<noteq> [] \<Longrightarrow> ?thesis" using Constr by simp
qed simp

function reports :: "ber \<Rightarrow> bool" where
  "reports x \<longleftrightarrow>
     deviates x \<or> (\<exists>y \<in> set (inside x). deviates y) \<or> (if inside x = [] then False else reports (last (inside x)))"
  by pat_completeness auto
termination by (relation "measure size") (simp_all add: size_inside_last)

declare reports.simps [simp del]

definition reported :: "ber list \<Rightarrow> bool" where
  "reported xs \<longleftrightarrow> (\<exists>x \<in> set xs. deviates x) \<or> (xs \<noteq> [] \<and> reports (last xs))"

lemma reports_prim: "reports (Prim t k body) \<longleftrightarrow> nonminimal k (length body)"
  by (subst reports.simps) simp

lemma reports_inside: "\<not> deviates x \<Longrightarrow> reports x \<longleftrightarrow> reported (inside x)"
  by (subst reports.simps) (simp add: reported_def)

text \<open>The state of the flag after the walk over \<open>xs\<close>, when it was \<open>f\<close> before.\<close>

definition flag_after :: "bool \<Rightarrow> ber list \<Rightarrow> bool" where
  "flag_after f xs = (if xs = [] then f else reported xs)"

lemma flag_after_Cons: "flag_after f (x # xs) = (if deviates x then True else flag_after (reports x) xs)"
  by (auto simp: flag_after_def reported_def)

lemma find_ber_exact:
  "(\<forall>x \<in> set xs. ber_ok x \<and> d + ber_depth x \<le> kMaxDepth) \<Longrightarrow> d \<le> kMaxDepth \<Longrightarrow> cbs_wf c \<Longrightarrow>
   cbs_bytes c = concat (map enc xs) \<Longrightarrow> find_ber_loop c f d = Some (Some (flag_after f xs))"
proof (induction "cbs_len c" arbitrary: c xs d f rule: less_induct)
  case less
  have d: "\<not> d > kMaxDepth" using less.prems(2) by simp
  show ?case
  proof (cases xs)
    case Nil
    then show ?thesis using less.prems by (subst find_ber_loop.simps) (simp add: CBS_len_eq flag_after_def)
  next
    case (Cons x xs')
    have bytes: "cbs_bytes c = enc x @ concat (map enc xs')" using less.prems(4) Cons by simp
    note pos = len_pos [OF less.prems(3) bytes]
    let ?c2 = "adv (length (enc x)) c"
    have c2: "cbs_bytes ?c2 = concat (map enc xs')" "cbs_wf ?c2" "cbs_len ?c2 < cbs_len c"
      using bytes less.prems(3) enc_nonempty [of x] pos by (simp_all add: CBS_len_def)
    have rest: "find_ber_loop ?c2 g d = Some (Some (flag_after g xs'))" for g
      using less.hyps [OF c2(3), of xs' d g] less.prems Cons c2 by simp
    have ok: "ber_ok x" using less.prems(1) Cons by simp
    note unf = find_ber_loop.simps [of c f d, unfolded if_not_P [OF d] if_P [OF pos]]
    show ?thesis
    proof (cases x rule: enc.cases)
      case (1 t k body)
      have "cbs_bytes c = tag_bytes (unat t) @ len_form k (length body) @ body @ concat (map enc xs')" using bytes 1 by simp
      from ber_definite [OF this less.prems(3)] ok 1
      have "CBS_get_any_ber_asn1_element c = (Some (cbs_view (length (enc x)) c, t, length (tag_bytes (unat t)) + Suc k, nonminimal k (length body)), ?c2)"
        by (simp add: add.assoc)
      then show ?thesis using rest ok 1 unfolding Cons flag_after_Cons by (subst unf) (simp add: reports_prim)
    next
      case (2 t k ys)
      let ?body = "concat (map enc ys)"
      have t: "t AND CBS_ASN1_CONSTRUCTED \<noteq> 0" "form_ok k (length ?body)" using ok 2 by simp_all
      then have nz: "\<not> (t = 0 \<and> k = 0 \<and> ?body = [])" by auto
      have "cbs_bytes c = tag_bytes (unat t) @ len_form k (length ?body) @ ?body @ concat (map enc xs')" using bytes 2 by (simp add: Let_def)
      from definite_step [OF this less.prems(3) t(2) nz] obtain contents contents' where
        get: "CBS_get_any_ber_asn1_element c = (Some (contents, t, length (tag_bytes (unat t)) + Suc k, nonminimal k (length ?body)),
            adv (length (tag_bytes (unat t)) + Suc k + length ?body) c)"
          "CBS_skip contents (length (tag_bytes (unat t)) + Suc k) = (Some (), contents')"
        and body: "cbs_len contents' < cbs_len c" "cbs_wf contents'" "cbs_bytes contents' = ?body" by blast
      have c2': "adv (length (tag_bytes (unat t)) + Suc k + length ?body) c = ?c2" by (simp add: 2 add.assoc Let_def)
      have "\<forall>y \<in> set ys. ber_ok y \<and> d + 1 + ber_depth y \<le> kMaxDepth" "d + 1 \<le> kMaxDepth"
        using less.prems(1) child_depth [of _ ys t "Some k"] unfolding Cons 2 by (fastforce, simp)
      then have inner: "find_ber_loop contents' False (d + 1) = Some (Some (flag_after False ys))"
        using less.hyps [OF body(1) _ _ body(2,3)] by simp
      have "flag_after False ys = reports x" if "\<not> deviates x"
        using reports_inside [OF that] 2 by (auto simp: flag_after_def reported_def)
      then show ?thesis
        using rest t(1) 2 inner get c2' unfolding Cons flag_after_Cons by (subst unf) simp
    next
      case (3 t ys)
      have "cbs_bytes c = tag_bytes (unat t) @ 0x80 # concat (map enc ys) @ 0 # 0 # concat (map enc xs')" using bytes 3 by simp
      from ber_indefinite [OF this less.prems(3)] ok 3 show ?thesis
        unfolding Cons flag_after_Cons by (subst unf) simp
    qed
  qed
qed

subsection \<open>The conversion always returns\<close>

text \<open>
  Whatever the input: a run on a represented builder returns; on success the builder has
  grown by some bytes, only the builders in \<open>S\<close> were used, and the reader satisfies \<open>Q\<close>.
\<close>

definition ran :: "nat \<Rightarrow> nat set \<Rightarrow> (CBS \<Rightarrow> bool) \<Rightarrow> cbb_heap \<Rightarrow> byte list \<Rightarrow> (bool \<times> CBS \<times> cbb_heap) option \<Rightarrow> bool" where
  "ran a S Q h P r \<longleftrightarrow>
     (\<exists>c h'. r = Some (False, c, h')) \<or>
     (\<exists>c h' bs. r = Some (True, c, h') \<and> Q c \<and> rep h' a (P @ bs) [] \<and> keeps a S h h')"

definition runs :: "nat \<Rightarrow> nat set \<Rightarrow> (CBS \<Rightarrow> bool) \<Rightarrow> (cbb_heap \<Rightarrow> (bool \<times> CBS \<times> cbb_heap) option) \<Rightarrow> bool" where
  "runs a S Q op \<longleftrightarrow> (\<forall>h P. rep h a P [] \<longrightarrow> ran a S Q h P (op h))"

lemma ran_fail [simp]: "ran a S Q h P (Some (False, r))"
  by (cases r) (simp add: ran_def)

lemma ran_success: "Q c \<Longrightarrow> rep h' a (P @ bs) [] \<Longrightarrow> keeps a S h h' \<Longrightarrow> ran a S Q h P (Some (True, c, h'))"
  by (auto simp: ran_def)

lemma runsE:
  assumes "runs a S Q op" "rep h a P []"
  obtains (fail) c h' where "op h = Some (False, c, h')"
  | (success) c h' bs where "op h = Some (True, c, h')" "Q c" "rep h' a (P @ bs) []" "keeps a S h h'"
  using assms unfolding runs_def ran_def by blast

lemma runs_here: "Q c \<Longrightarrow> runs a S Q (\<lambda>h. Some (b, c, h))"
  by (cases b) (auto simp: runs_def intro!: ran_success [where bs = "[]"] keeps_refl)

lemma runs_works:
  assumes "works m a S [] op out []" "Q c"
  shows "runs a S Q (\<lambda>h. map_option (\<lambda>(ok, h'). (ok, c, h')) (op h))"
  unfolding runs_def
proof (intro allI impI)
  fix h P assume "rep h a P []"
  with assms(1) show "ran a S Q h P (map_option (\<lambda>(ok, h'). (ok, c, h')) (op h))"
    by (cases rule: worksE) (use assms(2) in \<open>auto intro: ran_success\<close>)
qed

lemma runs_mono: "runs a S Q op \<Longrightarrow> (\<And>c. Q c \<Longrightarrow> Q' c) \<Longrightarrow> runs a S Q' op"
  unfolding runs_def ran_def by meson

text \<open>Opening the builder for the contents, running on it and closing it again.\<close>

definition enclose :: "allocator \<Rightarrow> nat \<Rightarrow> (cbb_heap \<Rightarrow> cbb_result) \<Rightarrow> CBS \<Rightarrow>
    (cbb_heap \<Rightarrow> (bool \<times> CBS \<times> cbb_heap) option) \<Rightarrow> (CBS \<Rightarrow> cbb_heap \<Rightarrow> (bool \<times> CBS \<times> cbb_heap) option) \<Rightarrow>
    cbb_heap \<Rightarrow> (bool \<times> CBS \<times> cbb_heap) option" where
  "enclose m out opn c1 g k h =
     Option.bind (opn h) (\<lambda>r1.
       if \<not> fst r1 then Some (False, c1, snd r1)
       else Option.bind (g (snd r1)) (\<lambda>r2.
         if \<not> fst r2 then Some r2
         else Option.bind (CBB_flush m out (snd (snd r2))) (\<lambda>r3.
           if \<not> fst r3 then Some (False, fst (snd r2), snd r3) else k (fst (snd r2)) (snd r3))))"

lemma runs_flush:
  assumes rp: "rep h2 out (P0 @ P) fs" and sub: "set (map fst fs) \<subseteq> S" and kp: "keeps out S h h2"
    and op: "r = Option.bind (CBB_flush m out h2) (\<lambda>r3. if \<not> fst r3 then Some (False, c2, snd r3) else k (snd r3))"
    and k: "runs out S Q k"
  shows "ran out S Q h P0 r"
  using rp
proof (cases rule: flush_cases [where m = m])
  case (fail h')
  then show ?thesis using op by simp
next
  case (success h3 t)
  have kp3: "keeps out S h h3" using keeps_trans [OF kp success(4)] sub by (simp add: Un_absorb2)
  from k success(3) show ?thesis
  proof (cases rule: runsE)
    case (fail c h')
    then show ?thesis using op success(1) by simp
  next
    case k: (success c h' bs)
    have "keeps out S h h'" using keeps_trans [OF kp3 k(4)] by simp
    then show ?thesis using op success(1) k by (auto intro!: ran_success [where bs = "P @ t @ bs"])
  qed
qed

lemma runs_enclose_child:
  assumes g: "runs ch S' Q g" and k: "\<And>c. Q c \<Longrightarrow> runs out S Q' (k c)"
    and S: "S' \<subseteq> S" "ch \<in> S" "out \<notin> S"
  shows "runs out S Q' (enclose m out (CBB_add_asn1 m out ch t) c1 g k)"
  unfolding runs_def
proof (intro allI impI)
  fix h P assume r: "rep h out P []"
  let ?op = "enclose m out (CBB_add_asn1 m out ch t) c1 g k"
  have ne: "ch \<noteq> out" using S by auto
  have "works m out S [] (CBB_add_asn1 m out ch t) (Some (tag_bytes (unat t))) [(ch, Asn1_prefix, [])]"
    using works_add_asn1 [OF ne S(2)] by blast
  from this r show "ran out S Q' h P (?op h)"
  proof (cases rule: worksE)
    case (fail h')
    then show ?thesis by (simp add: enclose_def)
  next
    case (success h1 t1 bs)
    note f = success
    have "rep h1 ch ((P @ t1 @ bs) @ replicate 1 0) []" using rep_child [OF f(4)] by simp
    with g show ?thesis
    proof (cases rule: runsE)
      case (fail c h')
      then show ?thesis using f(1) by (simp add: enclose_def)
    next
      case (success c2 h2 body)
      have kp: "keeps ch S h1 h2" by (rule keeps_mono [OF success(4) S(1)])
      have "rep h2 out (P @ t1 @ bs) ([] @ (ch, Asn1_prefix, [] @ body) # [])"
        using rep_focus [of h1 out "P @ t1 @ bs" "[]" ch Asn1_prefix "[]" "[]" h2 body "[]" S] f(4) success(3) kp S(3) by simp
      then have r2: "rep h2 out (P @ t1 @ bs) [(ch, Asn1_prefix, body)]" by simp
      have kp2: "keeps out S h h2" using f(5) kp ne S by (auto simp: keeps_def)
      have "?op h = Option.bind (CBB_flush m out h2) (\<lambda>r3. if \<not> fst r3 then Some (False, c2, snd r3) else k c2 (snd r3))"
        using f(1) success(1) by (cases "CBB_flush m out h2") (simp_all add: enclose_def)
      from runs_flush [OF r2 _ kp2 this k [OF success(2)]] S(2) show ?thesis by simp
    qed
  qed
qed

lemma runs_enclose_same:
  assumes g: "runs out S' Q g" and k: "\<And>c. Q c \<Longrightarrow> runs out S Q' (k c)" and S: "S' \<subseteq> S"
  shows "runs out S Q' (enclose m out (\<lambda>h. Some (b, h)) c1 g k)"
  unfolding runs_def
proof (intro allI impI)
  fix h P assume "rep h out P []"
  with g show "ran out S Q' h P (enclose m out (\<lambda>h. Some (b, h)) c1 g k h)"
  proof (cases rule: runsE)
    case (fail c h')
    then show ?thesis by (cases b) (simp_all add: enclose_def)
  next
    case (success c2 h2 body)
    have "keeps out S h h2" by (rule keeps_mono [OF success(4) S])
    moreover have "b \<Longrightarrow> enclose m out (\<lambda>h. Some (b, h)) c1 g k h =
        Option.bind (CBB_flush m out h2) (\<lambda>r3. if \<not> fst r3 then Some (False, c2, snd r3) else k c2 (snd r3))"
      using success(1) by (cases "CBB_flush m out h2") (simp_all add: enclose_def)
    ultimately show ?thesis
      using runs_flush [OF success(3) _ _ _ k [OF success(2)]] by (cases b) (simp_all add: enclose_def)
  qed
qed

lemma runs_enclose:
  assumes g: "runs (out_contents stk out s d) (stk ` {d + 1..}) Q g" and k: "\<And>c. Q c \<Longrightarrow> runs out (stk ` {d..}) Q' (k c)"
    and out: "out \<notin> stk ` {d..}"
  shows "runs out (stk ` {d..}) Q' (enclose m out (convert_open m stk out s t d) c1 g k)"
proof -
  have S: "stk ` {d + 1..} \<subseteq> stk ` {d..}" by (intro image_mono) auto
  show ?thesis
  proof (cases "s = 0")
    case True
    have "convert_open m stk out s t d = CBB_add_asn1 m out (stk d)
        (if t AND CBS_ASN1_CONSTRUCTED \<noteq> 0 \<and> is_string_type t then primitive_tag t else t)"
      by (rule ext) (simp add: convert_open_def True)
    then show ?thesis
      using runs_enclose_child [where out = out and k = k and Q = Q and Q' = Q', OF g k S] True out
      by (simp add: out_contents_def)
  next
    case False
    then have "convert_open m stk out s t d = (\<lambda>h. Some (primitive_tag t = s, h))"
      by (intro ext) (simp add: convert_open_def)
    then show ?thesis
      using runs_enclose_same [where k = k and Q = Q and Q' = Q', OF _ k S] g False by (simp add: out_contents_def)
  qed
qed

lemma convert_runs:
  assumes "inj stk"
  shows "cbs_wf c \<Longrightarrow> out \<notin> stk ` {d..} \<Longrightarrow>
    runs out (stk ` {d..}) (\<lambda>c'. cbs_wf c' \<and> cbs_len c' \<le> cbs_len c) (cbs_convert_ber m stk c out s e d)"
proof (induction "cbs_len c" arbitrary: c out s e d rule: less_induct)
  case less
  let ?Q = "\<lambda>c'. cbs_wf c' \<and> cbs_len c' \<le> cbs_len c"
  obtain r c1 where get: "CBS_get_any_ber_asn1_element c = (r, c1)" by (cases "CBS_get_any_ber_asn1_element c")
  show ?case
  proof (cases "d > kMaxDepth \<or> CBS_len c = 0 \<or> r = None")
    case True
    have "\<exists>b c'. cbs_convert_ber m stk c out s e d = (\<lambda>h. Some (b, c', h)) \<and> (b \<longrightarrow> c' = c)"
    proof (cases "d > kMaxDepth \<or> CBS_len c = 0")
      case True
      then show ?thesis by (cases "d > kMaxDepth") (auto intro!: ext exI [of _ c] simp: cbs_convert_ber.simps [of m stk c])
    next
      case False
      then show ?thesis using True get by (auto intro!: ext exI [of _ False] exI [of _ c1] simp: cbs_convert_ber.simps [of m stk c])
    qed
    then obtain b c' where eq: "cbs_convert_ber m stk c out s e d = (\<lambda>h. Some (b, c', h))" "b \<longrightarrow> c' = c" by blast
    then show ?thesis using less.prems(1) runs_here [of ?Q c] by (cases b) (auto simp: runs_def)
  next
    case False
    then obtain contents t hl found where r: "r = Some (contents, t, hl, found)" by auto
    from ber_element_bounds [OF get [unfolded r] less.prems(1)]
    have b: "cbs_len c1 < cbs_len c" "cbs_wf c1" "CBS_skip contents hl = (Some (), adv hl contents)"
      "cbs_wf (adv hl contents)" "cbs_len (adv hl contents) < cbs_len c" by blast+
    let ?oc = "out_contents stk out s d" and ?st = "child_string_tag s t" and ?Q1 = "\<lambda>c'. cbs_wf c' \<and> cbs_len c' \<le> cbs_len c1"
    have oc: "?oc \<notin> stk ` {d + 1..}" using less.prems(2) assms by (auto simp: out_contents_def dest: injD)
    show ?thesis
    proof (cases "is_eoc hl contents")
      case True
      then have "cbs_convert_ber m stk c out s e d = (\<lambda>h. Some (e, c1, h))"
        using False get r by (intro ext) (subst cbs_convert_ber.simps, simp)
      then show ?thesis using runs_here [of ?Q c1] b by simp
    next
      case noeoc: False
      have "cbs_convert_ber m stk c out s e d =
          enclose m out (convert_open m stk out s t d) c1 (convert_contents m stk ?oc ?st hl contents t c1 (d + 1))
            (\<lambda>c2. cbs_convert_ber m stk c2 out s e d)"
      proof (rule ext)
        have d: "\<not> d > kMaxDepth" "CBS_len c > 0" using False by simp_all
        show "cbs_convert_ber m stk c out s e d h = enclose m out (convert_open m stk out s t d) c1
            (convert_contents m stk ?oc ?st hl contents t c1 (d + 1)) (\<lambda>c2. cbs_convert_ber m stk c2 out s e d) h" for h
          unfolding enclose_def convert_contents_def
          by (subst cbs_convert_ber.simps) (simp only: if_not_P [OF d(1)] if_P [OF d(2)] get r prod.case option.case if_not_P [OF noeoc])
      qed
      moreover have "runs ?oc (stk ` {d + 1..}) ?Q1 (convert_contents m stk ?oc ?st hl contents t c1 (d + 1))"
      proof (cases "is_indefinite hl contents")
        case True
        then show ?thesis using less.hyps [OF b(1,2) oc, of ?st True] by (simp add: convert_contents_def [abs_def])
      next
        case def: False
        show ?thesis
        proof (cases "t AND CBS_ASN1_CONSTRUCTED = 0")
          case True
          have "works m ?oc (stk ` {d + 1..}) [] (CBB_add_bytes m ?oc (CBS_data (adv hl contents)) (CBS_len (adv hl contents)))
              (Some (cbs_bytes (adv hl contents))) []"
            using works_add_bytes [of "CBS_len (adv hl contents)" "CBS_data (adv hl contents)" m ?oc "stk ` {d + 1..}"] b(4)
            by (simp add: CBS_len_def CBS_data_def cbs_bytes_def cbs_wf_def)
          from runs_works [OF this, of ?Q1 c1] show ?thesis
            using def True b by (simp add: convert_contents_def [abs_def])
        next
          case constr: False
          from less.hyps [OF b(5,4) oc, of ?st False] show ?thesis
            using def constr b unfolding runs_def ran_def convert_contents_def by fastforce
        qed
      qed
      moreover have "runs out (stk ` {d..}) ?Q (cbs_convert_ber m stk c2 out s e d)" if "?Q1 c2" for c2
      proof -
        have c2: "cbs_wf c2" "cbs_len c2 < cbs_len c" using that b(1) by auto
        show ?thesis by (rule runs_mono [OF less.hyps [OF c2(2,1) less.prems(2)]]) (use c2 in auto)
      qed
      ultimately show ?thesis using runs_enclose [OF _ _ less.prems(2)] by simp
    qed
  qed
qed

subsection \<open>The whole function\<close>

lemma find_ber_wf: "cbs_wf c \<Longrightarrow> cbs_find_ber c d = find_ber_loop c False d"
  by (cases c) (simp add: cbs_find_ber_def CBS_init_def CBS_data_def CBS_len_def)

lemma CBS_get_any_asn1_element_wf:
  assumes "CBS_get_any_asn1_element c = (Some (out, t, hl), c')" "cbs_wf c"
  shows "cbs_wf out"
proof -
  obtain found where "cbs_get_any_asn1_element c False = (Some (out, t, hl, found), c')"
    using assms(1) by (auto simp: CBS_get_any_asn1_element_def split: option.splits prod.splits)
  from cbs_get_any_asn1_element_bounds [OF this assms(2)] show ?thesis using cbs_wf_view [OF assms(2)] by blast
qed

lemma is_DER_element:
  assumes "\<not> deviates x" "ber_ok x" "cbs_bytes c = enc x @ rest" "cbs_wf c"
  shows "\<exists>t hl. CBS_get_any_asn1_element c = (Some (cbs_view (length (enc x)) c, t, hl), adv (length (enc x)) c)"
proof -
  obtain t :: u32 and k body where x: "enc x = tag_bytes (unat t) @ len_form k (length body) @ body" "form_ok k (length body)" "\<not> nonminimal k (length body)"
  proof (cases x rule: enc.cases)
    case (1 t k body)
    then show thesis using assms(1,2) that [of t k body] by simp
  next
    case (2 t k ys)
    then show thesis using assms(1,2) that [of t k "concat (map enc ys)"] by (simp add: Let_def)
  next
    case (3 t ys)
    then show thesis using assms(1) by simp
  qed
  have b: "cbs_bytes c = tag_bytes (unat t) @ len_form k (length body) @ body @ rest" using assms(3) x(1) by simp
  have "length (enc x) = length (tag_bytes (unat t)) + Suc k + length body" using x(1) by simp
  then show ?thesis
    using element_definite [OF b assms(4) x(2), of False] x(3) by (simp add: CBS_get_any_asn1_element_def)
qed

text \<open>The hypotheses about an input that is a list of BER elements.\<close>

definition ber_input :: "CBS \<Rightarrow> ber list \<Rightarrow> bool" where
  "ber_input c xs \<longleftrightarrow> cbs_wf c \<and> cbs_bytes c = concat (map enc xs) \<and> (\<forall>x \<in> set xs. ber_ok x \<and> ber_depth x \<le> kMaxDepth)"

lemma ber_input_found: "ber_input c xs \<Longrightarrow> cbs_find_ber c 0 = Some (Some (reported xs))"
  using find_ber_exact [of xs 0 c False] by (auto simp: ber_input_def find_ber_wf flag_after_def reported_def)

lemma ber_unconverted:
  assumes "ber_input c (x # xs)" "\<not> reported (x # xs)"
  shows "CBS_asn1_ber_to_der m storage cbb c h = Some (Some (cbs_view (length (enc x)) c, None), adv (length (enc x)) c, h)"
proof -
  have "\<not> deviates x" using assms(2) by (simp add: reported_def)
  then obtain t hl where "CBS_get_any_asn1_element c = (Some (cbs_view (length (enc x)) c, t, hl), adv (length (enc x)) c)"
    using is_DER_element [of x c "concat (map enc xs)"] assms(1) by (auto simp: ber_input_def)
  then show ?thesis using ber_input_found [OF assms(1)] assms(2) by (simp add: CBS_asn1_ber_to_der_def)
qed

lemma ber_converted:
  assumes m: "\<forall>k n. m k n \<noteq> None" and inj: "inj storage" and cbb: "cbb \<notin> range storage"
    and c: "ber_input c xs" "cbs_len c < 2 ^ 63" and bs: "conv 0 xs = Some bs" "length bs < 2 ^ 62" and r: "reported xs"
  obtains out st c' h' where "CBS_asn1_ber_to_der m storage cbb c h = Some (Some (out, Some st), c', h')"
    "cbs_bytes out = bs" "cbs_wf out" "cbs_bytes c' = []"
proof -
  have wf: "cbs_wf c" and b: "cbs_bytes c = concat (map enc xs)" using c(1) by (auto simp: ber_input_def)
  have "converted m storage c cbb 0 False 0 bs (adv (length (concat (map enc xs)) + (if False then 2 else 0)) c)"
    by (rule convert_trees [OF inj, where rest = "[]"]) (use c(1) bs(1) cbb in \<open>auto simp: ber_input_def\<close>)
  then have w: "works m cbb (storage ` {0..}) [] (convert_op m storage c cbb 0 False 0) (Some bs) []"
    and e: "ends_at m storage c cbb 0 False 0 (adv (length (concat (map enc xs))) c)" by (simp_all add: converted_def)
  obtain h1 where h1: "CBB_init m cbb (CBS_len c) h = (True, h1)" "rep h1 cbb [] []" "\<not> cbb_is_child (hcbb h1 cbb)" "generous m h1"
    using init_generous [OF m, of "CBS_len c"] c(2) by (auto simp: CBS_len_def)
  from w h1(2) show thesis
  proof (cases rule: worksE)
    case (fail h')
    then show thesis using h1(4) bs(2) by simp
  next
    case (success h2 t bs')
    then have r2: "rep h2 cbb bs []" "generous m h2" "\<not> cbb_is_child (hcbb h2 cbb)"
      using generous_keeps [OF success(5)] h1(3,4) by (auto simp: keeps_def)
    obtain c2 where cv: "cbs_convert_ber m storage c cbb 0 False 0 h1 = Some (True, c2, h2)"
      using success(1) by (auto simp: convert_op_def)
    then have c2: "c2 = adv (length (concat (map enc xs))) c" using e by (auto simp: ends_at_def)
    from r2(1,3) show thesis
    proof (cases rule: finish_cases [where m = m])
      case (fail h')
      then show thesis using r2(2) bs(2) by simp
    next
      case (success h3 t buf)
      have "CBS_asn1_ber_to_der m storage cbb c h = Some (Some (CBS_init buf (length bs), Some buf), c2, h3)"
        using ber_input_found [OF c(1)] r h1(1) cv success(1,2) by (simp add: CBS_asn1_ber_to_der_def)
      moreover have "cbs_bytes (CBS_init buf (length bs)) = bs" "cbs_wf (CBS_init buf (length bs))"
        using success by (auto intro!: cbs_of_buffer)
      ultimately show thesis using that c2 b by simp
    qed
  qed
qed

lemma ber_to_der_total:
  assumes inj: "inj storage" and cbb: "cbb \<notin> range storage" and wf: "cbs_wf c"
  shows "\<exists>r c' h'. CBS_asn1_ber_to_der m storage cbb c h = Some (r, c', h') \<and> (\<forall>out st. r = Some (out, st) \<longrightarrow> cbs_wf out)"
proof -
  obtain f where f: "cbs_find_ber c 0 = Some f" using find_ber_total [OF wf] find_ber_wf [OF wf] by metis
  have el: "\<exists>r c' h'. (case CBS_get_any_asn1_element c of (None, c') \<Rightarrow> Some (None, c', h)
      | (Some (out, _), c') \<Rightarrow> Some (Some (out, None), c', h)) = Some (r, c', h') \<and> (\<forall>out (st :: byte list option). r = Some (out, st) \<longrightarrow> cbs_wf out)"
    using CBS_get_any_asn1_element_wf [OF _ wf] by (cases "CBS_get_any_asn1_element c") (auto split: option.splits)
  show ?thesis
  proof (cases "f = Some True")
    case False
    then show ?thesis using f el by (cases f) (auto simp: CBS_asn1_ber_to_der_def)
  next
    case True
    obtain ok h1 where init: "CBB_init m cbb (CBS_len c) h = (ok, h1)" by (cases "CBB_init m cbb (CBS_len c) h")
    show ?thesis
    proof (cases ok)
      case True
      have "CBS_len c < size_mod" using wf by (simp add: cbs_wf_def CBS_len_def)
      then have h1: "rep h1 cbb [] []" "\<not> cbb_is_child (hcbb h1 cbb)" using rep_init [of m cbb "CBS_len c" h h1] init True by simp_all
      have "runs cbb (storage ` {0..}) (\<lambda>c'. cbs_wf c' \<and> cbs_len c' \<le> cbs_len c) (cbs_convert_ber m storage c cbb 0 False 0)"
        using convert_runs [OF inj wf, of cbb 0] cbb by auto
      from this h1(1) show ?thesis
      proof (cases rule: runsE)
        case (fail c2 h')
        then show ?thesis using f \<open>f = Some True\<close> init True by (simp add: CBS_asn1_ber_to_der_def)
      next
        case (success c2 h2 bs)
        have "\<not> cbb_is_child (hcbb h2 cbb)" using success(4) h1(2) by (auto simp: keeps_def)
        with success(3) show ?thesis
        proof (cases rule: finish_cases [where m = m])
          case (fail h')
          then show ?thesis using f \<open>f = Some True\<close> init True success(1) by (simp add: CBS_asn1_ber_to_der_def)
        next
          case (success h3 t buf)
          have "cbs_wf (CBS_init buf (length ([] @ bs @ t)))" using success by (auto intro!: cbs_of_buffer)
          then show ?thesis
            using f \<open>f = Some True\<close> init True \<open>cbs_convert_ber m storage c cbb 0 False 0 h1 = Some (True, c2, h2)\<close> success(1)
            by (simp add: CBS_asn1_ber_to_der_def)
        qed
      qed
    qed (use f True init in \<open>simp add: CBS_asn1_ber_to_der_def\<close>)
  qed
qed

subsection \<open>DER is left alone\<close>

fun der_tree :: "ber \<Rightarrow> bool" where
  "der_tree (Prim t k body) \<longleftrightarrow> \<not> nonminimal k (length body)"
| "der_tree (Constr t f ys) \<longleftrightarrow> \<not> deviates (Constr t f ys) \<and> (\<forall>y \<in> set ys. der_tree y)"

lemma nbytes_form: "form_ok k n \<Longrightarrow> \<not> nonminimal k n \<Longrightarrow> len_form k n = len_bytes n"
proof -
  assume f: "form_ok k n" "\<not> nonminimal k n"
  show ?thesis
  proof (cases "k = 0")
    case True
    then show ?thesis using f by (simp add: form_ok_def len_form_def len_bytes_def)
  next
    case False
    then have "nbytes n = k" "\<not> n < 128" using f by (auto simp: form_ok_def nonminimal_def intro: nbytes_eqI)
    then show ?thesis using False by (simp add: len_form_def len_bytes_def)
  qed
qed

lemma not_deviates_if_der: "der_tree x \<Longrightarrow> \<not> deviates x"
  by (cases x) auto

lemma der_tree_reports: "der_tree x \<Longrightarrow> \<not> reports x"
proof (induction x rule: reports.induct)
  case (1 x)
  have i: "\<forall>y \<in> set (inside x). der_tree y" using "1.prems" by (cases x) auto
  then have "\<not> reports (last (inside x))" if "inside x \<noteq> []" using 1 that by simp
  then show ?case using i "1.prems" not_deviates_if_der by (subst reports.simps) auto
qed

lemma der_tree_to_der:
  "der_tree x \<Longrightarrow> ber_ok x \<Longrightarrow> length (enc x) \<le> 0xfffffffe \<Longrightarrow> to_der x = Some (enc x)"
proof (induction x)
  case (Prim t k body)
  then show ?case by (simp add: der_opt_def der_def der_header_def nbytes_form)
next
  case (Constr t f ys)
  then obtain k where k: "f = Some k" "\<not> nonminimal k (length (concat (map enc ys)))" "\<not> is_string_type t"
    by (cases f) auto
  have le: "length (enc y) \<le> length (concat (map enc ys))" if "y \<in> set ys" for y
    using that by (simp add: length_concat member_le_sum_list)
  have "map to_der ys = map Some (map enc ys)"
    using Constr k(1) le by (force simp: Let_def)
  moreover have "those (map Some zs) = Some zs" for zs :: "byte list list" by (induction zs) simp_all
  ultimately have "those (map to_der ys) = Some (map enc ys)" by (simp only:)
  then show ?case using Constr.prems k by (simp add: der_opt_def der_def der_header_def nbytes_form Let_def)
qed

subsection \<open>Implicitly tagged strings\<close>

lemma get_asn1_der:
  assumes "cbs_bytes c = der (unat t) body @ rest" "cbs_wf c" "length body < 2 ^ 32"
  obtains out where "CBS_get_asn1 c t = (Some out, adv (length (der (unat t) body)) c)" "cbs_bytes out = body" "cbs_wf out"
    "fst (parse_asn1_tag c) = Some t" "cbs_bytes (adv (length (der (unat t) body)) c) = rest" "CBS_len c > 0"
proof -
  have "parse_asn1_tag c = (Some t, adv (length (tag_bytes (unat t))) c)"
    using assms(1,2) by (intro parse_tag_u32) (auto simp: der_def der_header_def)
  moreover have "CBS_len c > 0" using assms(1,2) der_nonempty [of "unat t" body] by (simp add: CBS_len_eq)
  ultimately show thesis
    using that CBS_get_asn1_complete [OF assms(3,1,2)] assms(1) by auto
qed

text \<open>The contents are handed out where they are in the input.\<close>

lemma CBS_get_asn1_in_place:
  assumes "cbs_bytes c = der (unat t) body @ rest" "cbs_wf c" "length body < 2 ^ 32"
  shows "CBS_get_asn1 c t =
    (Some (adv (length (der_header (unat t) (length body))) (cbs_view (length (der (unat t) body)) c)), adv (length (der (unat t) body)) c)"
proof -
  let ?n = "length (der (unat t) body)" and ?hl = "length (der_header (unat t) (length body))"
  have t: "unat t < 2 ^ 32" using unsigned_less [of t, where ?'a = nat] by simp
  have n: "?n \<le> length (cbs_bytes c)" using assms(1) by simp
  have "cbs_bytes (cbs_view ?n c) = der (unat t) body" "cbs_wf (cbs_view ?n c)"
    using n assms(1,2) by (simp_all add: cbs_bytes_view cbs_wf_view)
  moreover have "?hl \<le> ?n" by (simp add: length_der)
  ultimately have skip: "CBS_skip (cbs_view ?n c) ?hl = (Some (), adv ?hl (cbs_view ?n c))" by (simp add: CBS_skip_eq)
  show ?thesis
    unfolding CBS_get_asn1_via_any CBS_get_any_asn1_def CBS_get_any_asn1_element_complete [OF t assms(3,1,2)] prod.case option.case skip by simp
qed

lemma works_implicit_chunks:
  "cbs_bytes c = concat (map (der (unat t)) chunks) \<Longrightarrow> cbs_wf c \<Longrightarrow> \<forall>x \<in> set chunks. length x < 2 ^ 32 \<Longrightarrow>
   works m a S [] (implicit_chunks m a c t) (Some (concat chunks)) []"
proof (induction chunks arbitrary: c)
  case Nil
  then have "implicit_chunks m a c t = succeed" by (intro ext) (subst implicit_chunks.simps, simp add: CBS_len_eq)
  then show ?case using works_succeed by simp
next
  case (Cons x chunks)
  have "cbs_bytes c = der (unat t) x @ concat (map (der (unat t)) chunks)" "length x < 2 ^ 32" using Cons.prems by simp_all
  from get_asn1_der [OF this(1) Cons.prems(2) this(2)] obtain out where
    get: "CBS_get_asn1 c t = (Some out, adv (length (der (unat t) x)) c)" "cbs_bytes out = x" "cbs_wf out" "CBS_len c > 0"
    and rest: "cbs_bytes (adv (length (der (unat t) x)) c) = concat (map (der (unat t)) chunks)" by blast
  let ?c = "adv (length (der (unat t) x)) c"
  have "implicit_chunks m a c t = andthen (CBB_add_bytes m a (CBS_data out) (CBS_len out)) (implicit_chunks m a ?c t)"
    using get by (intro ext) (subst implicit_chunks.simps, simp)
  moreover have "works m a S [] (CBB_add_bytes m a (CBS_data out) (CBS_len out)) (Some x) []"
    using works_add_bytes [of "CBS_len out" "CBS_data out" m a S] get(2,3)
    by (simp add: CBS_len_def CBS_data_def cbs_bytes_def cbs_wf_def)
  moreover have "works m a S [] (implicit_chunks m a ?c t) (Some (concat chunks)) []"
    using Cons.IH [OF rest] Cons.prems by simp
  ultimately show ?case using works_then by fastforce
qed

lemma implicit_string_primitive:
  assumes "cbs_bytes c = der (unat outer) body @ rest" "cbs_wf c" "length body < 2 ^ 32"
  shows "\<exists>out c'. CBS_get_asn1_implicit_string m a c outer inner h = Some (Some (out, None), c', h) \<and>
    cbs_data out = drop (length (der_header (unat outer) (length body))) (cbs_data c) \<and>
    cbs_bytes out = body \<and> cbs_wf out \<and> cbs_bytes c' = rest"
proof -
  from get_asn1_der [OF assms] obtain out where "CBS_get_asn1 c outer = (Some out, adv (length (der (unat outer) body)) c)"
    "cbs_bytes out = body" "cbs_wf out" "fst (parse_asn1_tag c) = Some outer" "CBS_len c > 0"
    "cbs_bytes (adv (length (der (unat outer) body)) c) = rest" by blast
  moreover from this(1) have "cbs_data out = drop (length (der_header (unat outer) (length body))) (cbs_data c)"
    by (auto simp: CBS_get_asn1_in_place [OF assms] adv_def cbs_view_def CBS_init_def)
  ultimately show ?thesis by (auto simp: CBS_get_asn1_implicit_string_def CBS_peek_asn1_tag_def)
qed

lemma implicit_string_constructed:
  fixes outer inner :: u32
  defines "contents \<equiv> \<lambda>chunks. concat (map (der (unat inner)) chunks)"
  assumes m: "\<forall>k n. m k n \<noteq> None" and outer: "outer AND CBS_ASN1_CONSTRUCTED = 0"
    and c: "cbs_bytes c = der (unat (outer OR CBS_ASN1_CONSTRUCTED)) (contents chunks) @ rest" "cbs_wf c"
    and len: "length (contents chunks) < 2 ^ 32" "cbs_len c < 2 ^ 62"
  shows "\<exists>d c' h'. CBS_get_asn1_implicit_string m a c outer inner h = Some (Some (CBS_init d (length (concat chunks)), Some d), c', h') \<and>
    cbs_bytes (CBS_init d (length (concat chunks))) = concat chunks \<and> cbs_wf (CBS_init d (length (concat chunks))) \<and> cbs_bytes c' = rest"
proof -
  let ?t = "outer OR CBS_ASN1_CONSTRUCTED" and ?c' = "adv (length (der (unat (outer OR CBS_ASN1_CONSTRUCTED)) (contents chunks))) c"
  from get_asn1_der [OF c len(1)] obtain child where
    get: "CBS_get_asn1 c ?t = (Some child, ?c')" "cbs_bytes child = contents chunks" "cbs_wf child"
      "fst (parse_asn1_tag c) = Some ?t" "cbs_bytes ?c' = rest" by blast
  have on: "?t AND CBS_ASN1_CONSTRUCTED = CBS_ASN1_CONSTRUCTED" by (simp add: bit.conj_disj_distrib2)
  have "outer \<noteq> ?t"
  proof
    assume "outer = ?t"
    then have "outer AND CBS_ASN1_CONSTRUCTED = CBS_ASN1_CONSTRUCTED" using on by metis
    then show False using outer by simp
  qed
  then have peek: "\<not> CBS_peek_asn1_tag c outer" using get(4) by (simp add: CBS_peek_asn1_tag_def)
  have le: "length x \<le> length (contents chunks)" if "x \<in> set chunks" for x
  proof -
    have "length x \<le> length (der (unat inner) x)" by (simp add: length_der)
    also have "\<dots> \<le> length (contents chunks)" using that by (simp add: contents_def length_concat member_le_sum_list)
    finally show ?thesis .
  qed
  have w: "works m a {} [] (implicit_chunks m a child inner) (Some (concat chunks)) []"
    using works_implicit_chunks [OF get(2) [unfolded contents_def] get(3)] le len(1) by force
  have "length (concat chunks) \<le> length (contents chunks)" unfolding contents_def by (induction chunks) (simp_all add: length_der)
  then have small: "length (concat chunks) < 2 ^ 32" using len(1) by simp
  have cap: "CBS_len c < 2 ^ 63" using len(2) by (simp add: CBS_len_def)
  have s: "map_option fst (CBS_get_asn1_implicit_string m a c outer inner h) =
      map_option (map_option (\<lambda>(d, n). (CBS_init d n, Some d))) (session m a (CBS_len c) (implicit_chunks m a child inner) h)"
    using peek get(1) by (auto simp: CBS_get_asn1_implicit_string_def session_def split: prod.splits bool.splits option.splits)
  obtain buf where "session m a (CBS_len c) (implicit_chunks m a child inner) h = Some (Some (buf, length (concat chunks @ [])))"
    "cbs_bytes (CBS_init buf (length (concat chunks @ []))) = concat chunks @ []" "cbs_wf (CBS_init buf (length (concat chunks @ [])))"
    using session_works [OF w _ m cap, of "[]" h] small by auto
  then show ?thesis
    using s get(5) get(1) peek
    by (auto simp: CBS_get_asn1_implicit_string_def split: prod.splits bool.splits option.splits)
qed

subsection \<open>Properties\<close>

text \<open>
  C32: \<open>CBS_asn1_ber_to_der\<close> returns on every input, whatever the bytes are and whatever
  allocation fails: neither the walk nor the conversion loops, and a result is a valid reader.
\<close>

theorem CBS_asn1_ber_to_der_returns:
  assumes "inj storage" "cbb \<notin> range storage" "cbs_wf c"
  shows "\<exists>r c' h'. CBS_asn1_ber_to_der m storage cbb c h = Some (r, c', h') \<and> (\<forall>out st. r = Some (out, st) \<longrightarrow> cbs_wf out)"
  by (rule ber_to_der_total [OF assms])

theorem CBS_asn1_ber_to_der_returns_witness:
  "\<exists>r c' h'. CBS_asn1_ber_to_der zero_alloc (\<lambda>d. d + 1) 0 (CBS_init [0x24, 0x80, 0, 0] 4) empty_heap = Some (r, c', h') \<and>
    (\<forall>out st. r = Some (out, st) \<longrightarrow> cbs_wf out)"
  by (rule CBS_asn1_ber_to_der_returns) (auto simp: inj_def cbs_wf_def CBS_init_def)

text \<open>
  What \<open>CBS_asn1_ber_to_der\<close> computes on any list of BER elements nested at most 2048 deep, with memory
  available, as a function of what its walk reports.
\<close>

lemma ber_to_der_computes:
  assumes "\<forall>k n. m k n \<noteq> None" "inj storage" "cbb \<notin> range storage"
    "ber_input c (x # xs)" "cbs_len c < 2 ^ 31" "those (map to_der (x # xs)) = Some ds" "length (concat ds) < 2 ^ 62"
  shows "\<exists>out st c' h'. CBS_asn1_ber_to_der m storage cbb c h = Some (Some (out, st), c', h') \<and> cbs_wf out \<and>
    (if reported (x # xs)
     then cbs_bytes out = concat ds \<and> cbs_bytes c' = [] \<and> st \<noteq> None
     else cbs_bytes out = enc x \<and> cbs_bytes c' = concat (map enc xs) \<and> st = None) \<and>
    ((\<forall>y \<in> set (x # xs). der_tree y) \<longrightarrow> \<not> reported (x # xs) \<and> enc x = ds ! 0)"
proof -
  have wf: "cbs_wf c" and b: "cbs_bytes c = enc x @ concat (map enc xs)" using assms(4) by (simp_all add: ber_input_def)
  have le: "length (enc x) \<le> length (cbs_bytes c)" using b by simp
  have main: "\<exists>out st c' h'. CBS_asn1_ber_to_der m storage cbb c h = Some (Some (out, st), c', h') \<and> cbs_wf out \<and>
    (if reported (x # xs) then cbs_bytes out = concat ds \<and> cbs_bytes c' = [] \<and> st \<noteq> None
     else cbs_bytes out = enc x \<and> cbs_bytes c' = concat (map enc xs) \<and> st = None)"
  proof (cases "reported (x # xs)")
    case True
    have "conv 0 (x # xs) = Some (concat ds)" using assms(6) by (simp add: conv_def)
    moreover have "cbs_len c < 2 ^ 63" using assms(5) by simp
    ultimately show ?thesis using ber_converted [OF assms(1-4) _ _ assms(7) True, of h] True by (metis option.distinct(1))
  next
    case False
    then show ?thesis
      using ber_unconverted [OF assms(4) False] wf b cbs_bytes_view [OF le] cbs_wf_view [OF wf le] by simp
  qed
  have "\<not> reported (x # xs) \<and> enc x = ds ! 0" if der: "\<forall>y \<in> set (x # xs). der_tree y"
  proof
    show "\<not> reported (x # xs)"
      using der not_deviates_if_der der_tree_reports unfolding reported_def by (metis last_in_set)
    have "length (enc x) \<le> 0xfffffffe" using le assms(5) length_cbs_bytes [OF wf] by auto
    then show "enc x = ds ! 0"
      using der_tree_to_der [of x] der assms(4,6) by (auto simp: ber_input_def split: option.splits)
  qed
  then show ?thesis using main by blast
qed

text \<open>An indefinite-length element or a constructed string, and an element in which the walk finds one.\<close>

fun ber_form :: "ber \<Rightarrow> bool" where
  "ber_form (Prim t k body) \<longleftrightarrow> False"
| "ber_form (Constr t (Some k) ys) \<longleftrightarrow> is_string_type t"
| "ber_form (Constr t None ys) \<longleftrightarrow> True"

function has_ber_form :: "ber \<Rightarrow> bool" where
  "has_ber_form x \<longleftrightarrow>
     ber_form x \<or> (\<exists>y \<in> set (inside x). ber_form y) \<or> (if inside x = [] then False else has_ber_form (last (inside x)))"
  by pat_completeness auto
termination by (relation "measure size") (simp_all add: size_inside_last)

declare has_ber_form.simps [simp del]

lemma ber_form_deviates: "ber_form x \<Longrightarrow> deviates x"
  by (cases x rule: ber_form.cases) simp_all

lemma has_ber_form_reports: "has_ber_form x \<Longrightarrow> reports x"
proof (induction x rule: has_ber_form.induct)
  case (1 x)
  then show ?case using ber_form_deviates
    by (subst reports.simps, subst (asm) (2) has_ber_form.simps) (auto split: if_splits)
qed

text \<open>
  C31: \<open>CBS_asn1_ber_to_der\<close> on valid BER nested at most 2048 deep, with memory available. If the input is one element, and
  the element, one of its children, or recursively its last child has an indefinite length or is a constructed string, the
  output is the DER encoding of the element, constructed strings joined, in a buffer the caller has to
  free, and the element is consumed. If the input is DER, the output is its first element as it is,
  pointing into the input, the storage is \<open>NULL\<close>, nothing is allocated and just that element is consumed; it is its own
  DER encoding.
\<close>

theorem CBS_asn1_ber_to_der_exact:
  assumes "\<forall>k n. m k n \<noteq> None" "inj storage" "cbb \<notin> range storage" "cbs_len c < 2 ^ 31"
  shows "(ber_input c [x] \<and> has_ber_form x \<and> to_der x = Some d \<and> length d < 2 ^ 62 \<longrightarrow>
      (\<exists>out st c' h'. CBS_asn1_ber_to_der m storage cbb c h = Some (Some (out, Some st), c', h') \<and>
        cbs_bytes out = d \<and> cbs_wf out \<and> cbs_bytes c' = [])) \<and>
    (ber_input c (x # xs) \<and> (\<forall>y \<in> set (x # xs). der_tree y) \<longrightarrow>
      CBS_asn1_ber_to_der m storage cbb c h = Some (Some (cbs_view (length (enc x)) c, None), adv (length (enc x)) c, h) \<and>
      cbs_bytes (cbs_view (length (enc x)) c) = enc x \<and> to_der x = Some (enc x))"
proof (intro conjI impI)
  assume x: "ber_input c [x] \<and> has_ber_form x \<and> to_der x = Some d \<and> length d < 2 ^ 62"
  have "reported [x]" using x has_ber_form_reports by (simp add: reported_def)
  moreover have "conv 0 [x] = Some d" using x by (simp add: conv_def)
  moreover have "cbs_len c < 2 ^ 63" using assms(4) by simp
  ultimately obtain out st c' h' where "CBS_asn1_ber_to_der m storage cbb c h = Some (Some (out, Some st), c', h')"
      "cbs_bytes out = d" "cbs_wf out" "cbs_bytes c' = []"
    using ber_converted [OF assms(1-3)] x by metis
  then show "\<exists>out st c' h'. CBS_asn1_ber_to_der m storage cbb c h = Some (Some (out, Some st), c', h') \<and>
      cbs_bytes out = d \<and> cbs_wf out \<and> cbs_bytes c' = []" by blast
next
  assume x: "ber_input c (x # xs) \<and> (\<forall>y \<in> set (x # xs). der_tree y)"
  then have wf: "cbs_wf c" and b: "cbs_bytes c = enc x @ concat (map enc xs)" by (simp_all add: ber_input_def)
  have "\<not> reported (x # xs)" using x not_deviates_if_der der_tree_reports unfolding reported_def by (metis last_in_set)
  then show "CBS_asn1_ber_to_der m storage cbb c h = Some (Some (cbs_view (length (enc x)) c, None), adv (length (enc x)) c, h)"
    using ber_unconverted x by blast
  have le: "length (enc x) \<le> length (cbs_bytes c)" using b by simp
  then show "cbs_bytes (cbs_view (length (enc x)) c) = enc x" using b by (simp add: cbs_bytes_view)
  have "length (enc x) \<le> 0xfffffffe" using le assms(4) length_cbs_bytes [OF wf] by auto
  then show "to_der x = Some (enc x)" using der_tree_to_der [of x] x by (auto simp: ber_input_def)
qed

text \<open>A constructed OCTET STRING of two pieces in an indefinite-length SEQUENCE.\<close>

definition ber_example :: ber where
  "ber_example = Constr 0x20000010 None [Constr 0x20000004 (Some 0) [Prim 4 0 [0x41], Prim 4 1 [0x42]]]"

lemmas ber_eval = der_opt_def der_def der_header_def tag_bytes_def len_bytes_def len_form_def form_ok_def is_string_type_def nonminimal_def

lemma ber_example_der: "those (map to_der [ber_example]) = Some [[0x30, 4, 4, 2, 0x41, 0x42]]"
  by (simp add: ber_example_def ber_eval)

lemma ber_example_enc: "enc ber_example = [0x30, 0x80, 0x24, 7, 4, 1, 0x41, 4, 0x81, 1, 0x42, 0, 0]"
  by (simp add: ber_example_def ber_eval)

theorem CBS_asn1_ber_to_der_exact_witness:
  "\<exists>out st c' h'. CBS_asn1_ber_to_der zero_alloc (\<lambda>d. d + 1) 0 (CBS_init (enc ber_example) 13) empty_heap = Some (Some (out, Some st), c', h') \<and>
    cbs_bytes out = [0x30, 4, 4, 2, 0x41, 0x42] \<and> cbs_bytes c' = []"
proof -
  have i: "ber_input (CBS_init (enc ber_example) 13) [ber_example]"
    by (simp add: ber_input_def ber_example_enc cbs_wf_def cbs_bytes_def CBS_init_def)
       (simp add: ber_example_def ber_eval kMaxDepth_def)
  have r: "has_ber_form ber_example" by (subst has_ber_form.simps) (simp add: ber_example_def)
  have d: "to_der ber_example = Some [0x30, 4, 4, 2, 0x41, 0x42]" using ber_example_der by (simp split: option.splits)
  have "inj (\<lambda>d :: nat. d + 1)" "0 \<notin> range (\<lambda>d :: nat. d + 1)" by (auto simp: inj_def)
  moreover have "cbs_len (CBS_init (enc ber_example) 13) < 2 ^ 31" by (simp add: CBS_init_def)
  moreover have "length [0x30 :: byte, 4, 4, 2, 0x41, 0x42] < 2 ^ 62" by simp
  ultimately show ?thesis
    using CBS_asn1_ber_to_der_exact [OF zero_alloc_ok, THEN conjunct1, THEN mp, OF _ _ _ conjI [OF i conjI [OF r conjI [OF d]]]] by blast
qed

text \<open>BER inside an element that is followed by a sibling.\<close>

definition missed_ber :: ber where
  "missed_ber = Constr 0x20000010 (Some 0)
     [Constr 0x20000010 (Some 0) [Constr 0x20000004 (Some 0) [Prim 4 0 [0x41]]], Prim 5 0 []]"

text \<open>
  A constructed string can escape the conversion. In the SEQUENCE
  of a SEQUENCE that holds a constructed OCTET STRING and of a NULL, the walk finds the string,
  but the NULL behind it resets the flag: whatever the allocator, the input is handed out
  unchanged as if it were DER, although its DER encoding is shorter.
\<close>

theorem nested_ber_missed:
  "\<exists>out c'. CBS_asn1_ber_to_der m storage cbb (CBS_init (enc missed_ber) 11) h = Some (Some (out, None), c', h) \<and>
    cbs_bytes out = enc missed_ber \<and>
    enc missed_ber = [0x30, 9, 0x30, 5, 0x24, 3, 4, 1, 0x41, 5, 0] \<and>
    to_der missed_ber = Some [0x30, 7, 0x30, 3, 4, 1, 0x41, 5, 0]"
proof -
  have e: "enc missed_ber = [0x30, 9, 0x30, 5, 0x24, 3, 4, 1, 0x41, 5, 0]" by (simp add: missed_ber_def ber_eval)
  have i: "ber_input (CBS_init (enc missed_ber) 11) [missed_ber]"
    by (simp add: ber_input_def e cbs_wf_def cbs_bytes_def CBS_init_def) (simp add: missed_ber_def ber_eval kMaxDepth_def)
  have "\<not> reported [missed_ber]"
    by (simp add: reported_def missed_ber_def ber_eval reports.simps [of "Constr _ _ _"] reports_prim)
  from ber_unconverted [OF i this, of m storage cbb h] e show ?thesis
    by (simp add: cbs_bytes_view CBS_init_def cbs_bytes_def cbs_view_def) (simp add: missed_ber_def ber_eval)
qed

text \<open>
  C33: \<open>CBS_get_asn1_implicit_string\<close> reads both forms of an implicitly tagged string and tells the caller
  whether there is a buffer to free. For a primitive element the output points at its contents inside the input,
  the storage is \<open>NULL\<close> and nothing is allocated; for a constructed one the output is the
  concatenation of its pieces in a buffer that is handed over as the storage. The reader ends up behind the element.
\<close>

theorem CBS_get_asn1_implicit_string_value:
  fixes outer inner :: u32
  assumes "\<forall>k n. m k n \<noteq> None" "outer AND CBS_ASN1_CONSTRUCTED = 0" "cbs_wf c" "cbs_len c < 2 ^ 62" "length contents < 2 ^ 32"
  shows "(cbs_bytes c = der (unat outer) contents @ rest \<longrightarrow>
      (\<exists>out c'. CBS_get_asn1_implicit_string m a c outer inner h = Some (Some (out, None), c', h) \<and>
        cbs_data out = drop (length (der_header (unat outer) (length contents))) (cbs_data c) \<and>
        cbs_bytes out = contents \<and> cbs_wf out \<and> cbs_bytes c' = rest)) \<and>
    (cbs_bytes c = der (unat (outer OR CBS_ASN1_CONSTRUCTED)) contents @ rest \<and> contents = concat (map (der (unat inner)) chunks) \<longrightarrow>
      (\<exists>d c' h'. CBS_get_asn1_implicit_string m a c outer inner h = Some (Some (CBS_init d (length (concat chunks)), Some d), c', h') \<and>
        cbs_bytes (CBS_init d (length (concat chunks))) = concat chunks \<and> cbs_wf (CBS_init d (length (concat chunks))) \<and> cbs_bytes c' = rest))"
  using implicit_string_primitive [OF _ assms(3,5), of outer rest m a inner h]
    implicit_string_constructed [OF assms(1,2) _ assms(3) _ assms(4), of inner chunks rest a h] assms(5) by blast

theorem CBS_get_asn1_implicit_string_value_witness:
  "(\<exists>out c'. CBS_get_asn1_implicit_string zero_alloc 2 (CBS_init [0x80, 1, 0x41] 3) 0x80000000 4 empty_heap = Some (Some (out, None), c', empty_heap) \<and>
      cbs_data out = [0x41]) \<and>
   (\<exists>d c' h'. CBS_get_asn1_implicit_string zero_alloc 2 (CBS_init [0xa0, 6, 4, 1, 0x41, 4, 1, 0x42] 8) 0x80000000 4 empty_heap =
      Some (Some (CBS_init d 2, Some d), c', h') \<and> cbs_bytes (CBS_init d 2) = [0x41, 0x42] \<and> cbs_bytes c' = [])"
proof
  show "\<exists>out c'. CBS_get_asn1_implicit_string zero_alloc 2 (CBS_init [0x80, 1, 0x41] 3) 0x80000000 4 empty_heap = Some (Some (out, None), c', empty_heap) \<and>
      cbs_data out = [0x41]"
    using CBS_get_asn1_implicit_string_value [OF zero_alloc_ok, of "0x80000000" "CBS_init [0x80, 1, 0x41] 3" "[0x41]" "[]" 2 4 empty_heap]
    by (auto simp: cbs_wf_def cbs_bytes_def CBS_init_def ber_eval)
  have "length (concat [[0x41 :: byte], [0x42]]) = 2" by simp
  then show "\<exists>d c' h'. CBS_get_asn1_implicit_string zero_alloc 2 (CBS_init [0xa0, 6, 4, 1, 0x41, 4, 1, 0x42] 8) 0x80000000 4 empty_heap =
      Some (Some (CBS_init d 2, Some d), c', h') \<and> cbs_bytes (CBS_init d 2) = [0x41, 0x42] \<and> cbs_bytes c' = []"
    using CBS_get_asn1_implicit_string_value [OF zero_alloc_ok, of "0x80000000" "CBS_init [0xa0, 6, 4, 1, 0x41, 4, 1, 0x42] 8" "[4, 1, 0x41, 4, 1, 0x42]"
        "[]" 2 4 empty_heap "[[0x41], [0x42]]"]
    by (auto simp: cbs_wf_def cbs_bytes_def CBS_init_def ber_eval) (simp_all add: numeral_2_eq_2)
qed

end
