(* ===== verification/Refcount.thy ===== *)
theory Refcount
  imports Prelude
begin

text \<open>
  Reference counts: \<open>crypto/refcount_c11.c\<close>, two compare-and-swap loops on an atomic counter, and
  \<open>crypto/refcount_lock.c\<close>, the same functions under a lock. The C11 functions are taken apart
  into their atomic accesses; \<open>act\<close> runs one of them in one of several threads, so a list of
  actions is an interleaving, spurious failures of the weak compare-and-swap included. The
  threads follow the discipline of the callers: a thread increments or decrements only while it
  owns a reference, and the thread whose decrement reports zero destroys the object.
\<close>

subsection \<open>The functions\<close>

abbreviation CRYPTO_REFCOUNT_MAX :: u32 where "CRYPTO_REFCOUNT_MAX \<equiv> 0xffffffff"

text \<open>Success, the new value of the counter, and that of the variable with the expected value.\<close>

definition atomic_compare_exchange_weak :: "bool \<Rightarrow> u32 \<Rightarrow> u32 \<Rightarrow> u32 \<Rightarrow> bool \<times> u32 \<times> u32" where
  "atomic_compare_exchange_weak spurious count expected new_value =
     (if count = expected \<and> \<not> spurious then (True, new_value, expected) else (False, count, count))"

datatype 'a outcome = Return 'a | Retry u32 | Abort

text \<open>One round of each loop, entered with a value of \<open>expected\<close>: the counter and what happens next.\<close>

definition refcount_inc_round :: "bool \<Rightarrow> u32 \<Rightarrow> u32 \<Rightarrow> u32 \<times> unit outcome" where
  "refcount_inc_round spurious count expected =
     (if expected \<noteq> CRYPTO_REFCOUNT_MAX then
        (let new_value = expected + 1
         in case atomic_compare_exchange_weak spurious count expected new_value of
              (ok, count', expected') \<Rightarrow> (count', if ok then Return () else Retry expected'))
      else (count, Return ()))"

definition refcount_dec_round :: "bool \<Rightarrow> u32 \<Rightarrow> u32 \<Rightarrow> u32 \<times> bool outcome" where
  "refcount_dec_round spurious count expected =
     (if expected = 0 then (count, Abort)
      else if expected = CRYPTO_REFCOUNT_MAX then (count, Return False)
      else
        (let new_value = expected - 1
         in case atomic_compare_exchange_weak spurious count expected new_value of
              (ok, count', expected') \<Rightarrow> (count', if ok then Return (new_value = 0) else Retry expected')))"

text \<open>The versions under the lock: the counter after the call, \<open>None\<close> for \<open>abort\<close>.\<close>

definition refcount_lock_inc :: "u32 \<Rightarrow> u32" where
  "refcount_lock_inc count = (if count < CRYPTO_REFCOUNT_MAX then count + 1 else count)"

definition refcount_lock_dec :: "u32 \<Rightarrow> (u32 \<times> bool) option" where
  "refcount_lock_dec count =
     (if count = 0 then None
      else (let count' = (if count < CRYPTO_REFCOUNT_MAX then count - 1 else count) in Some (count', count' = 0)))"

subsection \<open>Threads\<close>

datatype pc = Idle | Incrementing u32 | Decrementing u32 | Aborted

record thread =
  held :: nat
  pc :: pc

record system =
  count :: u32
  threads :: "thread list"
  destroyed :: nat

datatype action = Start_inc nat | Round_inc nat bool | Start_dec nat | Round_dec nat bool | Hand_over nat nat

text \<open>The atomic load that starts a call, one round of its loop, and passing a reference on.\<close>

abbreviation set_thread :: "nat \<Rightarrow> thread \<Rightarrow> system \<Rightarrow> system" where
  "set_thread i t s \<equiv> s\<lparr>threads := (threads s)[i := t]\<rparr>"

definition owner :: "system \<Rightarrow> nat \<Rightarrow> bool" where
  "owner s i \<longleftrightarrow> i < length (threads s) \<and> pc (threads s ! i) = Idle \<and> 0 < held (threads s ! i)"

fun act :: "action \<Rightarrow> system \<Rightarrow> system option" where
  "act (Start_inc i) s =
     (if owner s i then Some (set_thread i ((threads s ! i)\<lparr>pc := Incrementing (count s)\<rparr>) s) else None)"
| "act (Start_dec i) s =
     (if owner s i
      then Some (set_thread i ((threads s ! i)\<lparr>held := held (threads s ! i) - 1, pc := Decrementing (count s)\<rparr>) s)
      else None)"
| "act (Hand_over i j) s =
     (if owner s i \<and> j < length (threads s) \<and> i \<noteq> j
      then Some (set_thread j ((threads s ! j)\<lparr>held := held (threads s ! j) + 1\<rparr>)
                  (set_thread i ((threads s ! i)\<lparr>held := held (threads s ! i) - 1\<rparr>) s))
      else None)"
| "act (Round_inc i spurious) s =
     (if i < length (threads s)
      then (case pc (threads s ! i) of
              Incrementing expected \<Rightarrow>
                (case refcount_inc_round spurious (count s) expected of
                   (c, Return _) \<Rightarrow> Some (set_thread i ((threads s ! i)\<lparr>pc := Idle, held := held (threads s ! i) + 1\<rparr>) (s\<lparr>count := c\<rparr>))
                 | (c, Retry e) \<Rightarrow> Some (set_thread i ((threads s ! i)\<lparr>pc := Incrementing e\<rparr>) (s\<lparr>count := c\<rparr>))
                 | (c, Abort) \<Rightarrow> Some (set_thread i ((threads s ! i)\<lparr>pc := Aborted\<rparr>) (s\<lparr>count := c\<rparr>)))
            | _ \<Rightarrow> None)
      else None)"
| "act (Round_dec i spurious) s =
     (if i < length (threads s)
      then (case pc (threads s ! i) of
              Decrementing expected \<Rightarrow>
                (case refcount_dec_round spurious (count s) expected of
                   (c, Return z) \<Rightarrow> Some (set_thread i ((threads s ! i)\<lparr>pc := Idle\<rparr>)
                                     (s\<lparr>count := c, destroyed := destroyed s + (if z then 1 else 0)\<rparr>))
                 | (c, Retry e) \<Rightarrow> Some (set_thread i ((threads s ! i)\<lparr>pc := Decrementing e\<rparr>) (s\<lparr>count := c\<rparr>))
                 | (c, Abort) \<Rightarrow> Some (set_thread i ((threads s ! i)\<lparr>pc := Aborted\<rparr>) (s\<lparr>count := c\<rparr>)))
            | _ \<Rightarrow> None)
      else None)"

definition new_object :: "nat \<Rightarrow> system" where
  "new_object n = \<lparr>count = 1, threads = \<lparr>held = 1, pc = Idle\<rparr> # replicate n \<lparr>held = 0, pc = Idle\<rparr>, destroyed = 0\<rparr>"

inductive reachable :: "system \<Rightarrow> bool" where
  start: "reachable (new_object n)"
| step: "reachable s \<Longrightarrow> act a s = Some s' \<Longrightarrow> reachable s'"

subsection \<open>The invariant\<close>

text \<open>The references a thread accounts for: those it holds and the one it is giving up.\<close>

definition refs :: "thread \<Rightarrow> nat" where
  "refs t = held t + (case pc t of Decrementing _ \<Rightarrow> 1 | _ \<Rightarrow> 0)"

definition total_refs :: "system \<Rightarrow> nat" where
  "total_refs s = sum_list (map refs (threads s))"

definition thread_ok :: "u32 \<Rightarrow> thread \<Rightarrow> bool" where
  "thread_ok c t \<longleftrightarrow>
     (case pc t of
        Idle \<Rightarrow> True
      | Incrementing e \<Rightarrow> 0 < held t \<and> (e = CRYPTO_REFCOUNT_MAX \<longrightarrow> c = CRYPTO_REFCOUNT_MAX)
      | Decrementing e \<Rightarrow> e \<noteq> 0 \<and> (e = CRYPTO_REFCOUNT_MAX \<longrightarrow> c = CRYPTO_REFCOUNT_MAX)
      | Aborted \<Rightarrow> False)"

definition refcount_inv :: "system \<Rightarrow> bool" where
  "refcount_inv s \<longleftrightarrow>
     (count s \<noteq> CRYPTO_REFCOUNT_MAX \<longrightarrow> unat (count s) = total_refs s) \<and>
     (\<forall>t \<in> set (threads s). thread_ok (count s) t) \<and>
     destroyed s = (if count s = 0 then 1 else 0)"

lemma total_refs_update:
  assumes "i < length ts"
  shows "sum_list (map refs (ts[i := t])) + refs (ts ! i) = sum_list (map refs ts) + refs t"
  using assms
proof (induction ts arbitrary: i)
  case (Cons x ts)
  then show ?case by (cases i) auto
qed simp

lemma total_refs_ge: "i < length (threads s) \<Longrightarrow> refs (threads s ! i) \<le> total_refs s"
  unfolding total_refs_def by (rule member_le_sum_list) simp_all

lemma inv_new_object: "refcount_inv (new_object n)"
  by (auto simp: refcount_inv_def new_object_def total_refs_def refs_def thread_ok_def sum_list_replicate)

lemma inv_count_pos:
  assumes "refcount_inv s" "i < length (threads s)" "0 < refs (threads s ! i)"
  shows "count s \<noteq> 0"
  using assms total_refs_ge [OF assms(2)] by (auto simp: refcount_inv_def)

lemma inv_set_thread:
  assumes inv: "refcount_inv s" and i: "i < length (threads s)" and ok: "thread_ok c t"
    and mono: "count s = CRYPTO_REFCOUNT_MAX \<longrightarrow> c = CRYPTO_REFCOUNT_MAX"
    and sum: "c \<noteq> CRYPTO_REFCOUNT_MAX \<Longrightarrow> unat c + refs (threads s ! i) = unat (count s) + refs t"
    and d: "d = (if c = 0 then 1 else 0)"
  shows "refcount_inv (set_thread i t (s\<lparr>count := c, destroyed := d\<rparr>))"
proof -
  have "thread_ok c u" if "u \<in> set ((threads s)[i := t])" for u
  proof -
    from that have "u = t \<or> u \<in> set (threads s)" using set_update_subset_insert by fastforce
    then show ?thesis using ok inv mono by (auto simp: refcount_inv_def thread_ok_def split: pc.splits)
  qed
  moreover have "unat c = sum_list (map refs ((threads s)[i := t]))" if "c \<noteq> CRYPTO_REFCOUNT_MAX"
  proof -
    have "unat (count s) = total_refs s" using inv mono that by (auto simp: refcount_inv_def)
    then show ?thesis using sum [OF that] total_refs_update [OF i, of t] by (simp add: total_refs_def)
  qed
  ultimately show ?thesis using d by (simp add: refcount_inv_def total_refs_def)
qed

lemma thread_ok_nth: "refcount_inv s \<Longrightarrow> i < length (threads s) \<Longrightarrow> thread_ok (count s) (threads s ! i)"
  by (simp add: refcount_inv_def)

text \<open>The rounds of the loops, by outcome, in a state with the invariant.\<close>

lemma below_max: "c < CRYPTO_REFCOUNT_MAX \<longleftrightarrow> c \<noteq> CRYPTO_REFCOUNT_MAX" for c :: u32
proof
  assume "c \<noteq> CRYPTO_REFCOUNT_MAX"
  then have "unat c \<noteq> unat CRYPTO_REFCOUNT_MAX" by (metis unsigned_word_eqI)
  moreover have "unat c < 2 ^ 32" using unsigned_less [of c, where ?'a = nat] by simp
  ultimately show "c < CRYPTO_REFCOUNT_MAX" by (simp add: word_less_nat_alt)
qed simp

lemma inc_round_cases:
  assumes "refcount_inc_round sp c e = (c', r)" "e = CRYPTO_REFCOUNT_MAX \<longrightarrow> c = CRYPTO_REFCOUNT_MAX"
  obtains (saturated) "c = CRYPTO_REFCOUNT_MAX" "c' = c" "r = Return ()"
  | (incremented) "c \<noteq> CRYPTO_REFCOUNT_MAX" "c' = c + 1" "unat c' = unat c + 1" "r = Return ()"
  | (again) "c' = c" "r = Retry c" "sp \<or> c \<noteq> e"
proof (cases "e = CRYPTO_REFCOUNT_MAX")
  case True
  then show thesis using assms saturated by (simp add: refcount_inc_round_def)
next
  case False
  show thesis
  proof (cases "c = e \<and> \<not> sp")
    case True
    have "unat c \<noteq> unat CRYPTO_REFCOUNT_MAX" using False True by (metis unsigned_word_eqI)
    moreover have "unat c < 2 ^ 32" using unsigned_less [of c, where ?'a = nat] by simp
    ultimately have "unat (c + 1) = unat c + 1" by (simp add: unat_word_ariths)
    then show thesis using assms(1) False True incremented
      by (simp add: refcount_inc_round_def atomic_compare_exchange_weak_def Let_def)
  next
    case neq: False
    then show thesis using assms(1) False again
      by (auto simp: refcount_inc_round_def atomic_compare_exchange_weak_def Let_def split: if_splits)
  qed
qed

lemma dec_round_cases:
  assumes "refcount_dec_round sp c e = (c', r)" "e = CRYPTO_REFCOUNT_MAX \<longrightarrow> c = CRYPTO_REFCOUNT_MAX" "e \<noteq> 0"
  obtains (saturated) "c = CRYPTO_REFCOUNT_MAX" "c' = c" "r = Return False"
  | (decremented) "c \<noteq> CRYPTO_REFCOUNT_MAX" "c \<noteq> 0" "c' = c - 1" "unat c = unat c' + 1" "r = Return (c' = 0)"
  | (again) "c' = c" "r = Retry c" "sp \<or> c \<noteq> e"
proof (cases "e = CRYPTO_REFCOUNT_MAX")
  case True
  then show thesis using assms saturated by (simp add: refcount_dec_round_def)
next
  case False
  show thesis
  proof (cases "c = e \<and> \<not> sp")
    case True
    then have "unat c \<noteq> 0" using assms(3) by (simp add: unat_eq_zero)
    then have "unat (c - 1) = unat c - 1" by (subst unat_sub) (simp_all add: word_le_nat_alt)
    then have "unat c = unat (c - 1) + 1" using \<open>unat c \<noteq> 0\<close> by simp
    moreover have "c' = c - 1" "r = Return (c - 1 = 0)"
      using assms(1,3) False True by (auto simp: refcount_dec_round_def atomic_compare_exchange_weak_def Let_def)
    ultimately show thesis using assms(3) False True by (intro decremented) simp_all
  next
    case neq: False
    then show thesis using assms(1,3) False again
      by (auto simp: refcount_dec_round_def atomic_compare_exchange_weak_def Let_def split: if_splits)
  qed
qed

lemma inv_Round_inc:
  assumes inv: "refcount_inv s" and a: "act (Round_inc i sp) s = Some s'"
  shows "refcount_inv s'"
proof -
  obtain e where i: "i < length (threads s)" "pc (threads s ! i) = Incrementing e" using a by (auto split: if_splits pc.splits)
  obtain c r where r: "refcount_inc_round sp (count s) e = (c, r)" by (cases "refcount_inc_round sp (count s) e")
  have e: "e = CRYPTO_REFCOUNT_MAX \<longrightarrow> count s = CRYPTO_REFCOUNT_MAX" "0 < held (threads s ! i)"
    using thread_ok_nth [OF inv i(1)] i(2) by (simp_all add: thread_ok_def)
  have c0: "count s \<noteq> 0" using inv_count_pos [OF inv i(1)] e(2) by (simp add: refs_def)
  have d: "destroyed s = 0" using inv c0 by (simp add: refcount_inv_def)
  have same: "s\<lparr>count := k\<rparr> = s\<lparr>count := k, destroyed := 0\<rparr>" for k using d by (cases s) simp
  note set = inv_set_thread [OF inv i(1), where d = 0, folded same]
  from r e(1) show ?thesis
  proof (cases rule: inc_round_cases)
    case saturated
    then show ?thesis using a i r c0 set [of c "(threads s ! i)\<lparr>pc := Idle, held := held (threads s ! i) + 1\<rparr>"]
      by (auto simp: thread_ok_def)
  next
    case incremented
    then have "c \<noteq> 0" by (metis add_eq_0_iff_both_eq_0 unsigned_0 zero_neq_one)
    then show ?thesis using incremented a i r set [of c "(threads s ! i)\<lparr>pc := Idle, held := held (threads s ! i) + 1\<rparr>"]
      by (auto simp: thread_ok_def refs_def)
  next
    case again
    then show ?thesis using a i r c0 e(2) set [of c "(threads s ! i)\<lparr>pc := Incrementing c\<rparr>"]
      by (auto simp: thread_ok_def refs_def)
  qed
qed

lemma inv_Round_dec:
  assumes inv: "refcount_inv s" and a: "act (Round_dec i sp) s = Some s'"
  shows "refcount_inv s'"
proof -
  obtain e where i: "i < length (threads s)" "pc (threads s ! i) = Decrementing e" using a by (auto split: if_splits pc.splits)
  obtain c r where r: "refcount_dec_round sp (count s) e = (c, r)" by (cases "refcount_dec_round sp (count s) e")
  have e: "e = CRYPTO_REFCOUNT_MAX \<longrightarrow> count s = CRYPTO_REFCOUNT_MAX" "e \<noteq> 0"
    using thread_ok_nth [OF inv i(1)] i(2) by (simp_all add: thread_ok_def)
  have c0: "count s \<noteq> 0" using inv_count_pos [OF inv i(1)] i(2) by (simp add: refs_def)
  have d: "destroyed s = 0" using inv c0 by (simp add: refcount_inv_def)
  have same: "s\<lparr>count := k\<rparr> = s\<lparr>count := k, destroyed := 0\<rparr>" for k using d by (cases s) simp
  note set = inv_set_thread [OF inv i(1)]
  from r e show ?thesis
  proof (cases rule: dec_round_cases)
    case saturated
    then show ?thesis using a i r c0 d set [of c "(threads s ! i)\<lparr>pc := Idle\<rparr>" 0] by (auto simp: thread_ok_def)
  next
    case decremented
    then show ?thesis using a i r d set [of c "(threads s ! i)\<lparr>pc := Idle\<rparr>" "if c = 0 then 1 else 0"]
      by (auto simp: thread_ok_def refs_def)
  next
    case again
    then show ?thesis using a i r c0 set [of c "(threads s ! i)\<lparr>pc := Decrementing c\<rparr>" 0, folded same]
      by (auto simp: thread_ok_def refs_def)
  qed
qed

lemma inv_same_count:
  assumes "refcount_inv s" "i < length (threads s)" "thread_ok (count s) t" "refs t = refs (threads s ! i)"
  shows "refcount_inv (set_thread i t s)"
proof -
  have "s\<lparr>count := count s, destroyed := if count s = 0 then 1 else 0\<rparr> = s" using assms(1) by (cases s) (simp add: refcount_inv_def)
  then show ?thesis
    using inv_set_thread [OF assms(1-3), of "if count s = 0 then 1 else 0"] assms(4) by simp
qed

lemma inv_act: "refcount_inv s \<Longrightarrow> act a s = Some s' \<Longrightarrow> refcount_inv s'"
proof (cases a)
  case (Start_inc i)
  assume "refcount_inv s" "act a s = Some s'"
  then show ?thesis
    using Start_inc inv_same_count [of s i "(threads s ! i)\<lparr>pc := Incrementing (count s)\<rparr>"]
    by (auto simp: owner_def thread_ok_def refs_def split: if_splits)
next
  case (Start_dec i)
  assume a: "refcount_inv s" "act a s = Some s'"
  then have "owner s i" using Start_dec by (auto split: if_splits)
  then show ?thesis
    using a Start_dec inv_same_count [of s i "(threads s ! i)\<lparr>held := held (threads s ! i) - 1, pc := Decrementing (count s)\<rparr>"]
      inv_count_pos [of s i]
    by (auto simp: owner_def thread_ok_def refs_def)
next
  case (Hand_over i j)
  assume inv: "refcount_inv s" and a: "act a s = Some s'"
  let ?u = "(threads s ! i)\<lparr>held := held (threads s ! i) - 1\<rparr>" and ?v = "(threads s ! j)\<lparr>held := held (threads s ! j) + 1\<rparr>"
  have ij: "owner s i" "j < length (threads s)" "i \<noteq> j" "s' = set_thread j ?v (set_thread i ?u s)"
    using a Hand_over by (auto split: if_splits)
  have "sum_list (map refs ((threads s)[i := ?u])) + 1 = total_refs s"
    using total_refs_update [of i "threads s" ?u] ij(1) by (auto simp: owner_def refs_def total_refs_def)
  moreover have "sum_list (map refs ((threads s)[i := ?u, j := ?v])) = sum_list (map refs ((threads s)[i := ?u])) + 1"
    using total_refs_update [of j "(threads s)[i := ?u]" ?v] ij(2,3) by (simp add: refs_def)
  ultimately have t: "total_refs s' = total_refs s" using ij(4) by (simp add: total_refs_def)
  have "thread_ok (count s) x" if "x \<in> set (threads s')" for x
  proof -
    have "x = ?v \<or> x = ?u \<or> x \<in> set (threads s)" using that ij(4) set_update_subset_insert [of "(threads s)[i := ?u]" j ?v]
        set_update_subset_insert [of "threads s" i ?u] by auto
    moreover have "thread_ok (count s) ?v" "thread_ok (count s) ?u"
      using thread_ok_nth [OF inv ij(2)] ij(1) by (auto simp: thread_ok_def owner_def split: pc.splits)
    ultimately show ?thesis using inv by (auto simp: refcount_inv_def)
  qed
  then show ?thesis using inv t ij(4) by (simp add: refcount_inv_def)
qed (use inv_Round_inc inv_Round_dec in blast)+

lemma refcount_reachable: "reachable s \<Longrightarrow> refcount_inv s"
  by (induction rule: reachable.induct) (auto intro: inv_new_object inv_act)

subsection \<open>Properties\<close>

text \<open>
  C34: Under every interleaving of any number of threads the counter does what it is for. No
  call aborts; the object is destroyed at most once, and then no thread holds a reference or is
  inside a call; unless the counter has reached its maximum it is the number of references, and
  the object is destroyed as soon as that number is zero. At the maximum it is never destroyed.
\<close>

theorem refcount_safe:
  assumes "reachable s"
  shows "(\<forall>t \<in> set (threads s). pc t \<noteq> Aborted) \<and> destroyed s \<le> 1 \<and>
    (destroyed s = 1 \<longrightarrow> (\<forall>t \<in> set (threads s). held t = 0 \<and> pc t = Idle)) \<and>
    (if count s = CRYPTO_REFCOUNT_MAX then destroyed s = 0
     else unat (count s) = total_refs s \<and> (destroyed s = 1 \<longleftrightarrow> total_refs s = 0))"
proof -
  note inv = refcount_reachable [OF assms]
  have "unat (count s) = 0 \<longleftrightarrow> count s = 0" by (simp add: unat_eq_zero)
  then have d: "destroyed s = 1 \<longleftrightarrow> count s = 0" "count s \<noteq> CRYPTO_REFCOUNT_MAX \<Longrightarrow> count s = 0 \<longleftrightarrow> total_refs s = 0"
    using inv by (auto simp: refcount_inv_def)
  have "held t = 0 \<and> pc t = Idle" if zero: "count s = 0" and t: "t \<in> set (threads s)" for t
  proof -
    obtain i where i: "i < length (threads s)" "t = threads s ! i" using t by (auto simp: in_set_conv_nth)
    have "refs t = 0" using inv_count_pos [OF inv i(1)] zero i(2) by auto
    then show ?thesis using thread_ok_nth [OF inv i(1)] i(2) by (auto simp: refs_def thread_ok_def split: pc.splits)
  qed
  moreover have "pc t \<noteq> Aborted" if "t \<in> set (threads s)" for t
    using inv that by (auto simp: refcount_inv_def thread_ok_def split: pc.splits)
  ultimately show ?thesis using d inv by (auto simp: refcount_inv_def)
qed

lemma reachable_example: "reachable \<lparr>count = 2, threads = [\<lparr>held = 2, pc = Idle\<rparr>, \<lparr>held = 0, pc = Idle\<rparr>], destroyed = 0\<rparr>"
proof -
  have "reachable (new_object 1)" by (rule reachable.start)
  then have "reachable \<lparr>count = 1, threads = [\<lparr>held = 1, pc = Incrementing 1\<rparr>, \<lparr>held = 0, pc = Idle\<rparr>], destroyed = 0\<rparr>"
    by (rule reachable.step [where a = "Start_inc 0"]) (simp add: new_object_def owner_def)
  then show ?thesis
    by (rule reachable.step [where a = "Round_inc 0 False"])
       (simp add: refcount_inc_round_def atomic_compare_exchange_weak_def Let_def)
qed

theorem refcount_safe_witness:
  "\<exists>s. reachable s \<and> count s = 2 \<and> total_refs s = 2 \<and> destroyed s = 0"
  using refcount_safe [OF reachable_example] reachable_example by force

text \<open>A round of either loop against the locked functions.\<close>

lemma round_inc_linear:
  assumes "refcount_inv s" "i < length (threads s)" "pc (threads s ! i) = Incrementing e"
  shows "\<exists>s'. act (Round_inc i sp) s = Some s' \<and>
      (pc (threads s' ! i) = Idle \<and> count s' = refcount_lock_inc (count s) \<or>
       pc (threads s' ! i) = Incrementing (count s) \<and> count s' = count s \<and> (sp \<or> count s \<noteq> e))"
proof -
  obtain c r where r: "refcount_inc_round sp (count s) e = (c, r)" by (cases "refcount_inc_round sp (count s) e")
  have "e = CRYPTO_REFCOUNT_MAX \<longrightarrow> count s = CRYPTO_REFCOUNT_MAX"
    using thread_ok_nth [OF assms(1,2)] assms(3) by (simp add: thread_ok_def)
  with r show ?thesis
    by (cases rule: inc_round_cases) (use assms(2,3) r in \<open>auto simp: refcount_lock_inc_def below_max\<close>)
qed

lemma round_dec_linear:
  assumes "refcount_inv s" "i < length (threads s)" "pc (threads s ! i) = Decrementing e"
  shows "\<exists>s'. act (Round_dec i sp) s = Some s' \<and>
      (pc (threads s' ! i) = Idle \<and> refcount_lock_dec (count s) = Some (count s', destroyed s' = destroyed s + 1) \<or>
       pc (threads s' ! i) = Decrementing (count s) \<and> count s' = count s \<and> destroyed s' = destroyed s \<and> (sp \<or> count s \<noteq> e))"
proof -
  obtain c r where r: "refcount_dec_round sp (count s) e = (c, r)" by (cases "refcount_dec_round sp (count s) e")
  have "e = CRYPTO_REFCOUNT_MAX \<longrightarrow> count s = CRYPTO_REFCOUNT_MAX" "e \<noteq> 0"
    using thread_ok_nth [OF assms(1,2)] assms(3) by (simp_all add: thread_ok_def)
  with r show ?thesis
    by (cases rule: dec_round_cases) (use assms(2,3) r in \<open>auto simp: refcount_lock_dec_def below_max Let_def\<close>)
qed

text \<open>
  C35: The compare-and-swap loops implement the locked functions of \<open>refcount_lock.c\<close>. In every
  reachable state a round of either loop ends the call with exactly the effect and result of
  the locked function on the current counter, or it leaves the counter alone and goes on
  with the value it has just seen; that only happens when the value had changed or the
  weak compare-and-swap failed for no reason.
\<close>

theorem refcount_linearizable:
  assumes "reachable s" "i < length (threads s)"
  shows "(\<forall>e. pc (threads s ! i) = Incrementing e \<longrightarrow>
      (\<exists>s'. act (Round_inc i sp) s = Some s' \<and>
        (pc (threads s' ! i) = Idle \<and> count s' = refcount_lock_inc (count s) \<or>
         pc (threads s' ! i) = Incrementing (count s) \<and> count s' = count s \<and> (sp \<or> count s \<noteq> e)))) \<and>
    (\<forall>e. pc (threads s ! i) = Decrementing e \<longrightarrow>
      (\<exists>s'. act (Round_dec i sp) s = Some s' \<and>
        (pc (threads s' ! i) = Idle \<and> refcount_lock_dec (count s) = Some (count s', destroyed s' = destroyed s + 1) \<or>
         pc (threads s' ! i) = Decrementing (count s) \<and> count s' = count s \<and> destroyed s' = destroyed s \<and> (sp \<or> count s \<noteq> e))))"
  using round_inc_linear round_dec_linear refcount_reachable [OF assms(1)] assms(2) by blast

theorem refcount_linearizable_witness:
  "\<exists>s s'. reachable s \<and> act (Round_inc 0 False) s = Some s' \<and> count s' = refcount_lock_inc (count s)"
proof -
  let ?s = "\<lparr>count = 1, threads = [\<lparr>held = 1, pc = Incrementing 1\<rparr>], destroyed = 0\<rparr>"
  have "reachable (new_object 0)" by (rule reachable.start)
  then have r: "reachable ?s"
    by (rule reachable.step [where a = "Start_inc 0"]) (simp add: new_object_def owner_def)
  from refcount_linearizable [OF r, of 0 False] r show ?thesis by auto
qed

text \<open>A thread that runs alone.\<close>

fun rounds :: "nat \<Rightarrow> nat \<Rightarrow> system \<Rightarrow> system option" where
  "rounds i 0 s = Some s"
| "rounds i (Suc n) s =
     Option.bind (case pc (threads s ! i) of
        Incrementing _ \<Rightarrow> act (Round_inc i False) s
      | Decrementing _ \<Rightarrow> act (Round_dec i False) s
      | _ \<Rightarrow> None) (rounds i n)"

lemma length_act: "act a s = Some s' \<Longrightarrow> length (threads s') = length (threads s)"
  by (cases a) (auto split: if_splits pc.splits outcome.splits prod.splits)

lemma one_round:
  assumes "reachable s" "i < length (threads s)" "pc (threads s ! i) \<noteq> Idle"
  obtains s' where "\<And>n. rounds i (Suc n) s = rounds i n s'" "reachable s'" "i < length (threads s')"
    "pc (threads s' ! i) \<noteq> Idle \<Longrightarrow> pc (threads s' ! i) \<in> {Incrementing (count s'), Decrementing (count s')}"
    "pc (threads s ! i) \<in> {Incrementing (count s), Decrementing (count s)} \<Longrightarrow> pc (threads s' ! i) = Idle"
proof -
  note inv = refcount_reachable [OF assms(1)]
  have "pc (threads s ! i) \<noteq> Aborted" using thread_ok_nth [OF inv assms(2)] by (auto simp: thread_ok_def)
  then consider e where "pc (threads s ! i) = Incrementing e" | e where "pc (threads s ! i) = Decrementing e"
    using assms(3) by (cases "pc (threads s ! i)") auto
  then show thesis
  proof cases
    case (1 e)
    obtain s' where s': "act (Round_inc i False) s = Some s'"
      "pc (threads s' ! i) = Idle \<or> pc (threads s' ! i) = Incrementing (count s) \<and> count s' = count s \<and> count s \<noteq> e"
      using round_inc_linear [OF inv assms(2) 1, of False] by blast
    show thesis
    proof (rule that [of s'])
      show "rounds i (Suc n) s = rounds i n s'" for n using 1 s'(1) by (simp del: act.simps)
      show "reachable s'" using assms(1) s'(1) by (rule reachable.step)
      show "i < length (threads s')" using length_act [OF s'(1)] assms(2) by simp
    qed (use s'(2) 1 in auto)
  next
    case (2 e)
    obtain s' where s': "act (Round_dec i False) s = Some s'"
      "pc (threads s' ! i) = Idle \<or> pc (threads s' ! i) = Decrementing (count s) \<and> count s' = count s \<and> count s \<noteq> e"
      using round_dec_linear [OF inv assms(2) 2, of False] by blast
    show thesis
    proof (rule that [of s'])
      show "rounds i (Suc n) s = rounds i n s'" for n using 2 s'(1) by (simp del: act.simps)
      show "reachable s'" using assms(1) s'(1) by (rule reachable.step)
      show "i < length (threads s')" using length_act [OF s'(1)] assms(2) by simp
    qed (use s'(2) 2 in auto)
  qed
qed

text \<open>
  C36: No call can be blocked by the others. From every reachable state a thread that is
  inside a call and runs alone, with a compare-and-swap that does not fail for no reason,
  returns within two rounds, and the state it leaves is reachable again.
\<close>

theorem refcount_lock_free:
  assumes "reachable s" "i < length (threads s)" "pc (threads s ! i) \<noteq> Idle"
  shows "\<exists>n s'. 0 < n \<and> n \<le> 2 \<and> rounds i n s = Some s' \<and> pc (threads s' ! i) = Idle \<and> reachable s'"
proof (rule one_round [OF assms])
  fix s1 assume 1: "\<And>n. rounds i (Suc n) s = rounds i n s1" "reachable s1" "i < length (threads s1)"
    "pc (threads s1 ! i) \<noteq> Idle \<Longrightarrow> pc (threads s1 ! i) \<in> {Incrementing (count s1), Decrementing (count s1)}"
  show ?thesis
  proof (cases "pc (threads s1 ! i) = Idle")
    case True
    then show ?thesis using 1(1) [of 0] 1(2) by (intro exI [of _ 1]) simp
  next
    case False
    from one_round [OF 1(2,3) False] obtain s2 where "rounds i 1 s1 = rounds i 0 s2" "reachable s2" "pc (threads s2 ! i) = Idle"
      using 1(4) [OF False] by (metis One_nat_def)
    then show ?thesis using 1(1) [of 1] by (intro exI [of _ 2]) (simp add: numeral_2_eq_2)
  qed
qed

theorem refcount_lock_free_witness:
  "\<exists>n s'. 0 < n \<and> n \<le> 2 \<and> rounds 0 n \<lparr>count = 1, threads = [\<lparr>held = 1, pc = Incrementing 1\<rparr>], destroyed = 0\<rparr> = Some s' \<and>
    pc (threads s' ! 0) = Idle \<and> reachable s'"
proof (rule refcount_lock_free)
  show "reachable \<lparr>count = 1, threads = [\<lparr>held = 1, pc = Incrementing 1\<rparr>], destroyed = 0\<rparr>"
    by (rule reachable.step [OF reachable.start [of 0], where a = "Start_inc 0"]) (simp add: new_object_def owner_def)
qed simp_all

end
