(* ===== verification/Buf.thy ===== *)
theory Buf
  imports Mem
begin

unbundle bit_operations_syntax

text \<open>
  The growable buffers of \<open>crypto/buf/buf.c\<close>. The \<open>data\<close> pointer is the block it points into
  and its offset there: a buffer of this file keeps it at the start of its block, a read-only
  memory BIO moves it along. The allocation counter \<open>k\<close> is threaded through the calls. Lemmas: a
  failing call leaves the buffer alone, an append extends the contents by its argument, and
  growing by a third copies only a constant number of bytes per byte appended.
\<close>

record buf_mem_st =
  buf_length :: nat
  buf_data :: "byte list option"
  buf_off :: nat
  buf_max :: nat

definition sizeof_BUF_MEM :: nat where "sizeof_BUF_MEM = 24"

definition BUF_MEM_new :: "allocator \<Rightarrow> nat \<Rightarrow> buf_mem_st option \<times> nat" where
  "BUF_MEM_new m k =
     (case OPENSSL_malloc m k sizeof_BUF_MEM of
        None \<Rightarrow> (None, k + 1)
      | Some _ \<Rightarrow> (Some \<lparr>buf_length = 0, buf_data = None, buf_off = 0, buf_max = 0\<rparr>, k + 1))"

definition BUF_MEM_reserve :: "allocator \<Rightarrow> nat \<Rightarrow> buf_mem_st \<Rightarrow> nat \<Rightarrow> bool \<times> nat \<times> buf_mem_st" where
  "BUF_MEM_reserve m k buf cap =
     (if buf_max buf \<ge> cap then (True, k, buf)
      else
        (let n0 = (cap + 3) mod size_mod
         in if n0 < cap then (False, k, buf)
            else
              (let n = n0 div 3; alloc_size = n * 4 mod size_mod
               in if alloc_size div 4 \<noteq> n then (False, k, buf)
                  else (case OPENSSL_realloc m k (map_option (drop (buf_off buf)) (buf_data buf)) alloc_size of
                          None \<Rightarrow> (False, k + 1, buf)
                        | Some new_buf \<Rightarrow> (True, k + 1, buf\<lparr>buf_data := Some new_buf, buf_off := 0, buf_max := alloc_size\<rparr>)))))"

definition BUF_MEM_grow :: "allocator \<Rightarrow> nat \<Rightarrow> buf_mem_st \<Rightarrow> nat \<Rightarrow> nat \<times> nat \<times> buf_mem_st" where
  "BUF_MEM_grow m k buf len =
     (case BUF_MEM_reserve m k buf len of
        (False, k1, buf1) \<Rightarrow> (0, k1, buf1)
      | (True, k1, buf1) \<Rightarrow>
          (let buf2 = (if buf_length buf1 < len
                       then buf1\<lparr>buf_data := map_option (mem_write (buf_off buf1 + buf_length buf1) (replicate (len - buf_length buf1) 0)) (buf_data buf1)\<rparr>
                       else buf1)
           in (len, k1, buf2\<lparr>buf_length := len\<rparr>)))"

definition BUF_MEM_grow_clean :: "allocator \<Rightarrow> nat \<Rightarrow> buf_mem_st \<Rightarrow> nat \<Rightarrow> nat \<times> nat \<times> buf_mem_st" where
  "BUF_MEM_grow_clean m k buf len = BUF_MEM_grow m k buf len"

definition BUF_MEM_append :: "allocator \<Rightarrow> nat \<Rightarrow> buf_mem_st \<Rightarrow> byte list \<Rightarrow> nat \<Rightarrow> bool \<times> nat \<times> buf_mem_st" where
  "BUF_MEM_append m k buf inp len =
     (if len = 0 then (True, k, buf)
      else
        (let new_len = (buf_length buf + len) mod size_mod
         in if new_len < len then (False, k, buf)
            else (case BUF_MEM_reserve m k buf new_len of
                    (False, k1, buf1) \<Rightarrow> (False, k1, buf1)
                  | (True, k1, buf1) \<Rightarrow>
                      (True, k1, buf1\<lparr>buf_data := map_option (mem_write (buf_off buf1 + buf_length buf1) (take len inp)) (buf_data buf1),
                                      buf_length := new_len\<rparr>))))"

definition BUF_strdup :: "allocator \<Rightarrow> byte list option \<Rightarrow> byte list option" where
  "BUF_strdup m str = OPENSSL_strdup m str"

definition BUF_strnlen :: "byte list \<Rightarrow> nat \<Rightarrow> nat" where
  "BUF_strnlen str max_len = OPENSSL_strnlen str max_len"

definition BUF_strndup :: "allocator \<Rightarrow> byte list \<Rightarrow> nat \<Rightarrow> byte list option" where
  "BUF_strndup m str sz = OPENSSL_strndup m str sz"

definition BUF_strlcpy :: "byte list \<Rightarrow> byte list \<Rightarrow> nat \<Rightarrow> byte list \<times> nat" where
  "BUF_strlcpy dst src dst_size = OPENSSL_strlcpy dst src dst_size"

definition BUF_strlcat :: "byte list \<Rightarrow> byte list \<Rightarrow> nat \<Rightarrow> byte list \<times> nat" where
  "BUF_strlcat dst src dst_size = OPENSSL_strlcat dst src dst_size"

definition BUF_memdup :: "allocator \<Rightarrow> nat \<Rightarrow> byte list \<Rightarrow> nat \<Rightarrow> byte list option" where
  "BUF_memdup m k data sz = OPENSSL_memdup m k data sz"

subsection \<open>Contents\<close>

text \<open>
  \<open>buf_ok\<close>: a buffer that owns its block. \<open>buf_bytes\<close> are its contents; \<open>buf_bytes\<close> also makes
  sense for a buffer whose pointer has moved.
\<close>

definition buf_ok :: "buf_mem_st \<Rightarrow> bool" where
  "buf_ok b \<longleftrightarrow> buf_off b = 0 \<and> buf_length b \<le> buf_max b \<and> buf_max b < size_mod \<and>
     (case buf_data b of None \<Rightarrow> buf_max b = 0 | Some d \<Rightarrow> length d = buf_max b)"

definition buf_bytes :: "buf_mem_st \<Rightarrow> byte list" where
  "buf_bytes b = (case buf_data b of None \<Rightarrow> [] | Some d \<Rightarrow> take (buf_length b) (drop (buf_off b) d))"

lemma buf_bytes_length: "buf_ok b \<Longrightarrow> length (buf_bytes b) = buf_length b"
  by (auto simp: buf_ok_def buf_bytes_def split: option.splits)

text \<open>How much memory \<open>BUF_MEM_reserve\<close> asks for, and that the overflow checks are exact.\<close>

definition reserve_size :: "nat \<Rightarrow> nat" where
  "reserve_size cap = (cap + 3) div 3 * 4"

lemma reserve_size_bounds: "4 * cap < 3 * reserve_size cap" "3 * reserve_size cap \<le> 4 * (cap + 3)"
  unfolding reserve_size_def by presburger+

lemma reserve_size_ge: "cap < reserve_size cap"
  using reserve_size_bounds(1) [of cap] by linarith

lemma times_4_exact: "n * 4 mod size_mod div 4 = n \<longleftrightarrow> n * 4 < size_mod" for n :: nat
proof -
  have "n * 4 mod size_mod = 4 * (n mod 2 ^ 62)" using mult_mod_right [of 4 n "2 ^ 62"] by (simp add: mult.commute)
  then have "n * 4 mod size_mod div 4 = n mod 2 ^ 62" by simp
  then show ?thesis by (auto simp: mod_eq_self_iff_div_eq_0 div_eq_0_iff)
qed

lemma reserve_overflow:
  assumes "\<not> cap \<le> buf_max b" "cap < size_mod" "\<not> (cap + 3 < size_mod \<and> (cap + 3) div 3 * 4 < size_mod)"
  shows "BUF_MEM_reserve m k b cap = (False, k, b)"
proof (cases "cap + 3 < size_mod")
  case True
  then have "(cap + 3) mod size_mod = cap + 3" by simp
  then show ?thesis using assms True times_4_exact [of "(cap + 3) div 3"] by (simp add: BUF_MEM_reserve_def Let_def del: mod_less)
next
  case False
  then have "(cap + 3) mod size_mod = cap + 3 - size_mod" using assms(2) by (simp add: mod_if)
  then have "(cap + 3) mod size_mod < cap" using assms(2) False by simp
  then show ?thesis using assms(1) by (simp add: BUF_MEM_reserve_def Let_def)
qed

lemma buf_reserve_cases:
  assumes "buf_ok b" "cap < size_mod"
  obtains (fits) "cap \<le> buf_max b" "BUF_MEM_reserve m k b cap = (True, k, b)"
    | (fails) k' where "buf_max b < cap" "BUF_MEM_reserve m k b cap = (False, k', b)"
    | (grows) d where "buf_max b < cap" "reserve_size cap < size_mod"
        "BUF_MEM_reserve m k b cap = (True, k + 1, b\<lparr>buf_data := Some d, buf_off := 0, buf_max := reserve_size cap\<rparr>)"
        "length d = reserve_size cap" "buf_max b \<le> length d" "take (buf_length b) d = buf_bytes b"
proof -
  have off: "buf_off b = 0" "buf_length b \<le> buf_max b" using assms by (auto simp: buf_ok_def)
  show ?thesis
  proof (cases "cap \<le> buf_max b")
    case True
    then show ?thesis using fits by (simp add: BUF_MEM_reserve_def)
  next
    case less: False
    show ?thesis
    proof (cases "cap + 3 < size_mod \<and> (cap + 3) div 3 * 4 < size_mod")
      case False
      then show ?thesis using fails less reserve_overflow [OF less assms(2)] by auto
    next
      case True
      then have eq: "BUF_MEM_reserve m k b cap =
          (case OPENSSL_realloc m k (buf_data b) (reserve_size cap) of
             None \<Rightarrow> (False, k + 1, b)
           | Some d \<Rightarrow> (True, k + 1, b\<lparr>buf_data := Some d, buf_off := 0, buf_max := reserve_size cap\<rparr>))"
        using less off times_4_exact [of "(cap + 3) div 3"]
        by (cases "buf_data b") (simp_all add: BUF_MEM_reserve_def Let_def reserve_size_def mod_less split: option.split)
      show ?thesis
      proof (cases "OPENSSL_realloc m k (buf_data b) (reserve_size cap)")
        case None
        then show ?thesis using fails eq less by auto
      next
        case (Some d)
        have "take (buf_length b) d = buf_bytes b"
        proof (cases "buf_data b")
          case None
          then show ?thesis using assms(1) by (simp add: buf_ok_def buf_bytes_def)
        next
          case (Some old)
          have "length old \<le> reserve_size cap" using assms(1) Some less reserve_size_ge [of cap] by (simp add: buf_ok_def)
          then show ?thesis using Some \<open>OPENSSL_realloc m k (buf_data b) (reserve_size cap) = Some d\<close> off assms(1)
            by (auto simp: OPENSSL_realloc_def Let_def buf_bytes_def buf_ok_def split: option.splits if_splits)
        qed
        then show ?thesis using grows Some eq less True OPENSSL_realloc_length [OF Some] reserve_size_ge [of cap]
          by (auto simp: reserve_size_def)
      qed
    qed
  qed
qed

lemma mem_write_bytes:
  "pos + length bs \<le> length d \<Longrightarrow> take (pos + length bs) (mem_write pos bs d) = take pos d @ bs"
  by (simp add: mem_write_def)

text \<open>A buffer that has room for \<open>cap\<close> bytes and holds what \<open>b\<close> holds.\<close>

definition reserved :: "buf_mem_st \<Rightarrow> nat \<Rightarrow> buf_mem_st \<Rightarrow> bool" where
  "reserved b cap b' \<longleftrightarrow> buf_ok b' \<and> cap \<le> buf_max b' \<and> buf_length b' = buf_length b \<and> buf_bytes b' = buf_bytes b"

lemma BUF_MEM_reserve_ok:
  assumes "buf_ok b" "cap < size_mod"
  obtains (fails) k' where "BUF_MEM_reserve m k b cap = (False, k', b)"
    | (reserved) k' b' where "BUF_MEM_reserve m k b cap = (True, k', b')" "reserved b cap b'"
  using assms
proof (cases rule: buf_reserve_cases [where m = m and k = k])
  case fits
  then show ?thesis using assms by (intro reserved [of k b]) (simp_all add: reserved_def)
next
  case (fails k')
  then show ?thesis using that(1) by blast
next
  case (grows d)
  then show ?thesis using assms reserve_size_ge [of cap]
    by (intro reserved) (auto simp: reserved_def buf_ok_def buf_bytes_def)
qed

lemma BUF_MEM_append_ok:
  assumes "buf_ok b"
  obtains (fails) k' where "BUF_MEM_append m k b inp (length inp) = (False, k', b)"
    | (appends) k' b' where "BUF_MEM_append m k b inp (length inp) = (True, k', b')" "buf_ok b'" "buf_bytes b' = buf_bytes b @ inp"
proof (cases "inp = [] \<or> buf_length b + length inp \<ge> size_mod")
  case True
  then consider "inp = []" | "inp \<noteq> []" "buf_length b + length inp \<ge> size_mod" by blast
  then show ?thesis
  proof cases
    case 1
    then show ?thesis using assms by (intro appends [of k b]) (simp_all add: BUF_MEM_append_def)
  next
    case 2
    show ?thesis
    proof (cases "length inp < size_mod")
      case True
      then have "(buf_length b + length inp) mod size_mod < length inp" using 2 assms by (auto simp: buf_ok_def mod_if)
      then show ?thesis using 2 by (intro fails) (auto simp: BUF_MEM_append_def Let_def)
    next
      case False
      have "(buf_length b + length inp) mod size_mod < size_mod" by simp
      then have "(buf_length b + length inp) mod size_mod < length inp" using False by linarith
      then show ?thesis using 2 by (intro fails) (auto simp: BUF_MEM_append_def Let_def)
    qed
  qed
next
  case False
  define n where "n = buf_length b + length inp"
  have n: "n < size_mod" "n mod size_mod = n" using False by (auto simp: n_def)
  show ?thesis using assms n(1)
  proof (cases rule: BUF_MEM_reserve_ok [where m = m and k = k])
    case (fails k')
    then show ?thesis using False n by (intro that(1) [of k']) (simp add: BUF_MEM_append_def Let_def n_def)
  next
    case (reserved k' b')
    then have b': "buf_ok b'" "n \<le> buf_max b'" "buf_length b' = buf_length b" "buf_bytes b' = buf_bytes b" by (auto simp: reserved_def)
    then obtain d where d: "buf_data b' = Some d" "length d = buf_max b'" "buf_off b' = 0"
      using False by (auto simp: buf_ok_def n_def split: option.splits)
    have take: "take (buf_length b) d = buf_bytes b" using b' d by (simp add: buf_bytes_def)
    let ?b = "b'\<lparr>buf_data := Some (mem_write (buf_length b) inp d), buf_length := n\<rparr>"
    have "BUF_MEM_append m k b inp (length inp) = (True, k', ?b)"
      using reserved(1) d False n b'(3) by (simp add: BUF_MEM_append_def Let_def n_def)
    moreover have "buf_ok ?b" "buf_bytes ?b = buf_bytes b @ inp"
      using b' d mem_write_bytes [of "buf_length b" inp d] take
      by (auto simp: buf_ok_def buf_bytes_def n_def length_mem_write)
    ultimately show ?thesis using that(2) by blast
  qed
qed

lemma BUF_MEM_grow_ok:
  assumes "buf_ok b" "len < size_mod" "buf_length b < len"
  obtains (fails) k' where "BUF_MEM_grow m k b len = (0, k', b)"
    | (grown) k' b' where "BUF_MEM_grow m k b len = (len, k', b')" "buf_ok b'" "buf_length b' = len"
        "buf_bytes b' = buf_bytes b @ replicate (len - buf_length b) 0"
  using assms(1,2)
proof (cases rule: BUF_MEM_reserve_ok [where m = m and k = k])
  case (fails k')
  then show ?thesis by (intro that(1) [of k']) (simp add: BUF_MEM_grow_def)
next
  case (reserved k' b')
  then have b': "buf_ok b'" "len \<le> buf_max b'" "buf_length b' = buf_length b" "buf_bytes b' = buf_bytes b" by (auto simp: reserved_def)
  then obtain d where d: "buf_data b' = Some d" "length d = buf_max b'" "buf_off b' = 0"
    using assms(3) by (auto simp: buf_ok_def split: option.splits)
  have take: "take (buf_length b) d = buf_bytes b" using b' d by (simp add: buf_bytes_def)
  let ?z = "replicate (len - buf_length b) (0 :: byte)"
  let ?b = "b'\<lparr>buf_data := Some (mem_write (buf_length b) ?z d), buf_length := len\<rparr>"
  have "BUF_MEM_grow m k b len = (len, k', ?b)"
    using reserved(1) d b'(3) assms(3) by (simp add: BUF_MEM_grow_def Let_def)
  moreover have "buf_ok ?b" "buf_bytes ?b = buf_bytes b @ ?z"
    using b' d mem_write_bytes [of "buf_length b" ?z d] take assms(3)
    by (auto simp: buf_ok_def buf_bytes_def length_mem_write)
  ultimately show ?thesis using that(2) by auto
qed

subsection \<open>The cost of appending\<close>

text \<open>
  A sequence of appends, stopping at the first that fails, and the number of bytes the
  reallocations it makes copy from the old block to the new one.
\<close>

fun append_all :: "allocator \<Rightarrow> nat \<Rightarrow> buf_mem_st \<Rightarrow> byte list list \<Rightarrow> bool \<times> nat \<times> buf_mem_st" where
  "append_all m k b [] = (True, k, b)"
| "append_all m k b (p # ps) =
     (case BUF_MEM_append m k b p (length p) of
        (False, k', b') \<Rightarrow> (False, k', b')
      | (True, k', b') \<Rightarrow> append_all m k' b' ps)"

fun copied :: "allocator \<Rightarrow> nat \<Rightarrow> buf_mem_st \<Rightarrow> byte list list \<Rightarrow> nat" where
  "copied m k b [] = 0"
| "copied m k b (p # ps) =
     (case BUF_MEM_append m k b p (length p) of
        (False, k', b') \<Rightarrow> 0
      | (True, k', b') \<Rightarrow>
          (if k' \<noteq> k then (case buf_data b of None \<Rightarrow> 0 | Some old \<Rightarrow> min (length old) (buf_max b')) else 0) + copied m k' b' ps)"

text \<open>One append either keeps the block or replaces it by one that is a third larger than needed.\<close>

lemma append_growth:
  assumes "buf_ok b" "BUF_MEM_append m k b inp (length inp) = (True, k', b')"
  shows "k' = k \<and> buf_max b' = buf_max b \<or>
    k' \<noteq> k \<and> 4 * buf_max b \<le> 3 * buf_max b' \<and> 3 * buf_max b' \<le> 4 * (buf_length b' + 3)"
proof (cases "inp = []")
  case False
  define n where "n = (buf_length b + length inp) mod size_mod"
  have res: "(if n < length inp then (False, k, b)
      else (case BUF_MEM_reserve m k b n of
              (False, k1, b1) \<Rightarrow> (False, k1, b1)
            | (True, k1, b1) \<Rightarrow>
                (True, k1, b1\<lparr>buf_data := map_option (mem_write (buf_off b1 + buf_length b1) (take (length inp) inp)) (buf_data b1), buf_length := n\<rparr>))) = (True, k', b')"
    using assms(2) False unfolding BUF_MEM_append_def n_def [symmetric] Let_def length_0_conv by (simp only: if_False simp_thms)
  have "n < size_mod" by (simp add: n_def)
  with assms(1) show ?thesis
    by (cases rule: buf_reserve_cases [where m = m and k = k]) (use res reserve_size_bounds [of n] in \<open>auto split: if_splits\<close>)
qed (use assms in \<open>simp add: BUF_MEM_append_def\<close>)

lemma buf_capacity: "buf_ok b \<Longrightarrow> (case buf_data b of None \<Rightarrow> 0 | Some old \<Rightarrow> min (length old) n) \<le> buf_max b"
  by (auto simp: buf_ok_def split: option.splits)

lemma append_all_ok:
  assumes "buf_ok b" "3 * buf_max b \<le> 4 * (buf_length b + 3)" "append_all m k b ps = (ok, k', b')"
  shows "buf_ok b' \<and> 3 * buf_max b' \<le> 4 * (buf_length b' + 3) \<and>
    copied m k b ps + 3 * buf_max b \<le> 3 * buf_max b' \<and>
    (\<exists>qs rs. ps = qs @ rs \<and> buf_bytes b' = buf_bytes b @ concat qs \<and> (ok \<longleftrightarrow> rs = []))"
  using assms
proof (induction ps arbitrary: k b)
  case (Cons p ps)
  from Cons.prems(1) show ?case
  proof (cases rule: BUF_MEM_append_ok [where m = m and k = k and inp = p])
    case (fails k1)
    then have "\<exists>qs rs. p # ps = qs @ rs \<and> buf_bytes b' = buf_bytes b @ concat qs \<and> (ok \<longleftrightarrow> rs = [])"
      using Cons.prems(3) by (intro exI [of _ "[]"] exI [of _ "p # ps"]) auto
    moreover have "b' = b" "copied m k b (p # ps) = 0" using fails Cons.prems(3) by auto
    ultimately show ?thesis using Cons.prems(1,2) by simp
  next
    case (appends k1 b1)
    note growth = append_growth [OF Cons.prems(1) appends(1)]
    have len: "buf_length b \<le> buf_length b1"
      using buf_bytes_length [OF appends(2)] buf_bytes_length [OF Cons.prems(1)] appends(3) by simp
    then have "3 * buf_max b1 \<le> 4 * (buf_length b1 + 3)" using growth Cons.prems(2) by auto
    from Cons.IH [OF appends(2) this, of k1] Cons.prems(3) appends(1)
    have IH: "buf_ok b'" "3 * buf_max b' \<le> 4 * (buf_length b' + 3)" "copied m k1 b1 ps + 3 * buf_max b1 \<le> 3 * buf_max b'"
      and parts: "\<exists>qs rs. ps = qs @ rs \<and> buf_bytes b' = buf_bytes b1 @ concat qs \<and> (ok \<longleftrightarrow> rs = [])" by auto
    have "copied m k b (p # ps) + 3 * buf_max b \<le> 3 * buf_max b'"
      using growth IH(3) buf_capacity [OF Cons.prems(1), of "buf_max b1"] appends(1) by auto
    moreover obtain qs rs where "ps = qs @ rs" "buf_bytes b' = buf_bytes b1 @ concat qs" "ok \<longleftrightarrow> rs = []" using parts by blast
    then have "\<exists>qs rs. p # ps = qs @ rs \<and> buf_bytes b' = buf_bytes b @ concat qs \<and> (ok \<longleftrightarrow> rs = [])"
      using appends(3) by (intro exI [of _ "p # qs"] exI [of _ rs]) simp
    ultimately show ?thesis using IH(1,2) by blast
  qed
qed (auto intro!: exI [of _ "[]"])

text \<open>With memory, appending less than an exabyte does not fail.\<close>

lemma append_generous:
  assumes "\<forall>k n. m k n \<noteq> None" "buf_ok b" "buf_length b + length p < 2 ^ 60"
  shows "fst (BUF_MEM_append m k b p (length p))"
proof (cases "p = []")
  case False
  have n: "(buf_length b + length p) mod size_mod = buf_length b + length p" using assms(3) by simp
  have "3 * reserve_size (buf_length b + length p) < 3 * 2 ^ 63"
    using reserve_size_bounds(2) [of "buf_length b + length p"] assms(3) by simp
  then have small: "reserve_size (buf_length b + length p) < 2 ^ 63" by simp
  have "fst (BUF_MEM_reserve m k b (buf_length b + length p))"
  proof (cases "buf_length b + length p \<le> buf_max b")
    case False
    have exact: "(buf_length b + length p + 3) div 3 * 4 < 2 ^ 63" using small by (simp add: reserve_size_def)
    obtain d where "OPENSSL_realloc m k (map_option (drop (buf_off b)) (buf_data b)) ((buf_length b + length p + 3) div 3 * 4) = Some d"
      using realloc_generous [OF assms(1) exact] by blast
    then show ?thesis using False assms(3) exact
      by (simp add: BUF_MEM_reserve_def Let_def mod_less)
  qed (simp add: BUF_MEM_reserve_def)
  then show ?thesis using False n by (auto simp: BUF_MEM_append_def Let_def split: prod.splits bool.splits)
qed (simp add: BUF_MEM_append_def)

text \<open>
  C37: appending pieces to a new buffer costs constant time per byte. Whatever the allocator
  does, the buffer ends up with a prefix of the pieces, all of them exactly when every call
  succeeded, and the reallocations together copied at most four times as many bytes as were
  appended, plus twelve.
\<close>

theorem BUF_MEM_append_amortized:
  assumes "BUF_MEM_new m k = (Some b, k0)" "append_all m k0 b ps = (ok, k', b')"
  shows "\<exists>qs rs. ps = qs @ rs \<and> (ok \<longleftrightarrow> rs = []) \<and> buf_bytes b' = concat qs \<and> buf_length b' = length (concat qs) \<and>
    copied m k0 b ps \<le> 4 * (length (concat qs) + 3)"
proof -
  have b: "buf_ok b" "buf_max b = 0" "buf_bytes b = []"
    using assms(1) by (auto simp: BUF_MEM_new_def buf_ok_def buf_bytes_def split: option.splits)
  from append_all_ok [OF b(1) _ assms(2)] b obtain qs rs where
    res: "buf_ok b'" "3 * buf_max b' \<le> 4 * (buf_length b' + 3)" "copied m k0 b ps \<le> 3 * buf_max b'"
      "ps = qs @ rs" "buf_bytes b' = concat qs" "ok \<longleftrightarrow> rs = []" by auto
  have "buf_length b' = length (concat qs)" using buf_bytes_length [OF res(1)] res(5) by simp
  moreover have "copied m k0 b ps \<le> 4 * (buf_length b' + 3)" using res(2,3) by linarith
  ultimately show ?thesis using res by (intro exI [of _ qs] exI [of _ rs]) simp
qed

theorem BUF_MEM_append_amortized_witness:
  "\<exists>b k0 k' b'. BUF_MEM_new zero_alloc 0 = (Some b, k0) \<and> append_all zero_alloc k0 b [[1, 2], [3, 4, 5]] = (True, k', b') \<and>
     buf_bytes b' = [1, 2, 3, 4, 5] \<and> copied zero_alloc k0 b [[1, 2], [3, 4, 5]] \<le> 32"
proof -
  obtain b k0 where b: "BUF_MEM_new zero_alloc 0 = (Some b, k0)" "buf_ok b" "buf_length b = 0"
    by (simp add: BUF_MEM_new_def OPENSSL_malloc_def zero_alloc_def sizeof_BUF_MEM_def OPENSSL_MALLOC_PREFIX_def buf_ok_def)
  have len: "length [1 :: byte, 2] = 2" "length [3 :: byte, 4, 5] = 3" by simp_all
  have "fst (BUF_MEM_append zero_alloc k0 b [1, 2] 2)"
    using append_generous [OF zero_alloc_ok b(2), of "[1, 2]" k0, unfolded len] b(3) by simp
  then obtain k1 b1 where b1: "BUF_MEM_append zero_alloc k0 b [1, 2] 2 = (True, k1, b1)" "buf_ok b1" "buf_bytes b1 = buf_bytes b @ [1, 2]"
    by (metis BUF_MEM_append_ok [OF b(2)] fst_conv len(1))
  then have "buf_length b1 = 2" using buf_bytes_length [OF b1(2)] buf_bytes_length [OF b(2)] b(3) by simp
  have "fst (BUF_MEM_append zero_alloc k1 b1 [3, 4, 5] 3)"
    using append_generous [OF zero_alloc_ok b1(2), of "[3, 4, 5]" k1, unfolded len] \<open>buf_length b1 = 2\<close> by simp
  then obtain k' b' where "BUF_MEM_append zero_alloc k1 b1 [3, 4, 5] 3 = (True, k', b')"
    by (cases "BUF_MEM_append zero_alloc k1 b1 [3, 4, 5] 3") auto
  then have run: "append_all zero_alloc k0 b [[1, 2], [3, 4, 5]] = (True, k', b')"
    using b1(1) len by (simp only: append_all.simps prod.case bool.case)
  from BUF_MEM_append_amortized [OF b(1) run] obtain qs where "qs = [[1, 2], [3, 4, 5]]" "buf_bytes b' = concat qs"
    "copied zero_alloc k0 b [[1, 2], [3, 4, 5]] \<le> 4 * (length (concat qs) + 3)" by auto
  then show ?thesis using b(1) run by auto
qed

end
