(* ===== verification/Bio_Mem.thy ===== *)
theory Bio_Mem
  imports Bio Buf
begin

unbundle bit_operations_syntax

text \<open>
  Memory BIOs (\<open>crypto/bio/bio_mem.c\<close>): a BIO whose \<open>ptr\<close> is a growable buffer, \<open>None\<close> for \<open>NULL\<close>. A
  read-only one reads from the caller's memory through a pointer that moves along; a writable
  one owns its buffer and moves the unread bytes to its front. \<open>None\<close> as the result of a
  function is a call the C code does not define: a null pointer it dereferences, or a signed
  overflow when a buffer has grown beyond what an \<open>int\<close> can count.
\<close>

type_synonym mem_heap = "buf_mem_st option bio_heap"

definition BIO_FLAGS_MEM_RDONLY :: u32 where "BIO_FLAGS_MEM_RDONLY = 0x200"

abbreviation mem_buf :: "mem_heap \<Rightarrow> nat \<Rightarrow> buf_mem_st" where
  "mem_buf h a \<equiv> the (bio_ptr (bios h a))"

definition is_rdonly :: "mem_heap \<Rightarrow> nat \<Rightarrow> bool" where
  "is_rdonly h a \<longleftrightarrow> bio_flags (bios h a) AND BIO_FLAGS_MEM_RDONLY \<noteq> 0"

definition mem_new :: "allocator \<Rightarrow> nat \<Rightarrow> mem_heap \<Rightarrow> bool \<times> mem_heap" where
  "mem_new m a h =
     (case BUF_MEM_new m (ballocs h) of
        (None, k) \<Rightarrow> (False, h\<lparr>ballocs := k\<rparr>)
      | (Some b, k) \<Rightarrow>
          (True, upd_bio a (\<lambda>bio. bio\<lparr>bio_shutdown := 1, bio_init := True, bio_num := - 1, bio_ptr := Some b\<rparr>) (h\<lparr>ballocs := k\<rparr>)))"

text \<open>\<open>BIO_new\<close> for the memory method, at the address \<open>a\<close> the allocation returns.\<close>

definition BIO_new_mem :: "allocator \<Rightarrow> nat \<Rightarrow> mem_heap \<Rightarrow> bool \<times> mem_heap" where
  "BIO_new_mem m a h =
     (case OPENSSL_malloc m (ballocs h) sizeof_BIO of
        None \<Rightarrow> (False, h\<lparr>ballocs := ballocs h + 1\<rparr>)
      | Some _ \<Rightarrow>
          mem_new m a
            (upd_bio a (\<lambda>_. \<lparr>bio_init = False, bio_shutdown = 1, bio_flags = 0, bio_retry_reason = 0, bio_num = 0, bio_ptr = None,
                           bio_num_read = 0, bio_num_write = 0\<rparr>)
               (h\<lparr>ballocs := ballocs h + 1\<rparr>)))"

definition BIO_new_mem_buf :: "allocator \<Rightarrow> nat \<Rightarrow> byte list option \<Rightarrow> int \<Rightarrow> mem_heap \<Rightarrow> (bool \<times> mem_heap) option" where
  "BIO_new_mem_buf m a buf len h =
     (if len < 0 \<and> buf = None then None
      else
        (let sz = (if len < 0 then strlen (the buf) else nat len)
         in if buf = None \<and> len \<noteq> 0 then Some (False, h)
            else (case BIO_new_mem m a h of
                    (False, h1) \<Rightarrow> Some (False, h1)
                  | (True, h1) \<Rightarrow>
                      Some (True, upd_bio a (\<lambda>bio. bio\<lparr>bio_flags := bio_flags bio OR BIO_FLAGS_MEM_RDONLY, bio_num := 0\<rparr>)
                        (upd_ptr a (map_option (\<lambda>b. b\<lparr>buf_data := buf, buf_off := 0, buf_length := sz, buf_max := sz\<rparr>)) h1)))))"

definition mem_free :: "nat \<Rightarrow> mem_heap \<Rightarrow> mem_heap" where
  "mem_free a h =
     (if bio_shutdown (bios h a) = 0 \<or> \<not> bio_init (bios h a) \<or> bio_ptr (bios h a) = None then h
      else upd_ptr a (\<lambda>_. None) h)"

definition mem_read :: "nat \<Rightarrow> bool \<Rightarrow> nat \<Rightarrow> mem_heap \<Rightarrow> (int \<times> byte list \<times> mem_heap) option" where
  "mem_read a out outl h0 =
     (let h = upd_bio a BIO_clear_retry_flags h0;
          b = mem_buf h a;
          ret = (if buf_length b < INT_MAX \<and> outl > buf_length b then buf_length b else outl)
      in if ret > 0 then
           (if \<not> out \<or> buf_data b = None then None
            else
              (let d = the (buf_data b); left = buf_length b - ret
               in Some (int ret, take ret (drop (buf_off b) d),
                    upd_ptr a (\<lambda>_. Some (if is_rdonly h a then b\<lparr>buf_length := left, buf_off := buf_off b + ret\<rparr>
                                         else b\<lparr>buf_length := left, buf_data := Some (mem_move (buf_off b) (buf_off b + ret) left d)\<rparr>)) h)))
         else if buf_length b = 0
         then Some (bio_num (bios h a), [], if bio_num (bios h a) \<noteq> 0 then upd_bio a BIO_set_retry_read h else h)
         else Some (0, [], h))"

definition mem_bio_write :: "allocator \<Rightarrow> nat \<Rightarrow> byte list option \<Rightarrow> nat \<Rightarrow> mem_heap \<Rightarrow> (int \<times> mem_heap) option" where
  "mem_bio_write m a inp inl h0 =
     (if is_rdonly h0 a then Some (- 1, h0)
      else
        (let h = upd_bio a BIO_clear_retry_flags h0;
             b = mem_buf h a;
             blen = signed_take_bit 31 (int (buf_length b))
         in if blen < 0 then None
            else if int INT_MAX - blen < int inl then Some (- 1, h)
            else
              (let want = nat ((blen + int inl) mod 2 ^ 64); (got, k, b') = BUF_MEM_grow_clean m (ballocs h) b want;
                   h1 = h\<lparr>ballocs := k\<rparr>
               in if got \<noteq> nat ((blen mod 2 ^ 64 + int inl) mod 2 ^ 64) then Some (- 1, upd_ptr a (\<lambda>_. Some b') h1)
                  else (case inp of
                          None \<Rightarrow> (if inl = 0 then Some (0, upd_ptr a (\<lambda>_. Some b') h1) else None)
                        | Some data \<Rightarrow>
                            Some (int inl, upd_ptr a (\<lambda>_. Some (b'\<lparr>buf_data := map_option (mem_write (buf_off b' + nat blen) (take inl data)) (buf_data b')\<rparr>)) h1)))))"

text \<open>How far a line reaches into the \<open>j\<close> bytes that may be read: up to its newline, which it includes.\<close>

fun line_end :: "byte list \<Rightarrow> nat" where
  "line_end [] = 0"
| "line_end (c # cs) = (if c = 10 then 1 else Suc (line_end cs))"

definition mem_gets :: "nat \<Rightarrow> bool \<Rightarrow> nat \<Rightarrow> mem_heap \<Rightarrow> (int \<times> byte list \<times> mem_heap) option" where
  "mem_gets a buf sz h0 =
     (let h = upd_bio a BIO_clear_retry_flags h0;
          b = mem_buf h a;
          j0 = signed_take_bit 31 (int (buf_length b));
          j = (if int sz - 1 < j0 then int sz - 1 else j0)
      in if j \<le> 0 then (if sz > 0 \<and> \<not> buf then None else Some (0, if sz > 0 then [0] else [], h))
         else (case buf_data b of
                 None \<Rightarrow> None
               | Some d \<Rightarrow>
                   (case mem_read a buf (line_end (take (nat j) (drop (buf_off b) d))) h of
                      None \<Rightarrow> None
                    | Some (i, out, h') \<Rightarrow> Some (i, if i > 0 then mem_write (nat i) [0] out else out, h'))))"

definition BIO_CTRL_INFO :: int where "BIO_CTRL_INFO = 3"

definition BIO_C_SET_BUF_MEM :: int where "BIO_C_SET_BUF_MEM = 114"

definition BIO_C_GET_BUF_MEM_PTR :: int where "BIO_C_GET_BUF_MEM_PTR = 115"

definition BIO_C_SET_BUF_MEM_EOF_RETURN :: int where "BIO_C_SET_BUF_MEM_EOF_RETURN = 130"

text \<open>
  The pointer argument of the control function: the address of a pointer to fill in, or a
  buffer. Its result has the pointer that was filled in, if any.
\<close>

datatype mem_arg = Out_pointer | In_buffer buf_mem_st

datatype mem_out = No_pointer | Data_pointer "byte list option" nat | Buffer_pointer buf_mem_st

definition mem_reset :: "nat \<Rightarrow> mem_heap \<Rightarrow> mem_heap" where
  "mem_reset a h =
     (let b = mem_buf h a
      in case buf_data b of
           None \<Rightarrow> h
         | Some d \<Rightarrow>
             if is_rdonly h a
             then upd_ptr a (\<lambda>_. Some (b\<lparr>buf_off := buf_off b - (buf_max b - buf_length b), buf_length := buf_max b\<rparr>)) h
             else upd_ptr a (\<lambda>_. Some (b\<lparr>buf_data := Some (mem_write (buf_off b) (replicate (buf_max b) 0) d), buf_length := 0\<rparr>)) h)"

definition mem_ctrl :: "nat \<Rightarrow> int \<Rightarrow> int \<Rightarrow> mem_arg option \<Rightarrow> mem_heap \<Rightarrow> int \<times> mem_out \<times> mem_heap" where
  "mem_ctrl a cmd num ptr h =
     (let b = mem_buf h a
      in if cmd = BIO_CTRL_RESET then (1, No_pointer, mem_reset a h)
         else if cmd = BIO_CTRL_EOF then (if buf_length b = 0 then 1 else 0, No_pointer, h)
         else if cmd = BIO_C_SET_BUF_MEM_EOF_RETURN
         then (1, No_pointer, upd_bio a (\<lambda>bio. bio\<lparr>bio_num := signed_take_bit 31 num\<rparr>) h)
         else if cmd = BIO_CTRL_INFO
         then (signed_take_bit 63 (int (buf_length b)), if ptr \<noteq> None then Data_pointer (buf_data b) (buf_off b) else No_pointer, h)
         else if cmd = BIO_C_SET_BUF_MEM
         then (1, No_pointer,
               upd_bio a (\<lambda>bio. bio\<lparr>bio_shutdown := signed_take_bit 31 num, bio_ptr := (case ptr of Some (In_buffer b') \<Rightarrow> Some b' | _ \<Rightarrow> None)\<rparr>)
                 (mem_free a h))
         else if cmd = BIO_C_GET_BUF_MEM_PTR then (1, if ptr \<noteq> None then Buffer_pointer b else No_pointer, h)
         else if cmd = BIO_CTRL_GET_CLOSE then (bio_shutdown (bios h a), No_pointer, h)
         else if cmd = BIO_CTRL_SET_CLOSE then (1, No_pointer, upd_bio a (\<lambda>bio. bio\<lparr>bio_shutdown := signed_take_bit 31 num\<rparr>) h)
         else if cmd = BIO_CTRL_WPENDING then (0, No_pointer, h)
         else if cmd = BIO_CTRL_PENDING then (signed_take_bit 63 (int (buf_length b)), No_pointer, h)
         else if cmd = BIO_CTRL_FLUSH then (1, No_pointer, h)
         else (0, No_pointer, h))"

definition mem_method :: "allocator \<Rightarrow> (buf_mem_st option, mem_arg) bio_method" where
  "mem_method m = \<lparr>bm_write = Some (mem_bio_write m), bm_read = Some mem_read, bm_gets = Some mem_gets,
     bm_ctrl = Some (\<lambda>a cmd num ptr h. case mem_ctrl a cmd num ptr h of (ret, _, h') \<Rightarrow> (ret, h'))\<rparr>"

text \<open>
  The block, the position in it and the length that \<open>BIO_mem_contents\<close> stores, \<open>None\<close> for its
  result 0. The methods are not part of the BIOs here, so whether the BIO's is \<open>mem_method\<close> is an argument.
\<close>

definition BIO_mem_contents :: "bool \<Rightarrow> nat \<Rightarrow> mem_heap \<Rightarrow> (byte list option \<times> nat \<times> nat) option" where
  "BIO_mem_contents is_mem a h =
     (if \<not> is_mem then None else Some (buf_data (mem_buf h a), buf_off (mem_buf h a), buf_length (mem_buf h a)))"

definition BIO_get_mem_data :: "nat \<Rightarrow> mem_heap \<Rightarrow> int \<times> mem_out" where
  "BIO_get_mem_data a h = (case mem_ctrl a BIO_CTRL_INFO 0 (Some Out_pointer) h of (ret, out, _) \<Rightarrow> (ret, out))"

definition BIO_get_mem_ptr :: "nat \<Rightarrow> mem_heap \<Rightarrow> int \<times> mem_out" where
  "BIO_get_mem_ptr a h = (case mem_ctrl a BIO_C_GET_BUF_MEM_PTR 0 (Some Out_pointer) h of (ret, out, _) \<Rightarrow> (ret, out))"

definition BIO_set_mem_buf :: "allocator \<Rightarrow> nat \<Rightarrow> buf_mem_st \<Rightarrow> int \<Rightarrow> mem_heap \<Rightarrow> int \<times> mem_heap" where
  "BIO_set_mem_buf m a b take_ownership h = BIO_ctrl (mem_method m) a BIO_C_SET_BUF_MEM take_ownership (Some (In_buffer b)) h"

definition BIO_set_mem_eof_return :: "allocator \<Rightarrow> nat \<Rightarrow> int \<Rightarrow> mem_heap \<Rightarrow> int \<times> mem_heap" where
  "BIO_set_mem_eof_return m a eof_value h = BIO_ctrl (mem_method m) a BIO_C_SET_BUF_MEM_EOF_RETURN eof_value None h"

end
