(* ===== verification/Bio_Mem_Properties.thy ===== *)
theory Bio_Mem_Properties
  imports Bio_Mem Asn1_Values
begin

unbundle bit_operations_syntax

text \<open>
  What the functions of \<open>bio.c\<close> do on a memory BIO, seen as the list of its unread bytes: reads
  and lines come off its front, writes go to its end or fail as a whole, a read-only BIO never changes the
  memory it reads from, and \<open>BIO_read_asn1\<close> takes one element off the stream.
\<close>

subsection \<open>The unread bytes\<close>

definition mem_contents :: "nat \<Rightarrow> mem_heap \<Rightarrow> byte list" where
  "mem_contents a h = buf_bytes (mem_buf h a)"

text \<open>
  A usable memory BIO: initialised, with at most \<open>INT_MAX\<close> bytes, which a read-only BIO finds
  inside the caller's memory, of which it knows the start, and a writable one in its own buffer; the value returned at the end is not positive.
\<close>

definition mem_buf_ok :: "bool \<Rightarrow> buf_mem_st \<Rightarrow> bool" where
  "mem_buf_ok rdonly b \<longleftrightarrow>
     (if rdonly then buf_off b + buf_length b = buf_max b \<and> (case buf_data b of None \<Rightarrow> buf_max b = 0 | Some d \<Rightarrow> buf_max b \<le> length d)
      else buf_ok b)"

definition mem_ok :: "nat \<Rightarrow> mem_heap \<Rightarrow> bool" where
  "mem_ok a h \<longleftrightarrow> bio_init (bios h a) \<and> bio_num (bios h a) \<le> 0 \<and>
     (case bio_ptr (bios h a) of
        None \<Rightarrow> False
      | Some b \<Rightarrow> buf_length b \<le> INT_MAX \<and> mem_buf_ok (is_rdonly h a) b)"

text \<open>What reading and writing keep.\<close>

definition mem_same :: "nat \<Rightarrow> mem_heap \<Rightarrow> mem_heap \<Rightarrow> bool" where
  "mem_same a h h' \<longleftrightarrow> is_rdonly h' a = is_rdonly h a \<and> bio_num (bios h' a) = bio_num (bios h a) \<and>
     (is_rdonly h a \<longrightarrow> buf_data (mem_buf h' a) = buf_data (mem_buf h a) \<and> buf_max (mem_buf h' a) = buf_max (mem_buf h a))"

lemma mem_same_refl [simp]: "mem_same a h h"
  by (simp add: mem_same_def)

lemma mem_same_trans: "mem_same a h1 h2 \<Longrightarrow> mem_same a h2 h3 \<Longrightarrow> mem_same a h1 h3"
  by (auto simp: mem_same_def)

lemma rdonly_bits:
  "(w AND NOT kRetryFlags) AND BIO_FLAGS_MEM_RDONLY = w AND BIO_FLAGS_MEM_RDONLY"
  "(w OR (BIO_FLAGS_READ OR BIO_FLAGS_SHOULD_RETRY)) AND BIO_FLAGS_MEM_RDONLY = w AND BIO_FLAGS_MEM_RDONLY"
  by (simp_all add: and.assoc bit.conj_disj_distrib2 kRetryFlags_def BIO_FLAGS_RWS_def BIO_FLAGS_READ_def BIO_FLAGS_WRITE_def
      BIO_FLAGS_IO_SPECIAL_def BIO_FLAGS_SHOULD_RETRY_def BIO_FLAGS_MEM_RDONLY_def)

lemma mem_flags [simp]:
  "bio_ptr (BIO_clear_retry_flags b) = bio_ptr b" "bio_num (BIO_clear_retry_flags b) = bio_num b"
  "bio_init (BIO_clear_retry_flags b) = bio_init b" "bio_ptr (BIO_set_retry_read b) = bio_ptr b"
  "bio_num (BIO_set_retry_read b) = bio_num b" "bio_init (BIO_set_retry_read b) = bio_init b"
  "bio_flags (BIO_clear_retry_flags b) AND BIO_FLAGS_MEM_RDONLY = bio_flags b AND BIO_FLAGS_MEM_RDONLY"
  "bio_flags (BIO_set_retry_read b) AND BIO_FLAGS_MEM_RDONLY = bio_flags b AND BIO_FLAGS_MEM_RDONLY"
  by (simp_all add: BIO_clear_retry_flags_def BIO_set_retry_read_def rdonly_bits)

lemma mem_okE:
  assumes "mem_ok a h"
  obtains b where "bio_init (bios h a)" "bio_num (bios h a) \<le> 0" "bio_ptr (bios h a) = Some b" "buf_length b \<le> INT_MAX"
    "length (mem_contents a h) = buf_length b"
    "mem_buf_ok (is_rdonly h a) b"
proof -
  obtain b where b: "bio_ptr (bios h a) = Some b" using assms by (auto simp: mem_ok_def split: option.splits)
  have "length (mem_contents a h) = buf_length b"
    using assms b buf_bytes_length [of b] by (auto simp: mem_ok_def mem_buf_ok_def mem_contents_def buf_bytes_def split: option.splits if_splits)
  then show ?thesis using that [of b] b assms by (auto simp: mem_ok_def)
qed

subsection \<open>Reading\<close>

text \<open>The buffer after \<open>n\<close> bytes were read from it.\<close>

definition after_read :: "bool \<Rightarrow> nat \<Rightarrow> buf_mem_st \<Rightarrow> buf_mem_st" where
  "after_read rdonly n b =
     (if rdonly then b\<lparr>buf_length := buf_length b - n, buf_off := buf_off b + n\<rparr>
      else b\<lparr>buf_length := buf_length b - n, buf_data := Some (mem_move (buf_off b) (buf_off b + n) (buf_length b - n) (the (buf_data b)))\<rparr>)"

lemma after_read_bytes:
  assumes "mem_buf_ok rdonly b"
    "n \<le> buf_length b" "buf_data b = Some d"
  shows "buf_bytes (after_read rdonly n b) = drop n (buf_bytes b)"
    "mem_buf_ok rdonly (after_read rdonly n b)"
    "buf_length (after_read rdonly n b) \<le> buf_length b"
  using assms
  by (auto simp: mem_buf_ok_def after_read_def buf_bytes_def buf_ok_def mem_move_def length_mem_write mem_write_def drop_take add.commute)

lemma mem_read_some:
  assumes "mem_ok a h" "0 < n" "n \<le> INT_MAX" "mem_contents a h \<noteq> []"
  obtains h' where "mem_read a True n h = Some (int (min n (length (mem_contents a h))), take n (mem_contents a h), h')"
    "mem_ok a h'" "mem_contents a h' = drop n (mem_contents a h)" "mem_same a h h'"
proof -
  obtain b where b: "bio_init (bios h a)" "bio_num (bios h a) \<le> 0" "bio_ptr (bios h a) = Some b" "buf_length b \<le> INT_MAX"
    "length (mem_contents a h) = buf_length b"
    "mem_buf_ok (is_rdonly h a) b"
    using assms(1) by (rule mem_okE)
  obtain d where d: "buf_data b = Some d"
    using assms(4) b by (auto simp: mem_contents_def buf_bytes_def split: option.splits)
  define k where "k = min n (buf_length b)"
  have k: "(if buf_length b < INT_MAX \<and> n > buf_length b then buf_length b else n) = k" "0 < k" "k \<le> buf_length b"
    using assms b(4) length_greater_0_conv [of "mem_contents a h"] unfolding b(5) by (auto simp: k_def)
  let ?c = "upd_bio a BIO_clear_retry_flags h"
  let ?h = "upd_ptr a (\<lambda>_. Some (after_read (is_rdonly h a) k b)) ?c"
  have rd: "is_rdonly ?c a = is_rdonly h a" by (simp add: is_rdonly_def)
  have rd2: "is_rdonly ?h a = is_rdonly h a" by (simp add: is_rdonly_def)
  have ptr: "mem_buf ?c a = b" using b(3) by simp
  have bytes: "mem_contents a h = take (buf_length b) (drop (buf_off b) d)" using b(3) d by (simp add: mem_contents_def buf_bytes_def)
  have out: "take k (drop (buf_off b) d) = take n (mem_contents a h)" by (simp add: bytes k_def)
  have "mem_read a True n h = Some (int k, take n (mem_contents a h), ?h)"
    unfolding mem_read_def Let_def ptr k(1) using d k(2) rd by (simp add: after_read_def out)
  moreover have "mem_ok a ?h"
    using b after_read_bytes(2,3) [OF b(6) k(3) d] rd2 by (simp add: mem_ok_def)
  moreover have "mem_contents a ?h = drop n (mem_contents a h)"
    using after_read_bytes(1) [OF b(6) k(3) d] b(3,5) by (simp add: mem_contents_def k_def min_def)
  moreover have "mem_same a h ?h" using b(3) by (simp add: mem_same_def is_rdonly_def after_read_def)
  ultimately show ?thesis using that b(5) k_def by simp
qed

lemma mem_read_end:
  assumes "mem_ok a h" "0 < n" "n \<le> INT_MAX" "mem_contents a h = []"
  obtains h' where "mem_read a True n h = Some (bio_num (bios h a), [], h')" "mem_ok a h'" "mem_contents a h' = []" "mem_same a h h'"
    "BIO_should_retry (bios h' a) \<noteq> 0 \<longleftrightarrow> bio_num (bios h a) \<noteq> 0"
proof -
  obtain b where b: "bio_init (bios h a)" "bio_num (bios h a) \<le> 0" "bio_ptr (bios h a) = Some b" "buf_length b \<le> INT_MAX"
    "length (mem_contents a h) = buf_length b"
    "mem_buf_ok (is_rdonly h a) b"
    using assms(1) by (rule mem_okE)
  let ?c = "upd_bio a BIO_clear_retry_flags h"
  let ?h = "if bio_num (bios h a) \<noteq> 0 then upd_bio a BIO_set_retry_read ?c else ?c"
  have len: "buf_length b = 0" using b(5) assms(4) by simp
  have "mem_read a True n h = Some (bio_num (bios h a), [], ?h)"
    using b(3) len assms(2) by (simp add: mem_read_def Let_def INT_MAX_def)
  moreover have "mem_ok a ?h" using b by (simp add: mem_ok_def is_rdonly_def)
  moreover have "mem_contents a ?h = []" using assms(4) by (simp add: mem_contents_def)
  moreover have "mem_same a h ?h" by (simp add: mem_same_def is_rdonly_def)
  moreover have "BIO_should_retry (bios ?h a) \<noteq> 0 \<longleftrightarrow> bio_num (bios h a) \<noteq> 0"
    by (simp add: BIO_should_retry_def BIO_test_flags_def BIO_set_retry_read_def BIO_clear_retry_flags_def bit.conj_disj_distrib2
        kRetryFlags_def BIO_FLAGS_RWS_def BIO_FLAGS_READ_def BIO_FLAGS_WRITE_def BIO_FLAGS_IO_SPECIAL_def BIO_FLAGS_SHOULD_RETRY_def and.assoc)
  ultimately show ?thesis using that by blast
qed

text \<open>The counters are of no consequence.\<close>

lemma allocated [simp]:
  "is_rdonly (h\<lparr>ballocs := k\<rparr>) a = is_rdonly h a" "mem_ok a (h\<lparr>ballocs := k\<rparr>) = mem_ok a h"
  "mem_contents a (h\<lparr>ballocs := k\<rparr>) = mem_contents a h" "mem_same a g (h\<lparr>ballocs := k\<rparr>) = mem_same a g h"
  "mem_same a (h\<lparr>ballocs := k\<rparr>) g = mem_same a h g"
  by (simp_all add: mem_ok_def mem_contents_def mem_same_def is_rdonly_def split: option.split)

lemma counted [simp]:
  "mem_ok a (upd_bio a (\<lambda>b. b\<lparr>bio_num_read := x\<rparr>) h) = mem_ok a h" "mem_contents a (upd_bio a (\<lambda>b. b\<lparr>bio_num_read := x\<rparr>) h) = mem_contents a h"
  "mem_same a g (upd_bio a (\<lambda>b. b\<lparr>bio_num_read := x\<rparr>) h) = mem_same a g h"
  "mem_ok a (upd_bio a (\<lambda>b. b\<lparr>bio_num_write := x\<rparr>) h) = mem_ok a h" "mem_contents a (upd_bio a (\<lambda>b. b\<lparr>bio_num_write := x\<rparr>) h) = mem_contents a h"
  "mem_same a g (upd_bio a (\<lambda>b. b\<lparr>bio_num_write := x\<rparr>) h) = mem_same a g h"
  by (simp_all add: mem_ok_def mem_contents_def mem_same_def is_rdonly_def split: option.split)

lemma BIO_read_mem:
  assumes "mem_ok a h" "0 < n" "n \<le> INT_MAX"
  obtains h' where "BIO_read (mem_method m) a True (int n) h =
      Some (if mem_contents a h = [] then bio_num (bios h a) else int (min n (length (mem_contents a h))), take n (mem_contents a h), h')"
    "mem_ok a h'" "mem_contents a h' = drop n (mem_contents a h)" "mem_same a h h'"
proof -
  have init: "bio_init (bios h a)" "bio_num (bios h a) \<le> 0" using assms(1) by (simp_all add: mem_ok_def)
  show ?thesis
  proof (cases "mem_contents a h = []")
    case True
    then obtain h' where "mem_read a True n h = Some (bio_num (bios h a), [], h')" "mem_ok a h'" "mem_contents a h' = []" "mem_same a h h'"
      using mem_read_end [OF assms] by metis
    then show ?thesis using that [of h'] init True assms(2) by (simp add: BIO_read_def mem_method_def)
  next
    case False
    then obtain h' where "mem_read a True n h = Some (int (min n (length (mem_contents a h))), take n (mem_contents a h), h')"
      "mem_ok a h'" "mem_contents a h' = drop n (mem_contents a h)" "mem_same a h h'"
      using mem_read_some [OF assms] by metis
    then show ?thesis using that init False assms(2) by (simp add: BIO_read_def mem_method_def)
  qed
qed

subsection \<open>Writing\<close>

lemma int_max_small: "x \<le> INT_MAX \<Longrightarrow> signed_take_bit 31 (int x) = int x"
  by (simp add: INT_MAX_def signed_take_bit_int_eq_self_iff)

lemma buf_replace_tail:
  assumes "buf_ok b" "buf_bytes b = xs @ replicate (length ys) 0"
  shows "buf_ok (b\<lparr>buf_data := map_option (mem_write (buf_off b + length xs) ys) (buf_data b)\<rparr>)"
    "buf_bytes (b\<lparr>buf_data := map_option (mem_write (buf_off b + length xs) ys) (buf_data b)\<rparr>) = xs @ ys"
proof -
  have len: "buf_length b = length xs + length ys" using buf_bytes_length [OF assms(1)] assms(2) by simp
  then show "buf_ok (b\<lparr>buf_data := map_option (mem_write (buf_off b + length xs) ys) (buf_data b)\<rparr>)"
    using assms(1) by (auto simp: buf_ok_def length_mem_write split: option.splits)
  show "buf_bytes (b\<lparr>buf_data := map_option (mem_write (buf_off b + length xs) ys) (buf_data b)\<rparr>) = xs @ ys"
  proof (cases "buf_data b")
    case None
    then show ?thesis using assms len by (simp add: buf_ok_def buf_bytes_def)
  next
    case (Some d)
    have "take (length xs + length ys) d = xs @ replicate (length ys) 0"
      using assms Some len by (simp add: buf_bytes_def buf_ok_def)
    then have "take (length xs) d = xs" by (metis append_eq_conv_conj le_add1 min.absorb1 take_take)
    then show ?thesis using Some assms(1) len mem_write_bytes [of "length xs" ys d] by (simp add: buf_bytes_def buf_ok_def)
  qed
qed

text \<open>A write is all or nothing; it fails on a read-only BIO and when the total would pass \<open>INT_MAX\<close>.\<close>

lemma mem_write_result:
  assumes "mem_ok a h" "data \<noteq> []"
  obtains (fails) h' where "mem_bio_write m a (Some data) (length data) h = Some (- 1, h')"
      "mem_ok a h'" "mem_contents a h' = mem_contents a h" "mem_same a h h'"
    | (accepts) h' where "mem_bio_write m a (Some data) (length data) h = Some (int (length data), h')" "\<not> is_rdonly h a"
      "mem_ok a h'" "mem_contents a h' = mem_contents a h @ data" "mem_same a h h'"
proof -
  obtain b where b: "bio_init (bios h a)" "bio_num (bios h a) \<le> 0" "bio_ptr (bios h a) = Some b" "buf_length b \<le> INT_MAX"
    "length (mem_contents a h) = buf_length b"
    "mem_buf_ok (is_rdonly h a) b"
    using assms(1) by (rule mem_okE)
  let ?c = "upd_bio a BIO_clear_retry_flags h"
  have c: "mem_ok a ?c" "mem_contents a ?c = mem_contents a h" "mem_same a h ?c"
    using b by (simp_all add: mem_ok_def mem_contents_def mem_same_def is_rdonly_def)
  consider (readonly) "is_rdonly h a" | (full) "\<not> is_rdonly h a" "buf_length b + length data > INT_MAX"
    | (fits) "\<not> is_rdonly h a" "buf_length b + length data \<le> INT_MAX" by linarith
  then show ?thesis
  proof cases
    case readonly
    then show ?thesis using assms(1) by (intro fails [of h]) (simp_all add: mem_bio_write_def)
  next
    case full
    then have "mem_bio_write m a (Some data) (length data) h = Some (- 1, ?c)"
      using b(3) by (simp add: mem_bio_write_def Let_def int_max_small [OF b(4)] del: signed_take_bit_negative_iff)
    then show ?thesis using fails c by blast
  next
    case fits
    define n where "n = buf_length b + length data"
    have n: "n \<le> INT_MAX" "n < size_mod" "buf_length b < n" using fits assms(2) by (auto simp: n_def INT_MAX_def)
    have want: "nat ((int (buf_length b) + int (length data)) mod 2 ^ 64) = n"
      "nat ((int (buf_length b) mod 2 ^ 64 + int (length data)) mod 2 ^ 64) = n"
      using n(2) by (simp_all add: n_def mod_add_left_eq flip: of_nat_add)
    have blen: "signed_take_bit 31 (int (buf_length b)) = int (buf_length b)" using int_max_small [OF b(4)] .
    have enough: "\<not> int INT_MAX - int (buf_length b) < int (length data)" using fits(2) by linarith
    have ptr: "mem_buf ?c a = b" using b(3) by simp
    have bok: "buf_ok b" using b(6) fits(1) by (simp add: mem_buf_ok_def)
    define step where "step = (\<lambda>b1 k1. upd_ptr a (\<lambda>_. Some b1) (?c\<lparr>ballocs := k1\<rparr>))"
    have run: "mem_bio_write m a (Some data) (length data) h =
        (let (got, k1, b1) = BUF_MEM_grow m (ballocs h) b n
         in if got \<noteq> n then Some (- 1, step b1 k1)
            else Some (int (length data), step (b1\<lparr>buf_data := map_option (mem_write (buf_off b1 + buf_length b) data) (buf_data b1)\<rparr>) k1))"
      unfolding mem_bio_write_def Let_def ptr blen want BUF_MEM_grow_clean_def step_def
      using fits(1) enough by (simp split: prod.splits)
    have step: "mem_ok a (step b1 k1)" "mem_contents a (step b1 k1) = buf_bytes b1" "mem_same a h (step b1 k1)"
      if "buf_ok b1" "buf_length b1 \<le> INT_MAX" for b1 k1
      using that b fits(1) by (simp_all add: step_def mem_ok_def mem_buf_ok_def mem_contents_def mem_same_def is_rdonly_def)
    have old: "mem_contents a h = buf_bytes b" using b(3) by (simp add: mem_contents_def)
    show ?thesis using bok n(2,3)
    proof (cases rule: BUF_MEM_grow_ok [where m = m and k = "ballocs h"])
      case (fails k1)
      then show ?thesis using run n(3) step [OF bok b(4)] old by (intro that(1) [of "step b k1"]) simp_all
    next
      case (grown k1 b1)
      let ?b = "b1\<lparr>buf_data := map_option (mem_write (buf_off b1 + buf_length b) data) (buf_data b1)\<rparr>"
      have "buf_bytes b1 = buf_bytes b @ replicate (length data) 0" using grown(4) by (simp add: n_def)
      note tail = buf_replace_tail [OF grown(2) this, unfolded buf_bytes_length [OF bok]]
      have "buf_length ?b \<le> INT_MAX" using grown(3) n(1) by simp
      then show ?thesis using run grown(1) step [OF tail(1)] tail(2) old fits(1) by (intro that(2) [of "step ?b k1"]) simp_all
    qed
  qed
qed

subsection \<open>The stream\<close>

definition mem_put :: "allocator \<Rightarrow> nat \<Rightarrow> mem_heap \<Rightarrow> byte list \<Rightarrow> (mem_heap \<times> nat) option" where
  "mem_put m a h data = map_option (\<lambda>(ret, h'). (h', nat ret)) (BIO_write (mem_method m) a (Some data) (int (length data)) h)"

definition mem_get :: "allocator \<Rightarrow> nat \<Rightarrow> mem_heap \<Rightarrow> nat \<Rightarrow> (mem_heap \<times> byte list) option" where
  "mem_get m a h n = map_option (\<lambda>(_, out, h'). (h', out)) (BIO_read (mem_method m) a True (int (min n INT_MAX)) h)"

interpretation mem_bio: byte_stream "\<lambda>g. mem_ok a g \<and> mem_same a h g" "mem_contents a" "mem_put m a" "mem_get m a" for m a h
proof unfold_locales
  fix g and data :: "byte list"
  assume "mem_ok a g \<and> mem_same a h g"
  then have ok: "mem_ok a g" and same: "mem_same a h g" and init: "bio_init (bios g a)" by (auto simp: mem_ok_def)
  show "\<exists>g' k. mem_put m a g data = Some (g', k) \<and> (mem_ok a g' \<and> mem_same a h g') \<and> mem_contents a g' = mem_contents a g @ take k data"
  proof (cases "data = []")
    case True
    then show ?thesis using ok same init by (simp add: mem_put_def BIO_write_def mem_method_def)
  next
    case False
    with ok show ?thesis
      by (cases rule: mem_write_result [where m = m])
         (use init False mem_same_trans [OF same] in \<open>simp_all add: mem_put_def BIO_write_def mem_method_def\<close>)
  qed
next
  fix g n
  assume "mem_ok a g \<and> mem_same a h g"
  then have ok: "mem_ok a g" and same: "mem_same a h g" and init: "bio_init (bios g a)" by (auto simp: mem_ok_def)
  have len: "length (mem_contents a g) \<le> INT_MAX" using ok by (auto elim: mem_okE)
  show "\<exists>g'. mem_get m a g n = Some (g', take n (mem_contents a g)) \<and> (mem_ok a g' \<and> mem_same a h g') \<and> mem_contents a g' = drop n (mem_contents a g)"
  proof (cases "n = 0")
    case True
    then show ?thesis using ok same init by (simp add: mem_get_def BIO_read_def mem_method_def)
  next
    case False
    have pos: "0 < min n INT_MAX" "min n INT_MAX \<le> INT_MAX" using False by (simp_all add: INT_MAX_def)
    have "take (min n INT_MAX) (mem_contents a g) = take n (mem_contents a g)" "drop (min n INT_MAX) (mem_contents a g) = drop n (mem_contents a g)"
      using len by (simp_all add: min_def)
    with BIO_read_mem [OF ok pos, where m = m] mem_same_trans [OF same] show ?thesis by (force simp: mem_get_def)
  qed
qed

subsection \<open>Creation and rewinding\<close>

lemma new_flags: "BIO_FLAGS_MEM_RDONLY AND BIO_FLAGS_MEM_RDONLY \<noteq> 0"
  by (simp add: BIO_FLAGS_MEM_RDONLY_def)

lemma BIO_new_mem_ok:
  assumes "BIO_new_mem m a h = (True, h')"
  shows "mem_ok a h'" "mem_contents a h' = []" "\<not> is_rdonly h' a" "bio_num (bios h' a) = - 1"
proof -
  obtain k where h': "bios h' a = \<lparr>bio_init = True, bio_shutdown = 1, bio_flags = 0, bio_retry_reason = 0, bio_num = - 1,
      bio_ptr = Some \<lparr>buf_length = 0, buf_data = None, buf_off = 0, buf_max = 0\<rparr>, bio_num_read = 0, bio_num_write = 0\<rparr>"
    using assms by (auto simp: BIO_new_mem_def mem_new_def BUF_MEM_new_def split: option.splits)
  show "mem_ok a h'" "mem_contents a h' = []" "\<not> is_rdonly h' a" "bio_num (bios h' a) = - 1"
    by (simp_all add: h' mem_ok_def mem_buf_ok_def mem_contents_def is_rdonly_def buf_ok_def buf_bytes_def)
qed

lemma BIO_new_mem_buf_ok:
  assumes "BIO_new_mem_buf m a (Some d) len h = Some (True, h')" "sz = (if len < 0 then strlen d else nat len)" "sz \<le> length d" "sz \<le> INT_MAX"
  shows "mem_ok a h'" "mem_contents a h' = take sz d" "is_rdonly h' a" "bio_num (bios h' a) = 0"
    "buf_data (mem_buf h' a) = Some d" "buf_max (mem_buf h' a) = sz"
proof -
  obtain h1 where h1: "BIO_new_mem m a h = (True, h1)"
    and h': "h' = upd_bio a (\<lambda>bio. bio\<lparr>bio_flags := bio_flags bio OR BIO_FLAGS_MEM_RDONLY, bio_num := 0\<rparr>)
      (upd_ptr a (map_option (\<lambda>b. b\<lparr>buf_data := Some d, buf_off := 0, buf_length := sz, buf_max := sz\<rparr>)) h1)"
    using assms(1,2) by (auto simp: BIO_new_mem_buf_def Let_def split: prod.splits bool.splits)
  obtain b where "bio_ptr (bios h1 a) = Some b" "bio_init (bios h1 a)" using BIO_new_mem_ok(1) [OF h1] by (auto elim: mem_okE)
  then show "mem_ok a h'" "mem_contents a h' = take sz d" "is_rdonly h' a" "bio_num (bios h' a) = 0"
    "buf_data (mem_buf h' a) = Some d" "buf_max (mem_buf h' a) = sz"
    using assms(3,4) new_flags
    by (simp_all add: h' mem_ok_def mem_buf_ok_def mem_contents_def is_rdonly_def buf_bytes_def bit.conj_disj_distrib2)
qed

lemma mem_reset_rdonly:
  assumes "mem_ok a h" "is_rdonly h a" "buf_data (mem_buf h a) = Some d" "buf_max (mem_buf h a) \<le> INT_MAX"
  shows "mem_ok a (mem_reset a h)" "mem_contents a (mem_reset a h) = take (buf_max (mem_buf h a)) d"
proof -
  obtain b where b: "bio_init (bios h a)" "bio_num (bios h a) \<le> 0" "bio_ptr (bios h a) = Some b" "mem_buf_ok (is_rdonly h a) b"
    using assms(1) by (rule mem_okE)
  then have off: "buf_off b + buf_length b = buf_max b" "buf_max b \<le> length d" using assms(2,3) by (simp_all add: mem_buf_ok_def)
  let ?b = "b\<lparr>buf_off := 0, buf_length := buf_max b\<rparr>"
  have "mem_reset a h = upd_ptr a (\<lambda>_. Some ?b) h" using assms(2,3) b(3) off(1) by (simp add: mem_reset_def Let_def)
  moreover have "is_rdonly (upd_ptr a (\<lambda>_. Some ?b) h) a" using assms(2) by (simp add: is_rdonly_def)
  ultimately show "mem_ok a (mem_reset a h)" "mem_contents a (mem_reset a h) = take (buf_max (mem_buf h a)) d"
    using b assms off by (simp_all add: mem_ok_def mem_buf_ok_def mem_contents_def buf_bytes_def)
qed

lemma rdonly_run:
  "mem_ok a g \<Longrightarrow> is_rdonly g a \<Longrightarrow> pipe_run (mem_put m a) (mem_get m a) g ops = Some (t, fed, drained) \<Longrightarrow> fed = []"
proof (induction ops arbitrary: g fed drained)
  case (Cons op ops)
  show ?case
  proof (cases op)
    case (Feed data)
    have "mem_put m a g data = Some (g, 0)"
      using Cons.prems(1,2) by (simp add: mem_put_def BIO_write_def mem_method_def mem_bio_write_def mem_ok_def)
    then show ?thesis using Cons.prems Cons.IH [OF Cons.prems(1,2)] Feed by auto
  next
    case (Drain n)
    obtain g' where "mem_get m a g n = Some (g', take n (mem_contents a g))" "mem_ok a g'" "mem_same a g g'"
      using mem_bio.get [of a g g m n] Cons.prems(1) by auto
    then show ?thesis using Cons.prems Cons.IH [of g'] Drain by (auto simp: mem_same_def)
  qed
qed simp

subsection \<open>Lines\<close>

lemma line_end_le: "line_end xs \<le> length xs"
  by (induction xs) auto

lemma line_end_pos: "xs \<noteq> [] \<Longrightarrow> 0 < line_end xs"
  by (cases xs) auto

lemma line_end_inside: "10 \<notin> set (butlast (take (line_end xs) xs))"
  by (induction xs) (auto simp: take_Cons' dest: in_set_butlastD)

lemma line_end_stops: "xs \<noteq> [] \<Longrightarrow> last (take (line_end xs) xs) = 10 \<or> line_end xs = length xs"
proof (induction xs)
  case (Cons c cs)
  then show ?case using line_end_pos [of cs] by (cases "cs = []") auto
qed simp

lemma mem_gets_line:
  assumes "mem_ok a h" "2 \<le> sz" "sz \<le> INT_MAX" "mem_contents a h \<noteq> []"
  obtains h' where "mem_gets a True sz h =
      (let n = line_end (take (sz - 1) (mem_contents a h)) in Some (int n, take n (mem_contents a h) @ [0], h'))"
    "mem_ok a h'" "mem_contents a h' = drop (line_end (take (sz - 1) (mem_contents a h))) (mem_contents a h)" "mem_same a h h'"
proof -
  obtain b where b: "bio_init (bios h a)" "bio_num (bios h a) \<le> 0" "bio_ptr (bios h a) = Some b" "buf_length b \<le> INT_MAX"
    "length (mem_contents a h) = buf_length b" "mem_buf_ok (is_rdonly h a) b"
    using assms(1) by (rule mem_okE)
  obtain d where d: "buf_data b = Some d" using assms(4) b(3) by (auto simp: mem_contents_def buf_bytes_def split: option.splits)
  let ?c = "upd_bio a BIO_clear_retry_flags h" and ?xs = "take (sz - 1) (mem_contents a h)"
  have c: "mem_ok a ?c" "mem_contents a ?c = mem_contents a h" "mem_same a h ?c"
    using b by (simp_all add: mem_ok_def mem_contents_def mem_same_def is_rdonly_def)
  have bytes: "mem_contents a h = take (buf_length b) (drop (buf_off b) d)" using b(3) d by (simp add: mem_contents_def buf_bytes_def)
  have pos: "0 < buf_length b" using assms(4) b(5) by (simp flip: length_greater_0_conv)
  define j where "j = (if int sz - 1 < int (buf_length b) then int sz - 1 else int (buf_length b))"
  have "nat j = min (sz - 1) (buf_length b)" using assms(2) by (simp add: j_def min_def) linarith
  then have j: "\<not> j \<le> 0" "take (nat j) (drop (buf_off b) d) = ?xs" using pos assms(2) by (auto simp: bytes j_def)
  define n where "n = line_end ?xs"
  have n: "0 < n" "n \<le> sz - 1" "n \<le> length (mem_contents a h)"
    using line_end_pos [of ?xs] line_end_le [of ?xs] assms(2,4) by (auto simp: n_def)
  have ptr: "mem_buf ?c a = b" using b(3) by simp
  obtain h' where read: "mem_read a True n ?c = Some (int (min n (length (mem_contents a ?c))), take n (mem_contents a ?c), h')"
      "mem_ok a h'" "mem_contents a h' = drop n (mem_contents a ?c)" "mem_same a ?c h'"
    by (rule mem_read_some [OF c(1) n(1)]) (use n(2) assms(3,4) c(2) in auto)
  have "mem_gets a True sz h = Some (int n, take n (mem_contents a h) @ [0], h')"
    unfolding mem_gets_def Let_def ptr int_max_small [OF b(4)] j_def [symmetric] d option.case j(2) n_def [symmetric] read(1) c(2)
    using j(1) n by (simp add: mem_write_def min_def)
  then show ?thesis using that read(2,3) c mem_same_trans [OF c(3) read(4)] by (simp add: n_def Let_def)
qed

subsection \<open>Properties\<close>

definition blank_mem :: mem_heap where
  "blank_mem = \<lparr>bios = (\<lambda>_. \<lparr>bio_init = False, bio_shutdown = 0, bio_flags = 0, bio_retry_reason = 0, bio_num = 0, bio_ptr = None,
     bio_num_read = 0, bio_num_write = 0\<rparr>), ballocs = 0\<rparr>"

text \<open>A read-only BIO on the given bytes, at address 0, and a writable one.\<close>

definition demo_mem :: "byte list \<Rightarrow> mem_heap" where
  "demo_mem bs = snd (the (BIO_new_mem_buf zero_alloc 0 (Some bs) (int (length bs)) blank_mem))"

lemma zero_alloc_small: "n < 2 ^ 63 \<Longrightarrow> OPENSSL_malloc zero_alloc k n \<noteq> None"
  using malloc_generous [OF zero_alloc_ok] by fastforce

lemma new_mem_demo: "\<exists>h'. BIO_new_mem zero_alloc a h = (True, h')"
  using zero_alloc_small [of sizeof_BIO] zero_alloc_small [of sizeof_BUF_MEM]
  by (auto simp: BIO_new_mem_def mem_new_def BUF_MEM_new_def sizeof_BIO_def sizeof_BUF_MEM_def split: option.splits)

lemma new_mem_buf_demo: "BIO_new_mem_buf zero_alloc 0 (Some bs) (int (length bs)) blank_mem = Some (True, demo_mem bs)"
  using new_mem_demo [of 0 blank_mem] by (auto simp: demo_mem_def BIO_new_mem_buf_def Let_def)

lemmas demo_mem_ok = BIO_new_mem_buf_ok [OF new_mem_buf_demo refl]

text \<open>
  C38: a writable memory BIO is a FIFO. For every sequence of \<open>BIO_write\<close> and \<open>BIO_read\<close> calls on a new one, and whatever
  the allocator does, every call returns and the bytes read, followed by those still inside, are
  the bytes that were accepted, in order.
\<close>

theorem mem_bio_fifo:
  assumes "BIO_new_mem m a h = (True, h0)"
  shows "\<exists>t fed drained. pipe_run (mem_put m a) (mem_get m a) h0 ops = Some (t, fed, drained) \<and>
    drained @ mem_contents a t = fed \<and> length (mem_contents a t) \<le> INT_MAX"
  using mem_bio.run_conserves [of a h0 h0 m ops] BIO_new_mem_ok(1,2) [OF assms] by (auto elim: mem_okE)

theorem mem_bio_fifo_witness:
  "\<exists>h0 t fed drained. pipe_run (mem_put zero_alloc 0) (mem_get zero_alloc 0) h0 [Feed [1, 2, 3], Drain 2, Feed [4], Drain 5] = Some (t, fed, drained) \<and>
     drained @ mem_contents 0 t = fed"
  using new_mem_demo [of 0 blank_mem] mem_bio_fifo [of zero_alloc 0 blank_mem _ "[Feed [1, 2, 3], Drain 2, Feed [4], Drain 5]"] by blast

text \<open>
  C39: a read-only memory BIO never changes the memory it was given and can be rewound. After any
  sequence of reads and attempted writes, the bytes read are the first ones of the caller's
  memory, no write was accepted, the memory is as it was, and \<open>BIO_reset\<close> makes all of it readable
  again.
\<close>

theorem mem_bio_rewind:
  assumes "BIO_new_mem_buf m a (Some d) (int n) h = Some (True, h0)" "n \<le> length d" "n \<le> INT_MAX"
  shows "\<exists>t drained. pipe_run (mem_put m a) (mem_get m a) h0 ops = Some (t, [], drained) \<and> drained @ mem_contents a t = take n d \<and>
    buf_data (mem_buf t a) = Some d \<and> fst (BIO_reset (mem_method m) a t) = 1 \<and>
    mem_ok a (snd (BIO_reset (mem_method m) a t)) \<and> mem_contents a (snd (BIO_reset (mem_method m) a t)) = take n d"
proof -
  have sz: "n = (if int n < 0 then strlen d else nat (int n))" by simp
  note new = BIO_new_mem_buf_ok [OF assms(1) sz assms(2,3)]
  obtain t fed drained where t: "pipe_run (mem_put m a) (mem_get m a) h0 ops = Some (t, fed, drained)" "mem_ok a t" "mem_same a h0 t"
      "drained @ mem_contents a t = mem_contents a h0 @ fed"
    using mem_bio.run_conserves [of a h0 h0 m ops] new(1) by auto
  have rd: "is_rdonly t a" "buf_data (mem_buf t a) = Some d" "buf_max (mem_buf t a) = n" using t(3) new(3,5,6) by (simp_all add: mem_same_def)
  have "BIO_reset (mem_method m) a t = (1, mem_reset a t)"
    by (simp add: BIO_reset_def BIO_ctrl_def mem_method_def mem_ctrl_def Let_def)
  then show ?thesis using t rdonly_run [OF new(1,3) t(1)] rd new(2) mem_reset_rdonly [OF t(2) rd(1,2)] assms(3) by simp
qed

theorem mem_bio_rewind_witness:
  "\<exists>t drained. pipe_run (mem_put zero_alloc 0) (mem_get zero_alloc 0) (demo_mem [7, 8, 9]) [Drain 2, Feed [1]] = Some (t, [], drained) \<and>
     mem_contents 0 (snd (BIO_reset (mem_method zero_alloc) 0 t)) = [7, 8, 9]"
  using mem_bio_rewind [OF new_mem_buf_demo [of "[7, 8, 9]"], of "[Drain 2, Feed [1]]"] by (auto simp: INT_MAX_def)

text \<open>
  \<open>BIO_gets\<close> on a memory BIO with room for \<open>sz\<close> bytes takes one line off the stream: it stores the
  line with its newline and a terminator, never more than \<open>sz\<close> bytes, and stops only at a newline, at the
  limit or at the end of the stream.
\<close>

theorem mem_bio_gets_line:
  assumes "mem_ok a h" "2 \<le> sz" "sz \<le> INT_MAX" "mem_contents a h \<noteq> []"
  shows "\<exists>line rest h'. BIO_gets (mem_method m) a True (int sz) h = Some (int (length line), line @ [0], h') \<and> mem_ok a h' \<and>
    mem_contents a h = line @ rest \<and> mem_contents a h' = rest \<and> line \<noteq> [] \<and> length (line @ [0]) \<le> sz \<and>
    10 \<notin> set (butlast line) \<and> (last line = 10 \<or> length line = sz - 1 \<or> rest = [])"
proof -
  let ?c = "mem_contents a h" and ?xs = "take (sz - 1) (mem_contents a h)"
  define n where "n = line_end ?xs"
  have xs: "?xs \<noteq> []" using assms(2,4) by simp
  have n: "0 < n" "n \<le> length ?xs" using line_end_pos [OF xs] line_end_le [of ?xs] by (simp_all add: n_def)
  then have line: "take n ?c = take n ?xs" by simp
  obtain h' where h': "mem_gets a True sz h = Some (int n, take n ?c @ [0], h')" "mem_ok a h'" "mem_contents a h' = drop n ?c"
    using mem_gets_line [OF assms] by (metis n_def)
  have "bio_init (bios h a)" using assms(1) by (simp add: mem_ok_def)
  then have gets: "\<exists>h'. BIO_gets (mem_method m) a True (int sz) h = Some (int n, take n ?c @ [0], h') \<and> mem_ok a h' \<and> mem_contents a h' = drop n ?c"
    using h' assms(2) n(1) by (auto simp: BIO_gets_def mem_method_def)
  have stop: "last (take n ?c) = 10 \<or> n = sz - 1 \<or> drop n ?c = []"
    using line_end_stops [OF xs] unfolding line n_def [symmetric] by auto
  have len: "length (take n ?c) = n" using n(2) by simp
  have inside: "10 \<notin> set (butlast (take n ?c))" using line_end_inside [of ?xs] unfolding line n_def [symmetric] .
  show ?thesis using gets n stop len inside assms(2,4)
    by (intro exI [of _ "take n ?c"] exI [of _ "drop n ?c"]) auto
qed

theorem mem_bio_gets_line_witness:
  "\<exists>line h'. BIO_gets (mem_method zero_alloc) 0 True 80 (demo_mem [72, 10, 73]) = Some (int (length line), line @ [0], h') \<and> line \<noteq> [] \<and>
     (last line = 10 \<or> length line = 79 \<or> line = [72, 10, 73])"
proof -
  have "mem_ok 0 (demo_mem [72, 10, 73])" "mem_contents 0 (demo_mem [72, 10, 73]) = [72, 10, 73]"
    using demo_mem_ok(1,2) [of "[72, 10, 73]"] by (simp_all add: INT_MAX_def)
  from mem_bio_gets_line [of 0 "demo_mem [72, 10, 73]" 80 zero_alloc] this show ?thesis by (auto simp: INT_MAX_def)
qed

end
