(* ===== verification/Bio_Asn1.thy ===== *)
theory Bio_Asn1
  imports Bio_Mem_Properties
begin

unbundle bit_operations_syntax

text \<open>
  \<open>BIO_read_asn1\<close> on a memory BIO: it takes exactly one element off the front of the
  stream, and the error it reports tells a truncated element from an empty stream.
\<close>

subsection \<open>Reading a number of bytes\<close>

lemma size_sub_exact: "y \<le> x \<Longrightarrow> x < size_mod \<Longrightarrow> size_sub x y = x - y"
  by (simp add: size_sub_def mod_if)

lemma read_full_0 [simp]: "bio_read_full meth a f out pos 0 h = Some (True, False, out, h)"
  by (simp add: bio_read_full.simps)

lemma read_full_ok:
  assumes "mem_ok a h" "mem_contents a h = xs @ ys" "length xs \<le> INT_MAX"
  obtains h' where "bio_read_full (mem_method m) a f out pos (length xs) h = Some (True, False, mem_write pos xs out, h')"
    "mem_ok a h'" "mem_contents a h' = ys" "mem_same a h h'"
proof (cases "xs = []")
  case True
  then show ?thesis using assms by (intro that [of h]) (simp_all add: mem_write_def)
next
  case False
  then obtain h' where read: "BIO_read (mem_method m) a True (int (length xs)) h = Some (int (length xs), xs, h')"
      "mem_ok a h'" "mem_contents a h' = ys" "mem_same a h h'"
    using BIO_read_mem [OF assms(1) _ assms(3), where m = m] assms(2) by auto
  have "size_sub (length xs) (length xs) = 0" by (simp add: size_sub_def)
  then have "bio_read_full (mem_method m) a f out pos (length xs) h = Some (True, False, mem_write pos xs out, h')"
    using read(1) False assms(3) by (subst bio_read_full.simps) simp
  then show ?thesis using that read(2-4) by blast
qed

lemma read_full_end:
  assumes "mem_ok a h" "mem_contents a h = []" "0 < n" "n \<le> INT_MAX"
  obtains h' where "bio_read_full (mem_method m) a f out pos n h = Some (False, f \<and> bio_num (bios h a) = 0, mem_write pos [] out, h')"
    "mem_ok a h'" "mem_contents a h' = []" "mem_same a h h'"
proof -
  obtain h' where read: "BIO_read (mem_method m) a True (int n) h = Some (bio_num (bios h a), [], h')" "mem_ok a h'" "mem_contents a h' = []" "mem_same a h h'"
    using BIO_read_mem [OF assms(1,3,4), where m = m] assms(2) by auto
  have "bio_num (bios h a) \<le> 0" using assms(1) by (simp add: mem_ok_def)
  then have "bio_read_full (mem_method m) a f out pos n h = Some (False, f \<and> bio_num (bios h a) = 0, mem_write pos [] out, h')"
    using read(1) assms(3,4) by (subst bio_read_full.simps) simp
  then show ?thesis using that read(2-4) by blast
qed

lemma read_full_short:
  assumes "mem_ok a h" "length (mem_contents a h) < n" "n \<le> INT_MAX"
  obtains out' h' where "bio_read_full (mem_method m) a f out pos n h =
      Some (False, f \<and> mem_contents a h = [] \<and> bio_num (bios h a) = 0, out', h')" "mem_ok a h'" "mem_contents a h' = []" "mem_same a h h'"
proof (cases "mem_contents a h = []")
  case True
  then have "0 < n" using assms(2) by simp
  show ?thesis by (rule read_full_end [OF assms(1) True \<open>0 < n\<close> assms(3)]) (use that True in auto)
next
  case False
  let ?c = "mem_contents a h" and ?rest = "bio_read_full (mem_method m) a False"
  obtain h1 where read: "BIO_read (mem_method m) a True (int n) h = Some (int (length ?c), ?c, h1)" "mem_ok a h1" "mem_contents a h1 = []" "mem_same a h h1"
    using BIO_read_mem [OF assms(1) _ assms(3), where m = m] False assms(2) by auto
  have n: "size_sub n (length ?c) = n - length ?c" using assms(2,3) by (intro size_sub_exact) (simp_all add: INT_MAX_def)
  have step: "bio_read_full (mem_method m) a f out pos n h = ?rest (mem_write pos ?c out) (pos + length ?c) (n - length ?c) h1"
    using read(1) False assms n by (subst bio_read_full.simps) simp
  have "0 < n - length ?c" "n - length ?c \<le> INT_MAX" using assms by simp_all
  then obtain out' h' where "?rest (mem_write pos ?c out) (pos + length ?c) (n - length ?c) h1 = Some (False, False, out', h')"
      "mem_ok a h'" "mem_contents a h' = []" "mem_same a h1 h'"
    using read_full_end [OF read(2,3), where f = False] by (metis (full_types))
  then show ?thesis using that step False mem_same_trans [OF read(4)] by simp
qed

subsection \<open>The element\<close>

lemma word_padded32: "drop_bit ((k - 1) * 8) (w :: u32) = 0 \<longleftrightarrow> unat w < 256 ^ (k - 1)"
proof -
  have "(256 :: nat) ^ (k - 1) = 2 ^ ((k - 1) * 8)" by (simp add: mult.commute [of _ 8] power_mult)
  then show ?thesis by (simp only: drop_bit_eq_0_iff)
qed

lemma unat_fold_be32:
  "length bs \<le> 4 \<Longrightarrow> unat (foldl (\<lambda>r b. push_bit 8 r OR ucast b) (0 :: u32) (bs :: byte list)) = be_val bs"
proof (induction bs rule: rev_induct)
  case (snoc b bs)
  have "be_val bs < 256 ^ length bs" by (rule be_val_bound)
  also have "\<dots> \<le> 256 ^ 3" using snoc.prems by (intro power_increasing) simp_all
  finally show ?case using snoc
      unat_push_or [of "ucast b :: u32" 8 "foldl (\<lambda>r b. push_bit 8 r OR ucast b) 0 bs"] by simp
qed simp

lemma header_len32_val:
  assumes "length bs = k" "k \<le> 4" "take k (drop 2 hdr) = bs" "2 + k \<le> length hdr"
  shows "unat (header_len32 hdr k) = be_val bs"
proof -
  have "map (\<lambda>i. hdr ! (2 + i)) [0..<k] = take k (drop 2 hdr)"
    using assms(4) by (intro nth_equalityI) simp_all
  then have bs: "map (\<lambda>i. hdr ! (2 + i)) [0..<k] = bs" using assms(3) by simp
  have "header_len32 hdr k = foldl (\<lambda>r b. push_bit 8 r OR ucast b) 0 (map (\<lambda>i. hdr ! (2 + i)) [0..<k])"
    by (simp add: header_len32_def foldl_map)
  then have "header_len32 hdr k = foldl (\<lambda>r b. push_bit 8 r OR ucast b) 0 bs" unfolding bs .
  then show ?thesis using unat_fold_be32 [of bs] assms by simp
qed

lemma read_body_ok:
  assumes "mem_ok a h" "mem_contents a h = body @ rest" "length body \<le> INT_MAX" "hl + length body \<le> max_len"
    "take hl hdr = hs" "length hs = hl" "hl \<le> 6" "OPENSSL_malloc m (ballocs h) (length body + hl) = Some out"
  obtains h' where "read_asn1_body m (mem_method m) a max_len hdr hl (length body) h = Some (Inr (hs @ body, hl + length body), h')"
    "mem_ok a h'" "mem_contents a h' = rest" "mem_same a h h'"
proof -
  let ?h = "h\<lparr>ballocs := ballocs h + 1\<rparr>"
  have ok: "mem_ok a ?h" "mem_contents a ?h = body @ rest" "mem_same a h ?h" using assms(1,2) by simp_all
  obtain h' where read: "bio_read_full (mem_method m) a True (mem_write 0 hs out) hl (length body) ?h =
      Some (True, False, mem_write hl body (mem_write 0 hs out), h')" "mem_ok a h'" "mem_contents a h' = rest" "mem_same a ?h h'"
    using read_full_ok [OF ok(1,2) assms(3)] by metis
  have len: "length out = length body + hl" using OPENSSL_malloc_length [OF assms(8)] .
  have "mem_write hl body (mem_write 0 hs out) = hs @ body" using len assms(6) by (simp add: mem_write_def)
  moreover have "(length body + hl) mod size_mod = length body + hl" using assms(3,7) by (simp add: INT_MAX_def)
  ultimately have "read_asn1_body m (mem_method m) a max_len hdr hl (length body) h = Some (Inr (hs @ body, hl + length body), h')"
    using assms(3-8) read(1) unfolding read_asn1_body_def by (simp add: Let_def add.commute del: mod_less)
  then show ?thesis using that read(2-4) mem_same_trans [OF ok(3)] by blast
qed

lemma read_body_short:
  assumes "mem_ok a h" "length (mem_contents a h) < n" "n \<le> INT_MAX" "hl + n \<le> max_len"
    "hl \<le> 6" "OPENSSL_malloc m (ballocs h) (n + hl) = Some out"
  obtains h' where "read_asn1_body m (mem_method m) a max_len hdr hl n h = Some (Inl ASN1_R_NOT_ENOUGH_DATA, h')"
    "mem_ok a h'" "mem_contents a h' = []"
proof -
  let ?h = "h\<lparr>ballocs := ballocs h + 1\<rparr>"
  have ok: "mem_ok a ?h" "mem_contents a ?h = mem_contents a h" using assms(1) by simp_all
  obtain eof out' h' where read: "bio_read_full (mem_method m) a True (mem_write 0 (take hl hdr) out) hl n ?h = Some (False, eof, out', h')"
      "mem_ok a h'" "mem_contents a h' = []"
    using read_full_short [OF ok(1)] ok(2) assms(2,3) by metis
  have "(n + hl) mod size_mod = n + hl" using assms(3,5) by (simp add: INT_MAX_def)
  then have "read_asn1_body m (mem_method m) a max_len hdr hl n h = Some (Inl ASN1_R_NOT_ENOUGH_DATA, h')"
    using assms(3-6) read(1) unfolding read_asn1_body_def by (simp add: Let_def add.commute del: mod_less)
  then show ?thesis using that read(2,3) by blast
qed

text \<open>The two forms of a header with a tag number below 31.\<close>

definition low_tag :: "nat \<Rightarrow> bool" where
  "low_tag t \<longleftrightarrow> t < 2 ^ 32 \<and> t mod 2 ^ 29 < 31"

lemma header_forms:
  assumes "low_tag t" "n \<le> INT_MAX"
  obtains (short) tb lb where "der_header t n = [tb, lb]" "tb AND 0x1f \<noteq> 0x1f" "lb AND 0x80 = 0" "unat lb = n"
    | (long) tb lb k where "der_header t n = [tb, lb] @ be_bytes k n" "tb AND 0x1f \<noteq> 0x1f" "lb AND 0x80 \<noteq> 0"
        "unat (lb AND 0x7f) = k" "0 < k" "k \<le> 4" "128 \<le> n" "256 ^ (k - 1) \<le> n" "n < 256 ^ k"
proof -
  define tb :: byte where "tb = word_of_nat (t div 2 ^ 29 * 32 + t mod 2 ^ 29)"
  have tag: "tag_bytes t = [tb]" using assms(1) by (simp add: tag_bytes_def Let_def tb_def low_tag_def)
  have "unat tb mod 32 = t mod 2 ^ 29"
    using assms(1) unfolding tb_def unat_byte_of_nat low_tag_def by (simp add: mod_mod_cancel [of 32 256])
  then have "unat (tb AND 0x1f) \<noteq> 31" using assms(1) by (simp add: byte_and_1f low_tag_def)
  then have tb: "tb AND 0x1f \<noteq> 0x1f" by auto
  show ?thesis
  proof (cases "n < 128")
    case True
    then have "unat (word_of_nat n :: byte) = n" by (simp add: unat_byte_of_nat)
    then show ?thesis using short [of tb "word_of_nat n"] tag tb True by (simp add: der_header_def len_bytes_def byte_and_80)
  next
    case False
    have k: "0 < nbytes n" "nbytes n \<le> 4" "256 ^ (nbytes n - 1) \<le> n" "n < 256 ^ nbytes n"
      using False assms(2) nbytes_pos [of n] nbytes_lower [of n] nbytes_bound [of n] by (auto intro!: nbytes_le simp: INT_MAX_def)
    then have "unat (word_of_nat (128 + nbytes n) :: byte) = 128 + nbytes n" by (simp only: unat_byte_of_nat) simp
    then show ?thesis using long [of tb "word_of_nat (128 + nbytes n)" "nbytes n"] tag tb False k
      by (simp add: der_header_def len_bytes_def byte_and_80 byte_and_7f del: of_nat_add)
  qed
qed

lemma mem_write_two:
  assumes "length hdr = 6"
  shows "mem_write 0 [x, y] hdr ! 0 = x" "mem_write 0 [x, y] hdr ! 1 = y" "length (mem_write 0 [x, y] hdr) = 6"
    "take 2 (mem_write 0 [x, y] hdr) = [x, y]"
  using assms by (simp_all add: mem_write_def)

lemma read_two:
  assumes "mem_ok a h" "mem_contents a h = [x, y] @ zs"
  obtains h' where "bio_read_full (mem_method m) a True header 0 2 h = Some (True, False, mem_write 0 [x, y] header, h')"
    "mem_ok a h'" "mem_contents a h' = zs" "mem_same a h h'"
proof -
  have len: "length [x, y] = 2" by simp
  show ?thesis
    by (rule read_full_ok [OF assms, where m = m and f = True and out = header and pos = 0, unfolded len]) (use that in \<open>auto simp: INT_MAX_def\<close>)
qed

text \<open>Once its header is read, what is left of \<open>BIO_read_asn1\<close> is reading the contents.\<close>

lemma asn1_header_read:
  assumes "mem_ok a h" "mem_contents a h = der_header t n @ xs" "low_tag t" "n \<le> INT_MAX" "length header = 6"
  obtains hdr h' where "BIO_read_asn1 m (mem_method m) a header max_len h =
      read_asn1_body m (mem_method m) a max_len hdr (length (der_header t n)) n h'"
    "take (length (der_header t n)) hdr = der_header t n" "length (der_header t n) \<le> 6" "mem_ok a h'" "mem_contents a h' = xs" "mem_same a h h'"
  using assms(3,4)
proof (cases rule: header_forms)
  case (short tb lb)
  let ?hdr = "mem_write 0 [tb, lb] header"
  obtain h1 where read: "bio_read_full (mem_method m) a True header 0 2 h = Some (True, False, ?hdr, h1)"
      "mem_ok a h1" "mem_contents a h1 = xs" "mem_same a h h1"
    by (rule read_two [OF assms(1), of tb lb xs]) (use assms(2) short(1) in auto)
  note hdr = mem_write_two [OF assms(5), of tb lb]
  have "BIO_read_asn1 m (mem_method m) a header max_len h = read_asn1_body m (mem_method m) a max_len ?hdr 2 n h1"
    using read(1) hdr short by (simp add: BIO_read_asn1_def Let_def)
  moreover have "length (der_header t n) = 2" "take 2 ?hdr = der_header t n" using short(1) hdr(4) by simp_all
  ultimately show ?thesis using that [of ?hdr h1] read(2-4) by simp
next
  case (long tb lb k)
  let ?hdr = "mem_write 0 [tb, lb] header" and ?bs = "be_bytes k n"
  let ?hdr2 = "mem_write 2 ?bs ?hdr"
  obtain h1 where read: "bio_read_full (mem_method m) a True header 0 2 h = Some (True, False, ?hdr, h1)"
      "mem_ok a h1" "mem_contents a h1 = ?bs @ xs" "mem_same a h h1"
    by (rule read_two [OF assms(1), of tb lb "?bs @ xs"]) (use assms(2) long(1) in auto)
  have "length ?bs \<le> INT_MAX" using long(6) by (simp add: INT_MAX_def)
  then obtain h2 where read2: "bio_read_full (mem_method m) a True ?hdr 2 (length ?bs) h1 = Some (True, False, ?hdr2, h2)"
      "mem_ok a h2" "mem_contents a h2 = xs" "mem_same a h1 h2"
    using read_full_ok [OF read(2,3)] by metis
  note hdr = mem_write_two [OF assms(5), of tb lb]
  have tk: "take (2 + k) ?hdr2 = [tb, lb] @ ?bs" "take k (drop 2 ?hdr2) = ?bs" "2 + k \<le> length ?hdr2"
    using long(6) hdr(3,4) by (simp_all add: mem_write_def)
  have len32: "unat (header_len32 ?hdr2 k) = n"
    using header_len32_val [OF _ long(6) tk(2,3)] be_val_be_bytes [of k n] long(9) by simp
  then have "\<not> header_len32 ?hdr2 k < 128" "drop_bit ((k - 1) * 8) (header_len32 ?hdr2 k) \<noteq> 0"
    unfolding word_padded32 using long(7,8) by (simp_all add: word_less_nat_alt)
  then have "BIO_read_asn1 m (mem_method m) a header max_len h = read_asn1_body m (mem_method m) a max_len ?hdr2 (2 + k) n h2"
    using read(1) read2(1) hdr(1,2) long(2-6) len32 by (simp add: BIO_read_asn1_def Let_def)
  then show ?thesis
    using that [of ?hdr2 h2] long(1,6) tk(1) read2(2,3) mem_same_trans [OF read(4) read2(4)] by simp
qed

lemma asn1_header_short:
  assumes "mem_ok a h" "der_header t n = mem_contents a h @ ys" "ys \<noteq> []" "low_tag t" "n \<le> INT_MAX" "length header = 6"
  obtains h' where "BIO_read_asn1 m (mem_method m) a header max_len h =
      Some (Inl (if mem_contents a h = [] \<and> bio_num (bios h a) = 0 then ASN1_R_HEADER_TOO_LONG else ASN1_R_NOT_ENOUGH_DATA), h')"
    "mem_ok a h'" "mem_contents a h' = []"
proof (cases "length (mem_contents a h) < 2")
  case True
  obtain out' h' where "bio_read_full (mem_method m) a True header 0 2 h =
      Some (False, True \<and> mem_contents a h = [] \<and> bio_num (bios h a) = 0, out', h')" "mem_ok a h'" "mem_contents a h' = []"
    by (rule read_full_short [OF assms(1) True, where m = m and f = True and out = header and pos = 0]) (auto simp: INT_MAX_def)
  then show ?thesis using that by (simp add: BIO_read_asn1_def)
next
  case two: False
  from assms(4,5) show ?thesis
  proof (cases rule: header_forms)
    case (short tb lb)
    have "length (der_header t n) = 2" using short(1) by simp
    then have "length (mem_contents a h) + length ys = 2" using assms(2) by simp
    then have "ys = []" using two by (simp flip: length_0_conv)
    then show ?thesis using assms(3) by simp
  next
    case (long tb lb k)
    then obtain zs where zs: "mem_contents a h = [tb, lb] @ zs" "be_bytes k n = zs @ ys"
      using assms(2) two by (cases "mem_contents a h" rule: remdups_adj.cases) auto
    let ?hdr = "mem_write 0 [tb, lb] header"
    obtain h1 where read: "bio_read_full (mem_method m) a True header 0 2 h = Some (True, False, ?hdr, h1)"
        "mem_ok a h1" "mem_contents a h1 = zs"
      by (rule read_two [OF assms(1) zs(1)])
    have less: "length (mem_contents a h1) < k" using arg_cong [OF zs(2), of length] assms(3) read(3) by (cases ys) simp_all
    obtain eof out' h2 where read2: "bio_read_full (mem_method m) a True ?hdr 2 k h1 = Some (False, eof, out', h2)"
        "mem_ok a h2" "mem_contents a h2 = []"
      by (rule read_full_short [OF read(2) less, where m = m and f = True and out = ?hdr and pos = 2]) (use long(6) in \<open>auto simp: INT_MAX_def\<close>)
    note hdr = mem_write_two [OF assms(6), of tb lb]
    have "BIO_read_asn1 m (mem_method m) a header max_len h = Some (Inl ASN1_R_NOT_ENOUGH_DATA, h2)"
      using read(1) read2(1) hdr(1,2) long(2-6) by (simp add: BIO_read_asn1_def Let_def)
    then show ?thesis using that zs(1) read2(2,3) by simp
  qed
qed

subsection \<open>The properties\<close>

lemma mem_ok_num: "mem_ok a h \<Longrightarrow> bio_num (bios h a) \<le> 0"
  by (simp add: mem_ok_def)

lemma read_asn1_whole:
  assumes "mem_ok a h" "low_tag t" "length body \<le> INT_MAX" "length (der t body) \<le> max_len" "length header = 6"
    "\<forall>k. OPENSSL_malloc m k (length (der t body)) \<noteq> None" "mem_contents a h = der t body @ rest"
  shows "\<exists>h'. BIO_read_asn1 m (mem_method m) a header max_len h = Some (Inr (der t body, length (der t body)), h') \<and>
    mem_ok a h' \<and> mem_contents a h' = rest"
proof -
  let ?hs = "der_header t (length body)" and ?read = "BIO_read_asn1 m (mem_method m) a header max_len h"
  have c: "mem_contents a h = ?hs @ body @ rest" using assms(7) by (simp add: der_def)
  obtain hdr h1 where h1: "?read = read_asn1_body m (mem_method m) a max_len hdr (length ?hs) (length body) h1"
      "take (length ?hs) hdr = ?hs" "length ?hs \<le> 6" "mem_ok a h1" "mem_contents a h1 = body @ rest"
    by (rule asn1_header_read [OF assms(1) c assms(2,3,5)])
  have size: "length body + length ?hs = length (der t body)" by (simp add: der_def)
  obtain out where out: "OPENSSL_malloc m (ballocs h1) (length body + length ?hs) = Some out" using assms(6) size by fastforce
  have fits: "length ?hs + length body \<le> max_len" using assms(4) size by simp
  obtain h' where "?read = Some (Inr (?hs @ body, length ?hs + length body), h')" "mem_ok a h'" "mem_contents a h' = rest"
    using read_body_ok [OF h1(4,5) assms(3) fits h1(2) refl h1(3) out] h1(1) by metis
  then show ?thesis by (simp add: der_def)
qed

lemma read_asn1_truncated:
  assumes "mem_ok a h" "low_tag t" "length body \<le> INT_MAX" "length (der t body) \<le> max_len" "length header = 6"
    "\<forall>k. OPENSSL_malloc m k (length (der t body)) \<noteq> None" "der t body = mem_contents a h @ ys" "ys \<noteq> []"
  shows "\<exists>h'. BIO_read_asn1 m (mem_method m) a header max_len h =
      Some (Inl (if mem_contents a h = [] \<and> bio_num (bios h a) = 0 then ASN1_R_HEADER_TOO_LONG else ASN1_R_NOT_ENOUGH_DATA), h') \<and>
    mem_ok a h' \<and> mem_contents a h' = []"
proof -
  let ?hs = "der_header t (length body)" and ?read = "BIO_read_asn1 m (mem_method m) a header max_len h"
  have body: ?thesis if zs: "mem_contents a h = ?hs @ zs" "body = zs @ ys" for zs
  proof -
    obtain hdr h1 where h1: "?read = read_asn1_body m (mem_method m) a max_len hdr (length ?hs) (length body) h1"
        "length ?hs \<le> 6" "mem_ok a h1" "mem_contents a h1 = zs"
      by (rule asn1_header_read [OF assms(1) zs(1) assms(2,3,5)])
    have size: "length body + length ?hs = length (der t body)" by (simp add: der_def)
    obtain out where out: "OPENSSL_malloc m (ballocs h1) (length body + length ?hs) = Some out" using assms(6) size by fastforce
    have less: "length (mem_contents a h1) < length body" using h1(4) zs(2) assms(8) by simp
    have fits: "length ?hs + length body \<le> max_len" using assms(4) size by simp
    obtain h' where "?read = Some (Inl ASN1_R_NOT_ENOUGH_DATA, h')" "mem_ok a h'" "mem_contents a h' = []"
      using read_body_short [OF h1(3) less assms(3) fits h1(2) out] h1(1) by metis
    moreover have "mem_contents a h \<noteq> []" using zs(1) by (simp add: der_header_def)
    ultimately show ?thesis by simp
  qed
  consider (header) us where "?hs = mem_contents a h @ us" "us @ body = ys" | (in_body) us where "?hs @ us = mem_contents a h" "body = us @ ys"
    using assms(7) unfolding der_def append_eq_append_conv2 by blast
  then show ?thesis
  proof cases
    case header
    show ?thesis
    proof (cases "us = []")
      case True
      then show ?thesis using body [of "[]"] header by simp
    next
      case False
      then show ?thesis using asn1_header_short [OF assms(1) header(1) False assms(2,3,5)] by metis
    qed
  next
    case in_body
    then show ?thesis using body [of us] by simp
  qed
qed

text \<open>
  C40: \<open>BIO_read_asn1\<close> on a memory BIO takes exactly one element off the stream. If the stream
  starts with an element (its tag number below 31, its size within \<open>max_len\<close> and \<open>INT_MAX\<close>) and
  there is memory for it, that element is returned with its length and what follows it stays
  unread; if the stream ends inside the element, the error is that there is not enough data,
  except that an empty stream at end of file is told apart.
\<close>

theorem BIO_read_asn1_element:
  assumes "mem_ok a h" "low_tag t" "length body \<le> INT_MAX" "length (der t body) \<le> max_len" "length header = 6"
    "\<forall>k. OPENSSL_malloc m k (length (der t body)) \<noteq> None"
  shows "(mem_contents a h = der t body @ rest \<longrightarrow>
      (\<exists>h'. BIO_read_asn1 m (mem_method m) a header max_len h = Some (Inr (der t body, length (der t body)), h') \<and>
        mem_ok a h' \<and> mem_contents a h' = rest)) \<and>
    (der t body = mem_contents a h @ ys \<and> ys \<noteq> [] \<longrightarrow>
      (\<exists>h'. BIO_read_asn1 m (mem_method m) a header max_len h =
          Some (Inl (if mem_contents a h = [] \<and> bio_num (bios h a) = 0 then ASN1_R_HEADER_TOO_LONG else ASN1_R_NOT_ENOUGH_DATA), h') \<and>
        mem_ok a h' \<and> mem_contents a h' = []))"
  using read_asn1_whole [OF assms] read_asn1_truncated [OF assms] by blast

theorem BIO_read_asn1_element_witness:
  "(\<exists>h'. BIO_read_asn1 zero_alloc (mem_method zero_alloc) 0 (replicate 6 0) 100 (demo_mem [4, 2, 7, 8, 5, 0]) = Some (Inr ([4, 2, 7, 8], 4), h') \<and>
      mem_contents 0 h' = [5, 0]) \<and>
   (\<exists>h'. BIO_read_asn1 zero_alloc (mem_method zero_alloc) 0 (replicate 6 0) 100 (demo_mem [4, 2, 7]) = Some (Inl ASN1_R_NOT_ENOUGH_DATA, h'))"
proof -
  have d: "der 4 [7, 8] = [4, 2, 7, 8]" "low_tag 4" by (simp_all add: der_def der_header_def tag_bytes_def len_bytes_def low_tag_def)
  have m: "\<forall>k. OPENSSL_malloc zero_alloc k (length (der 4 [7, 8])) \<noteq> None" using zero_alloc_small d(1) by simp
  have whole: "mem_ok 0 (demo_mem [4, 2, 7, 8, 5, 0])" "mem_contents 0 (demo_mem [4, 2, 7, 8, 5, 0]) = [4, 2, 7, 8, 5, 0]"
    using demo_mem_ok(1,2) [of "[4, 2, 7, 8, 5, 0]"] by (simp_all add: INT_MAX_def)
  have part: "mem_ok 0 (demo_mem [4, 2, 7])" "mem_contents 0 (demo_mem [4, 2, 7]) = [4, 2, 7]"
    using demo_mem_ok(1,2) [of "[4, 2, 7]"] by (simp_all add: INT_MAX_def)
  show ?thesis
    using BIO_read_asn1_element [OF whole(1) d(2) _ _ _ m, of 100 "replicate 6 0" "[5, 0]" "[]"]
      BIO_read_asn1_element [OF part(1) d(2) _ _ _ m, of 100 "replicate 6 0" "[]" "[8]"] whole(2) part(2) d(1)
    by (auto simp: INT_MAX_def)
qed

subsection \<open>Other end-of-data values\<close>

lemma size_sub_eq: "x < size_mod \<Longrightarrow> y < size_mod \<Longrightarrow> size_sub x y = (if y \<le> x then x - y else x + size_mod - y)"
  by (auto simp: size_sub_def mod_if)

lemma wrap_up_two:
  fixes len got g M :: nat
  assumes "g = (if got \<le> len then len - got else len + M - got)" "got < M" "2 \<le> g" "len + g + 2 < M"
    "got1 = (if 2 \<le> got then got - 2 else got + M - 2)"
  shows "(if got1 \<le> len then len - got1 else len + M - got1) = g + 2" "got1 < M"
  using assms by (cases "got \<le> len"; cases "2 \<le> got"; simp; linarith)+

lemma size_sub_minus_two:
  assumes "size_sub len got = g" "got < size_mod" "len < 2 ^ 31" "2 \<le> g" "g < 2 ^ 32"
  shows "size_sub len (nat ((int got + - 2) mod 2 ^ 64)) = g + 2" "nat ((int got + - 2) mod 2 ^ 64) < size_mod"
proof -
  define M :: nat where "M = size_mod"
  have M: "2 ^ 33 < M" "int M = 2 ^ 64" by (simp_all add: M_def)
  have lens: "len < M" "len + g + 2 < M" "got < M" using assms(2,3,5) M(1) by (simp_all add: M_def)
  have "(int got + - 2) mod int M = (if 2 \<le> got then int got - 2 else int got + int M - 2)"
  proof (cases "2 \<le> got")
    case False
    have "(int got + - 2 + int M) mod int M = int got + - 2 + int M" using False M(1) by (intro mod_pos_pos_trivial) simp_all
    then show ?thesis using False by simp
  qed (use lens(3) in simp)
  then have got1: "nat ((int got + - 2) mod 2 ^ 64) = (if 2 \<le> got then got - 2 else got + M - 2)" unfolding M(2) using M by auto
  have g: "g = (if got \<le> len then len - got else len + M - got)"
    using size_sub_eq [of len got] assms(1) lens unfolding M_def [symmetric] by simp
  note up = wrap_up_two [OF g lens(3) assms(4) lens(2) got1]
  show less: "nat ((int got + - 2) mod 2 ^ 64) < size_mod" using up(2) unfolding M_def .
  show "size_sub len (nat ((int got + - 2) mod 2 ^ 64)) = g + 2"
    using size_sub_eq [OF lens(1) [unfolded M_def] less] up(1) unfolding M_def by (rule trans)
qed

text \<open>
  A memory BIO that reports the end of its data with \<open>-2\<close>, as a caller may ask it to: each
  round of the loop moves the position two bytes back, until the room it computes is no longer positive as
  an \<open>int\<close>.
\<close>

lemma read_all_backwards:
  assumes "mem_ok a h" "mem_contents a h = []" "bio_num (bios h a) = - 2"
    "size_sub len got = g" "got < size_mod" "len < 2 ^ 31" "kChunkSize div 2 \<le> g" "g < 2 ^ 31 + 2"
  shows "\<exists>h' got'. read_all_loop m (mem_method m) a max_len out len got h = Some (Some (out, got'), h') \<and>
    got' < size_mod \<and> 2 ^ 31 \<le> size_sub len got' \<and> size_sub len got' < 2 ^ 31 + 2"
  using assms
proof (induction "2 ^ 31 + 2 - g" arbitrary: g got h rule: less_induct)
  case less
  have ne: "got \<noteq> len" using less.prems by (auto simp: size_sub_def kChunkSize_def)
  have same: "mem_write got [] out = out" by (simp add: mem_write_def)
  have init: "bio_init (bios h a)" using less.prems(1) by (simp add: mem_ok_def)
  show ?case
  proof (cases "g < 2 ^ 31")
    case True
    then have g: "0 < g" "g \<le> INT_MAX" using less.prems(7) by (simp_all add: INT_MAX_def kChunkSize_def)
    obtain h1 where h1: "BIO_read (mem_method m) a True (int g) h = Some (- 2, [], h1)" "mem_ok a h1" "mem_contents a h1 = []" "mem_same a h h1"
      using BIO_read_mem [OF less.prems(1) g, where m = m] less.prems(2,3) by auto
    define got1 where "got1 = nat ((int got + - 2) mod 2 ^ 64)"
    have got1: "size_sub len got1 = g + 2" "got1 < size_mod"
      unfolding got1_def using size_sub_minus_two [OF less.prems(4-6)] less.prems(7) True by (simp_all add: kChunkSize_def)
    have num: "bio_num (bios h1 a) = - 2" using h1(4) less.prems(3) by (simp add: mem_same_def)
    have "read_all_loop m (mem_method m) a max_len out len got h = read_all_loop m (mem_method m) a max_len out len got1 h1"
      unfolding read_all_loop.simps [of m "mem_method m" a max_len out len got h] less.prems(4) int_max_small [OF g(2)] h1(1)
        Option.bind.bind_lunit prod.case Let_def got1_def [symmetric]
      using ne same got1 less.prems(7) by simp
    moreover have "\<exists>h' got'. read_all_loop m (mem_method m) a max_len out len got1 h1 = Some (Some (out, got'), h') \<and>
        got' < size_mod \<and> 2 ^ 31 \<le> size_sub len got' \<and> size_sub len got' < 2 ^ 31 + 2"
      by (rule less.hyps [OF _ h1(2,3) num got1 less.prems(6)]) (use True less.prems(7) in simp_all)
    ultimately show ?thesis by simp
  next
    case False
    then have "g = 2 ^ 31 \<or> g = 2 ^ 31 + 1" using less.prems(8) by auto
    then have "signed_take_bit 31 (int g) \<le> 0" by auto
    then have "BIO_read (mem_method m) a True (signed_take_bit 31 (int g)) h = Some (0, [], h)"
      using init by (simp add: BIO_read_def mem_method_def)
    then have "read_all_loop m (mem_method m) a max_len out len got h = Some (Some (out, got), h)"
      unfolding read_all_loop.simps [of m "mem_method m" a max_len out len got h] less.prems(4)
      using ne same by simp
    then show ?thesis using less.prems False by auto
  qed
qed

text \<open>
  A negative value other than -1 at the end of the data is taken for a number of bytes.
  A memory BIO told to report its end with -2 (\<open>BIO_set_mem_eof_return\<close>) and holding nothing but
  the header of an element of indefinite length makes \<open>BIO_read_asn1\<close> succeed with a buffer of 4098 bytes and a
  length above 2^63.
\<close>

theorem BIO_read_asn1_bad_length:
  assumes "mem_ok a h" "mem_contents a h = [0x30, 0x80]" "bio_num (bios h a) = - 2" "length header = 6" "4098 \<le> max_len"
    "\<forall>k. OPENSSL_malloc m k 4098 \<noteq> None"
  shows "\<exists>out out_len h'. BIO_read_asn1 m (mem_method m) a header max_len h = Some (Inr (out, out_len), h') \<and>
    length out = 4098 \<and> out_len > 2 ^ 63"
proof -
  let ?hdr = "mem_write 0 [0x30, 0x80] header"
  obtain h1 where h1: "bio_read_full (mem_method m) a True header 0 2 h = Some (True, False, ?hdr, h1)" "mem_ok a h1" "mem_contents a h1 = []" "mem_same a h h1"
    by (rule read_two [OF assms(1), of "0x30" "0x80" "[]"]) (use assms(2) in auto)
  note hdr = mem_write_two [OF assms(4), of "0x30" "0x80"]
  let ?h = "h1\<lparr>ballocs := ballocs h1 + 1\<rparr>"
  obtain junk where junk: "OPENSSL_malloc m (ballocs h1) 4098 = Some junk" using assms(6) by blast
  define out where "out = mem_write 0 [0x30, 0x80] junk"
  have num: "bio_num (bios ?h a) = - 2" using h1(4) assms(3) by (simp add: mem_same_def)
  have gap: "size_sub 4098 2 = 4096" by (simp add: size_sub_def)
  have "\<exists>h' got'. read_all_loop m (mem_method m) a max_len out 4098 2 ?h = Some (Some (out, got'), h') \<and>
      got' < size_mod \<and> 2 ^ 31 \<le> size_sub 4098 got' \<and> size_sub 4098 got' < 2 ^ 31 + 2"
    by (rule read_all_backwards [OF _ _ num gap]) (use h1(2,3) in \<open>simp_all add: kChunkSize_def\<close>)
  then obtain h' got' where run: "read_all_loop m (mem_method m) a max_len out 4098 2 ?h = Some (Some (out, got'), h')"
    and got': "got' < size_mod" "2 ^ 31 \<le> size_sub 4098 got'" "size_sub 4098 got' < 2 ^ 31 + 2" by blast
  have "bio_read_all m (mem_method m) a (take 2 ?hdr) max_len h1 = Some (Some (out, got'), h')"
    using run [unfolded numeral_2_eq_2] junk assms(5) unfolding hdr(4) by (simp add: bio_read_all_def Let_def kChunkSize_def out_def)
  then have "BIO_read_asn1 m (mem_method m) a header max_len h = Some (Inr (out, got'), h')"
    using h1(1) hdr by (simp add: BIO_read_asn1_def Let_def)
  moreover have "length out = 4098" using OPENSSL_malloc_length [OF junk] by (simp add: out_def mem_write_def)
  moreover have "got' > 2 ^ 63" using size_sub_eq [of 4098 got'] got' by (simp split: if_splits)
  ultimately show ?thesis by blast
qed

theorem BIO_read_asn1_bad_length_witness:
  "\<exists>out out_len h'. BIO_read_asn1 zero_alloc (mem_method zero_alloc) 0 (replicate 6 0) 5000
       (snd (BIO_set_mem_eof_return zero_alloc 0 (- 2) (demo_mem [0x30, 0x80]))) = Some (Inr (out, out_len), h') \<and>
     length out = 4098 \<and> out_len > 2 ^ 63"
proof -
  let ?h = "snd (BIO_set_mem_eof_return zero_alloc 0 (- 2) (demo_mem [0x30, 0x80]))"
  have set: "?h = upd_bio 0 (\<lambda>bio. bio\<lparr>bio_num := - 2\<rparr>) (demo_mem [0x30, 0x80])"
    by (simp add: BIO_set_mem_eof_return_def BIO_ctrl_def mem_method_def mem_ctrl_def Let_def BIO_CTRL_RESET_def BIO_CTRL_EOF_def
        BIO_C_SET_BUF_MEM_EOF_RETURN_def)
  have "mem_ok 0 (demo_mem [0x30, 0x80])" "mem_contents 0 (demo_mem [0x30, 0x80]) = [0x30, 0x80]"
    using demo_mem_ok(1,2) [of "[0x30, 0x80]"] by (simp_all add: INT_MAX_def)
  then have "mem_ok 0 ?h" "mem_contents 0 ?h = [0x30, 0x80]" "bio_num (bios ?h 0) = - 2"
    unfolding set by (simp_all add: mem_ok_def mem_contents_def is_rdonly_def split: option.splits)
  moreover have "\<forall>k. OPENSSL_malloc zero_alloc k 4098 \<noteq> None" using zero_alloc_small [of 4098] by simp
  ultimately show ?thesis using BIO_read_asn1_bad_length [of 0 ?h "replicate 6 0" 5000 zero_alloc] by simp
qed

end
