(* ===== verification/Spec2Isabelle.thy ===== *)
theory Spec2Isabelle
  imports Builder_Properties Unicode Base64_Properties Stack_Properties Lhash_Properties Bio_Pair_Properties
    Asn1_Time_Properties Oid Ber_Properties Refcount Bio_Asn1
begin

text \<open>
  \<^bold>\<open>The program.\<close> GoodThing is an iOS application; its own code is Swift over the Firebase services. The C
  code it ships is in \<open>src/GoodThing/Pods\<close>, and the part of it every network connection of the application
  passes through is BoringSSL (\<open>Pods/BoringSSL-GRPC/src\<close>). This development models the layer BoringSSL's protocol and
  certificate code is built on, from \<open>src/crypto\<close>: memory and C strings, the byte-string reader and builder with their
  ASN.1 (DER and BER) functions, Unicode, Base64, pointer stacks, hash tables, growable buffers, BIOs, the ASN.1 time types and
  calendar arithmetic, and reference counts. File names below are relative to \<open>Pods/BoringSSL-GRPC/src\<close>.

  \<^bold>\<open>Theories and sources.\<close>

  \<^item> \<open>Prelude\<close>: byte and word types, big-endian values, word arithmetic, the collection \<open>word_nat_simps\<close>.

  \<^item> \<open>Mem\<close>: \<open>crypto/mem.c\<close> (allocation, \<open>memdup\<close>, constant-time comparison, hashing, bounded C strings). Every other
  component allocates through it.

  \<^item> \<open>Bytestring_Reader\<close>, \<open>Asn1_Reader\<close>, \<open>Asn1_Values\<close>: \<open>crypto/bytestring/cbs.c\<close>. A \<open>CBS\<close> is the record of its pointer and
  length; a pointer is the list of bytes from it on. \<open>Asn1_Reader\<close> also writes the distinguished encoding
  down once (\<open>tag_bytes\<close>, \<open>len_bytes\<close>, \<open>der\<close>); the readers of elements, integers and booleans are proved exact against it, and an element is
  shown to stay inside the input in DER and in BER mode.

  \<^item> \<open>Bytestring_Builder\<close>, \<open>Builder_Refinement\<close>, \<open>Builder_Operations\<close>, \<open>Builder_Asn1\<close>, \<open>Builder_Properties\<close>:
  \<open>crypto/bytestring/cbb.c\<close>. The state is a heap of \<open>CBB\<close> records by address, the shared buffer, and the allocation counter;
  a builder with an open child is a chain of addresses. The abstract state is the list of the contents of the open builders
  (\<open>rep\<close>); \<open>CBB_flush\<close> and the operations refine closing and appending on it. \<open>works\<close> says that an operation appends
  given bytes and fails only for want of memory; \<open>session\<close> and \<open>session_fails\<close> run a writer between \<open>CBB_init\<close> and
  \<open>CBB_finish\<close>. The round trips with the reader are here.

  \<^item> \<open>Set_Of\<close>: \<open>CBB_flush_asn1_set_of\<close>, with \<open>qsort\<close> a parameter. \<open>Oid\<close>, \<open>Decimal\<close>: object identifiers as text, in
  \<open>cbb.c\<close> and \<open>cbs.c\<close>.

  \<^item> \<open>Ber\<close>, \<open>Ber_Conversion\<close>, \<open>Ber_Properties\<close>: \<open>crypto/bytestring/ber.c\<close>. Trees of BER elements and their DER encodings are the
  specification; the converter is proved to compute it where its first pass notices BER (the condition is stated as the
  code has it), to leave DER in place, and to return on every input.

  \<^item> \<open>Unicode\<close>: \<open>crypto/bytestring/unicode.c\<close>. \<open>Constant_Time\<close>: the masks of \<open>crypto/internal.h\<close>. \<open>Base64\<close>,
  \<open>Base64_Properties\<close>: \<open>crypto/base64/base64.c\<close>, block and streaming.

  \<^item> \<open>Comparison\<close>, \<open>Stack\<close>, \<open>Stack_Properties\<close>: \<open>crypto/stack/stack.c\<close>, with the comparison function and the
  allocator as parameters; the invariant of the \<open>sorted\<close> flag, list refinement of the operations, binary search,
  deep copies without leaks. \<open>stack_step\<close> covers every operation that changes a stack except \<open>sk_set\<close>.

  \<^item> \<open>Lhash\<close>, \<open>Lhash_Properties\<close>: \<open>crypto/lhash/lhash.c\<close>. Buckets are lists of items tagged with their addresses, which
  stand for the linked \<open>LHASH_ITEM\<close> chains; the table refines a dictionary through every resize, and iteration tolerates a callback that deletes.

  \<^item> \<open>Bio\<close>: \<open>crypto/bio/bio.c\<close>, the generic functions over a method table; also the contract of a byte stream.
  \<open>Bio_Pair\<close>, \<open>Bio_Pair_Properties\<close>: \<open>crypto/bio/pair.c\<close>, two connected ring buffers. \<open>Buf\<close>: \<open>crypto/buf/buf.c\<close>.
  \<open>Bio_Mem\<close>, \<open>Bio_Mem_Properties\<close>: \<open>crypto/bio/bio_mem.c\<close>, memory BIOs on top of \<open>Bio\<close> and \<open>Buf\<close>. \<open>Bio_Asn1\<close>: \<open>BIO_read_asn1\<close> of
  \<open>bio.c\<close> on a memory BIO, against the encodings of \<open>Asn1_Reader\<close>.

  \<^item> \<open>Calendar\<close>: \<open>crypto/asn1/time_support.c\<close>. \<open>Asn1_String\<close>, \<open>Asn1_Time\<close>, \<open>Asn1_Time_Properties\<close>: \<open>asn1_lib.c\<close>,
  \<open>a_utctm.c\<close>, \<open>a_gentm.c\<close> and \<open>a_time.c\<close> of \<open>crypto/asn1\<close>: parsing, printing, comparison and adjustment of times.

  \<^item> \<open>Refcount\<close>: \<open>crypto/refcount_c11.c\<close> as atomic rounds of interleaved threads, and \<open>crypto/refcount_lock.c\<close>.

  \<^bold>\<open>Interfaces.\<close> A contract that a component relies on is a locale, proved once and interpreted on the definitions
  that provide it: \<open>comparison\<close> (a total preorder, interpreted for the elements of a SET OF), \<open>sequence\<close> (stacks as
  lists), \<open>byte_source\<close> (reading from a slice, for \<open>CBS\<close>), \<open>dictionary\<close> (hash tables), \<open>byte_stream\<close> (what is read is what was accepted, in order; interpreted for memory
  BIOs) and \<open>byte_queue\<close>, the bounded variant, a sublocale of \<open>byte_stream\<close>, interpreted for the ring buffers.

  \<^bold>\<open>What the lemmas show.\<close> For every component: the invariant of its state and that the operations keep it; the result of each
  operation on every branch, failures included; refinement of an abstract specification where there is one; exactness of the
  parsers (they accept the encodings of the specification and nothing else); round trips between writers and readers;
  bounds (array accesses, \<open>int\<close> and \<open>size_t\<close> wrap-around, the load of a hash table, the copying cost of a growing buffer);
  termination; and for the reference counts safety under every interleaving and lock-freedom.

  \<^bold>\<open>Conventions.\<close> \<open>size_t\<close> is a natural number with the wrap-around modulo \<open>size_mod\<close> (\<open>2^64\<close>) written out; \<open>int\<close> and \<open>long\<close> arithmetic that may
  overflow returns \<open>None\<close> or is cut with \<open>signed_take_bit\<close>; fixed-width unsigned values are words. Failure is \<open>None\<close>, \<open>False\<close>, the C
  return value or an error constructor, as the code reports it. A loop that could run forever is a
  \<open>partial_function (option)\<close>, where \<open>None\<close> is a run that never ends, and the properties state that it ends; there is no fuel. The one bound
  in the code itself is \<open>kMaxDepth\<close> (2048) of the BER functions, kept as it is.

  \<^bold>\<open>Parameters.\<close> The allocator is any function from call number and size to nothing or initial contents, so that every pattern of
  failures is covered; \<open>zero_alloc\<close> instantiates it in witnesses. It stands for \<open>malloc\<close>; the
  weak \<open>OPENSSL_memory_alloc\<close> hooks an application may define are left out. Comparison, hash, copy and free callbacks, the C library's
  \<open>qsort\<close> and \<open>gmtime_r\<close>, and the addresses new objects get are parameters as well, with their documented behaviour as named
  hypotheses where it is needed.

  \<^bold>\<open>Where the code differs from its documentation.\<close> \<open>sk_set_breaks_sorted\<close> (a set leaves the flag of a sorted stack),
  \<open>gmtime_adj_overflow\<close> (an \<open>int\<close> product overflows from 24856 days on), \<open>nested_ber_missed\<close> (BER followed by a sibling is not
  converted), \<open>BIO_read_asn1_bad_length\<close> (a negative end-of-data value other than -1 counts as bytes), \<open>EVP_DecodeBlock_not_stripped\<close>. \<open>asn1.h\<close> says of
  \<open>ASN1_TIME_diff\<close> that it computes \<open>to\<close> minus \<open>from\<close>, as it does, and then gives the signs of the opposite difference.

  \<^bold>\<open>Not modelled.\<close> The Swift application; the C++ of gRPC, Firestore, leveldb and abseil; Objective-C services; nanopb and generated
  protobuf code. Of BoringSSL: TLS (C++), X.509 and the template-driven ASN.1 interpreter behind it (it works through untyped offsets into C structs), the
  cryptographic kernels (generated or assembly, a development of their own), the error queue (each model returns the failure itself), threads,
  entropy, sockets and files (the operating system), \<open>printf\<close> formatting beyond the time formats, generated object tables. Within the modelled
  files: functions that only release memory, the reference counts and chains of BIOs, the construction of BIO method tables. Atomics are
  sequentially consistent.
\<close>

end
